(* ===== verification/Prelude.thy ===== *)
theory Prelude
  imports Main "HOL-Library.Word"
begin

text \<open>
  What every component shares: the machine integers of \<^verbatim>\<open>src/src/globals.h\<close>, the
  outcome of code that can hit undefined behaviour (\<open>fault + 'a\<close>), pointers, the byte-level
  reads and writes the C++ performs through casted pointers, C string comparison and the
  decimal output of \<open>operator<<\<close>.
\<close>

unbundle bit_operations_syntax

named_theorems run_simps \<open>rewrite rules that run fault-carrying code\<close>

subsection \<open>Machine integers\<close>

type_synonym u8 = "8 word"
type_synonym u16 = "16 word"
type_synonym u32 = "32 word"
type_synonym u64 = "64 word"
type_synonym i32 = "32 word" \<comment> \<open>two's complement, read with \<open>sint\<close>\<close>
type_synonym byte = u8
type_synonym bytes = "u8 list"

lemma unat_word32: "n < 2 ^ 32 \<Longrightarrow> unat (word_of_nat n :: u32) = n"
  by (simp add: unat_of_nat)

lemma word32_of_nat_eq_0:
  assumes "n < 2 ^ 32"
  shows "(word_of_nat n :: u32) = 0 \<longleftrightarrow> n = 0"
proof
  assume "(word_of_nat n :: u32) = 0"
  then have "unat (word_of_nat n :: u32) = 0" by simp
  then show "n = 0" using unat_word32 [OF assms] by simp
qed simp

subsection \<open>Undefined behaviour as a value\<close>

datatype fault =
    NullDeref        \<comment> \<open>access through a null pointer\<close>
  | UseAfterFree     \<comment> \<open>access to an object that was deleted\<close>
  | OutOfBounds      \<comment> \<open>access outside an array or buffer\<close>
  | MissingReturn    \<comment> \<open>control flows off the end of a value-returning function\<close>
  | AssertFailed     \<comment> \<open>a failing \<open>assert\<close>\<close>
  | BadCast          \<comment> \<open>a downcast to a class the object does not have\<close>
  | Uninitialised    \<comment> \<open>use of an indeterminate value\<close>
  | SignedOverflow   \<comment> \<open>overflow of signed arithmetic\<close>

type_synonym 'a res = "fault + 'a"

definition bindR :: "'a res \<Rightarrow> ('a \<Rightarrow> 'b res) \<Rightarrow> 'b res" where
  "bindR r f = (case r of Inl e \<Rightarrow> Inl e | Inr x \<Rightarrow> f x)"

lemma bindR_Inl [simp, run_simps]: "bindR (Inl e) f = Inl e"
  by (simp add: bindR_def)

lemma bindR_Inr [simp, run_simps]: "bindR (Inr x) f = f x"
  by (simp add: bindR_def)

lemma bindR_return [simp]: "bindR r Inr = r"
  by (cases r) simp_all

lemma bindR_eq_Inr: "bindR r f = Inr y \<longleftrightarrow> (\<exists>x. r = Inr x \<and> f x = Inr y)"
  by (cases r) auto

lemma bindR_eq_Inl: "bindR r f = Inl e \<longleftrightarrow> r = Inl e \<or> (\<exists>x. r = Inr x \<and> f x = Inl e)"
  by (cases r) auto

lemma bindR_assoc: "bindR (bindR r f) g = bindR r (\<lambda>x. bindR (f x) g)"
  by (cases r) auto

lemma bindR_cong [fundef_cong]:
  "r = r' \<Longrightarrow> (\<And>x. r' = Inr x \<Longrightarrow> f x = f' x) \<Longrightarrow> bindR r f = bindR r' f'"
  by (cases r') auto

definition defined :: "'a res \<Rightarrow> bool" where
  "defined r \<longleftrightarrow> (case r of Inl _ \<Rightarrow> False | Inr _ \<Rightarrow> True)"

lemma defined_simps [simp]: "defined (Inr x)" "\<not> defined (Inl e)"
  by (simp_all add: defined_def)

lemma defined_iff: "defined r \<longleftrightarrow> (\<exists>x. r = Inr x)"
  by (cases r) auto

lemma defined_bindR: "defined (bindR r f) \<longleftrightarrow> (\<exists>x. r = Inr x \<and> defined (f x))"
  by (cases r) auto

subsection \<open>Pointers and heaps\<close>

datatype ptr = Null | Ptr nat

text \<open>
  A heap of objects of one type: \<open>None\<close> is an address that holds no object, because it was
  freed or never allocated. \<open>new\<close> takes the address the allocator returns from a counter, so
  an address is never reused; every dangling access is then visible as \<open>UseAfterFree\<close>.
\<close>

definition deref :: "(nat \<rightharpoonup> 'a) \<Rightarrow> ptr \<Rightarrow> 'a res" where
  "deref h p = (case p of Null \<Rightarrow> Inl NullDeref
     | Ptr a \<Rightarrow> (case h a of None \<Rightarrow> Inl UseAfterFree | Some x \<Rightarrow> Inr x))"

lemma deref_Null [simp, run_simps]: "deref h Null = Inl NullDeref"
  by (simp add: deref_def)

lemma deref_Some [simp, run_simps]: "h a = Some x \<Longrightarrow> deref h (Ptr a) = Inr x"
  by (simp add: deref_def)

lemma deref_None [simp, run_simps]: "h a = None \<Longrightarrow> deref h (Ptr a) = Inl UseAfterFree"
  by (simp add: deref_def)

lemma deref_eq_Inr: "deref h p = Inr x \<longleftrightarrow> (\<exists>a. p = Ptr a \<and> h a = Some x)"
  by (auto simp: deref_def split: ptr.splits option.splits)

subsection \<open>Bytes of a buffer\<close>

text \<open>\<open>memcpy(buf + pos, src, length src)\<close> into an array of known size.\<close>

definition put_bytes :: "bytes \<Rightarrow> nat \<Rightarrow> bytes \<Rightarrow> bytes res" where
  "put_bytes buf pos src =
     (if pos + length src \<le> length buf
      then Inr (take pos buf @ src @ drop (pos + length src) buf) else Inl OutOfBounds)"

lemma put_bytes_length: "put_bytes buf pos src = Inr buf' \<Longrightarrow> length buf' = length buf"
  by (auto simp: put_bytes_def split: if_splits)

lemma put_bytes_ok: "pos + length src \<le> length buf \<Longrightarrow>
    put_bytes buf pos src = Inr (take pos buf @ src @ drop (pos + length src) buf)"
  by (simp add: put_bytes_def)

lemma put_bytes_take:
  "put_bytes buf pos src = Inr buf' \<Longrightarrow> pos \<le> length buf \<Longrightarrow>
   take (pos + length src) buf' = take pos buf @ src"
  by (auto simp: put_bytes_def split: if_splits)

text \<open>Little-endian stores and loads through \<open>*(u16 *)p\<close> and \<open>*(i32 *)p\<close>.\<close>

definition le16 :: "u16 \<Rightarrow> bytes" where
  "le16 w = [ucast w, ucast (drop_bit 8 w)]"

definition le32 :: "u32 \<Rightarrow> bytes" where
  "le32 w = [ucast w, ucast (drop_bit 8 w), ucast (drop_bit 16 w), ucast (drop_bit 24 w)]"

definition rd16 :: "bytes \<Rightarrow> u16 res" where
  "rd16 bs = (case bs of b0 # b1 # _ \<Rightarrow> Inr (ucast b0 OR push_bit 8 (ucast b1))
     | _ \<Rightarrow> Inl OutOfBounds)"

definition rd32 :: "bytes \<Rightarrow> u32 res" where
  "rd32 bs = (case bs of b0 # b1 # b2 # b3 # _ \<Rightarrow>
        Inr (ucast b0 OR push_bit 8 (ucast b1) OR push_bit 16 (ucast b2) OR push_bit 24 (ucast b3))
     | _ \<Rightarrow> Inl OutOfBounds)"

lemma length_le16 [simp]: "length (le16 w) = 2"
  by (simp add: le16_def)

lemma length_le32 [simp]: "length (le32 w) = 4"
  by (simp add: le32_def)

lemma rd16_le16 [simp]: "rd16 (le16 w @ xs) = Inr w"
proof -
  have "ucast (ucast w :: u8) OR push_bit 8 (ucast (ucast (drop_bit 8 w) :: u8)) = w"
    by (rule bit_eqI) (auto simp: bit_simps)
  then show ?thesis by (simp add: rd16_def le16_def)
qed

lemma bit_byte_cases:
  "n < 32 \<Longrightarrow> n < 8 \<or> 8 \<le> n \<and> n < 16 \<or> 16 \<le> n \<and> n < 24 \<or> 24 \<le> n \<and> n < (32::nat)"
  by auto

lemma rd32_le32 [simp]: "rd32 (le32 w @ xs) = Inr w"
proof -
  have "ucast (ucast w :: u8) OR push_bit 8 (ucast (ucast (drop_bit 8 w) :: u8))
      OR push_bit 16 (ucast (ucast (drop_bit 16 w) :: u8))
      OR push_bit 24 (ucast (ucast (drop_bit 24 w) :: u8)) = w" (is "?l = w")
  proof (rule bit_word_eqI)
    fix n :: nat
    assume "n < LENGTH(32)"
    then have "n < 32" by simp
    then show "bit ?l n = bit w n"
      using bit_byte_cases [of n] by (auto simp: bit_simps)
  qed
  then show ?thesis by (simp add: rd32_def le32_def)
qed

lemma rd16_eq_Inr: "2 \<le> length bs \<Longrightarrow> \<exists>w. rd16 bs = Inr w"
  by (cases bs rule: list.exhaust; cases "tl bs") (auto simp: rd16_def)

lemma rd32_eq_Inr: "4 \<le> length bs \<Longrightarrow> \<exists>w. rd32 bs = Inr w"
  by (auto simp: rd32_def numeral_eq_Suc Suc_le_length_iff)

subsection \<open>Counting threads\<close>

text \<open>How many of the indices below \<open>n\<close> satisfy a predicate, and how one update changes it.\<close>

definition count_below :: "nat \<Rightarrow> (nat \<Rightarrow> bool) \<Rightarrow> nat" where
  "count_below n P = card {w. w < n \<and> P w}"

lemma count_below_cong: "(\<And>w. w < n \<Longrightarrow> P w = Q w) \<Longrightarrow> count_below n P = count_below n Q"
  unfolding count_below_def by (metis (mono_tags, lifting))

lemma count_below_le: "count_below n P \<le> n"
proof -
  have "card {w. w < n \<and> P w} \<le> card {..<n}" by (rule card_mono) auto
  then show ?thesis by (simp add: count_below_def)
qed

lemma count_below_insert:
  assumes "w < n" and "\<not> P w"
  shows "count_below n (\<lambda>v. v = w \<or> P v) = Suc (count_below n P)"
proof -
  have "{v. v < n \<and> (v = w \<or> P v)} = insert w {v. v < n \<and> P v}" using assms by auto
  then show ?thesis using assms(2) by (simp add: count_below_def)
qed

lemma count_below_remove:
  assumes "w < n" and "P w"
  shows "Suc (count_below n (\<lambda>v. v \<noteq> w \<and> P v)) = count_below n P"
proof -
  have "count_below n P = count_below n (\<lambda>v. v = w \<or> (v \<noteq> w \<and> P v))"
    using assms(2) by (intro count_below_cong) auto
  then show ?thesis using count_below_insert [OF assms(1), of "\<lambda>v. v \<noteq> w \<and> P v"] by simp
qed

lemma count_below_upd:
  assumes "w < n"
  shows "int (count_below n (\<lambda>v. P ((f(w := x)) v))) =
    int (count_below n (\<lambda>v. P (f v))) + (if P x then 1 else 0) - (if P (f w) then 1 else 0)"
proof -
  let ?r = "count_below n (\<lambda>v. v \<noteq> w \<and> P (f v))"
  have 1: "count_below n (\<lambda>v. P ((f(w := x)) v)) = (if P x then Suc ?r else ?r)"
  proof (cases "P x")
    case True
    then have "count_below n (\<lambda>v. P ((f(w := x)) v)) = count_below n (\<lambda>v. v = w \<or> (v \<noteq> w \<and> P (f v)))"
      by (intro count_below_cong) auto
    with True show ?thesis using count_below_insert [OF assms, of "\<lambda>v. v \<noteq> w \<and> P (f v)"] by simp
  next
    case False
    then show ?thesis by (simp, intro count_below_cong) auto
  qed
  have 2: "count_below n (\<lambda>v. P (f v)) = (if P (f w) then Suc ?r else ?r)"
  proof (cases "P (f w)")
    case True
    then show ?thesis using count_below_remove [OF assms, of "\<lambda>v. P (f v)"] by simp
  next
    case False
    then show ?thesis by (simp, intro count_below_cong) auto
  qed
  show ?thesis by (simp only: 1 2) simp
qed

lemma count_below_all: "count_below n P = n \<Longrightarrow> w < n \<Longrightarrow> P w"
proof (rule ccontr)
  assume "count_below n P = n" "w < n" "\<not> P w"
  then have "Suc (count_below n P) \<le> n"
    using count_below_insert [of w n P] count_below_le [of n "\<lambda>v. v = w \<or> P v"] by simp
  with \<open>count_below n P = n\<close> show False by simp
qed

subsection \<open>C strings\<close>

text \<open>
  \<open>strncmp(s, t, n) == 0\<close> on two arrays: the comparison stops at a difference, at a common
  terminating zero or after \<open>n\<close> characters. Running past an array's end is a fault.
\<close>

fun strncmp_eq :: "nat \<Rightarrow> bytes \<Rightarrow> bytes \<Rightarrow> bool res" where
  "strncmp_eq 0 s t = Inr True"
| "strncmp_eq (Suc n) (a # s) (b # t) =
     (if a \<noteq> b then Inr False else if a = 0 then Inr True else strncmp_eq n s t)"
| "strncmp_eq (Suc n) s t = Inl OutOfBounds"

definition byte_of :: "char \<Rightarrow> byte" where
  "byte_of c = word_of_nat (of_char c)"

definition char_of_byte :: "byte \<Rightarrow> char" where
  "char_of_byte b = char_of (unat b)"

lemma char_byte_inverse [simp]: "char_of_byte (byte_of c) = c"
  by (simp add: char_of_byte_def byte_of_def unat_of_nat)

lemma byte_of_inject [simp]: "byte_of c = byte_of d \<longleftrightarrow> c = d"
  by (metis char_byte_inverse)

definition bytes_of :: "string \<Rightarrow> bytes" where
  "bytes_of s = map byte_of s"

definition string_of_bytes :: "bytes \<Rightarrow> string" where
  "string_of_bytes bs = map char_of_byte bs"

lemma string_of_bytes_inverse [simp]: "string_of_bytes (bytes_of s) = s"
  by (induction s) (simp_all add: string_of_bytes_def bytes_of_def)

lemma length_bytes_of [simp]: "length (bytes_of s) = length s"
  by (simp add: bytes_of_def)

text \<open>\<open>std::string::c_str()\<close> handed to a C function: the characters up to the first zero.\<close>

definition c_str :: "string \<Rightarrow> string" where
  "c_str s = takeWhile (\<lambda>c. c \<noteq> CHR 0x00) s"

lemma c_str_length: "length (c_str s) \<le> length s"
  by (simp add: c_str_def length_takeWhile_le)

lemma c_str_id: "CHR 0x00 \<notin> set s \<Longrightarrow> c_str s = s"
  by (induction s) (auto simp: c_str_def)

subsection \<open>Decimal output\<close>

fun digits_of :: "nat \<Rightarrow> string" where
  "digits_of n = (if n < 10 then [char_of (48 + n)]
     else digits_of (n div 10) @ [char_of (48 + n mod 10)])"

declare digits_of.simps [simp del]

definition show_u32 :: "u32 \<Rightarrow> string" where
  "show_u32 w = digits_of (unat w)"

definition show_i32 :: "i32 \<Rightarrow> string" where
  "show_i32 w = (if sint w < 0 then CHR ''-'' # digits_of (nat (- sint w))
     else digits_of (nat (sint w)))"

end
