(* ===== verification/EventTypes.thy ===== *)
theory EventTypes
  imports Prelude
begin

text \<open>
  \<^verbatim>\<open>src/src/eventtype.h\<close> and \<^verbatim>\<open>eventtype.cc\<close>: the event identifiers, the error codes of
  the responses and the table that gives each error code its text. The constants of
  \<^verbatim>\<open>globals.h\<close> that bound messages are here too.
\<close>

subsection \<open>Constants and event identifiers\<close>

definition MAX_MSG_LEN :: u32 where
  "MAX_MSG_LEN = 367280"

datatype EventID =
    EEVENTID_GET_MOBILE_CODE_REQ | EEVENTID_GET_MOBILE_CODE_RSP
  | EEVENTID_LOGIN_REQ | EEVENTID_LOGIN_RSP
  | EEVENTID_RECHARGE_REQ | EEVENTID_RECHARGE_RSP
  | EEVENTID_ACCOUNT_BALANCE_REQ | EEVENTID_ACCOUNT_BALANCE_RSP
  | EEVENTID_LIST_ACCOUNT_RECORDS_REQ | EEVENTID_LIST_ACCOUNT_RECORDS_RSP
  | EEVENTID_LIST_TRAVELS_REQ | EEVENTID_LIST_TRAVELS_RSP
  | EEVENTID_EXIT_RSP | EEVENTID_UNKNOWN

text \<open>The enumerators' values; the code compares and stores events by these numbers.\<close>

fun eventid :: "EventID \<Rightarrow> u32" where
  "eventid EEVENTID_GET_MOBILE_CODE_REQ = 0x01"
| "eventid EEVENTID_GET_MOBILE_CODE_RSP = 0x02"
| "eventid EEVENTID_LOGIN_REQ = 0x03"
| "eventid EEVENTID_LOGIN_RSP = 0x04"
| "eventid EEVENTID_RECHARGE_REQ = 0x05"
| "eventid EEVENTID_RECHARGE_RSP = 0x06"
| "eventid EEVENTID_ACCOUNT_BALANCE_REQ = 0x07"
| "eventid EEVENTID_ACCOUNT_BALANCE_RSP = 0x08"
| "eventid EEVENTID_LIST_ACCOUNT_RECORDS_REQ = 0x09"
| "eventid EEVENTID_LIST_ACCOUNT_RECORDS_RSP = 0x10"
| "eventid EEVENTID_LIST_TRAVELS_REQ = 0x11"
| "eventid EEVENTID_LIST_TRAVELS_RSP = 0x12"
| "eventid EEVENTID_EXIT_RSP = 0xFE"
| "eventid EEVENTID_UNKNOWN = 0xFF"

lemma eventid_inject [simp]: "eventid a = eventid b \<longleftrightarrow> a = b"
  by (cases a; cases b; simp)

text \<open>Every identifier fits the 16 bits the message header gives it.\<close>

lemma eventid_u16 [simp]: "ucast (ucast (eventid e) :: u16) = eventid e"
  by (cases e) simp_all

text \<open>Identifiers are ordered as their numbers are.\<close>

instantiation EventID :: linorder
begin

definition less_eq_EventID :: "EventID \<Rightarrow> EventID \<Rightarrow> bool" where
  "less_eq_EventID a b \<longleftrightarrow> eventid a \<le> eventid b"

definition less_EventID :: "EventID \<Rightarrow> EventID \<Rightarrow> bool" where
  "less_EventID a b \<longleftrightarrow> eventid a < eventid b"

instance
  by standard
    (auto simp: less_eq_EventID_def less_EventID_def dest: order_antisym)

end

subsection \<open>Error codes and their reasons\<close>

datatype EErrorCode =
    ERRC_SUCCESS | ERRC_INVALID_MSG | ERRC_INVALID_DATA | ERRC_METHOD_NOT_ALLOWED
  | ERRC_PROCESS_FAILED | ERRC_BIKE_IS_TAKEN | ERRC_BIKE_IS_RUNNING | ERRC_BIKE_IS_DAMAGED
  | ERR_NULL

fun errcode :: "EErrorCode \<Rightarrow> i32" where
  "errcode ERRC_SUCCESS = 200"
| "errcode ERRC_INVALID_MSG = 400"
| "errcode ERRC_INVALID_DATA = 404"
| "errcode ERRC_METHOD_NOT_ALLOWED = 405"
| "errcode ERRC_PROCESS_FAILED = 406"
| "errcode ERRC_BIKE_IS_TAKEN = 407"
| "errcode ERRC_BIKE_IS_RUNNING = 408"
| "errcode ERRC_BIKE_IS_DAMAGED = 409"
| "errcode ERR_NULL = 0"

lemma errcode_inject [simp]: "errcode a = errcode b \<longleftrightarrow> a = b"
  by (cases a; cases b; simp)

record EErrorReason =
  code :: i32
  reason :: string

definition EER :: "EErrorReason list" where
  "EER =
   [\<lparr>code = errcode ERRC_SUCCESS, reason = ''T_OK.''\<rparr>,
    \<lparr>code = errcode ERRC_INVALID_MSG, reason = ''Invalid message.''\<rparr>,
    \<lparr>code = errcode ERRC_INVALID_DATA, reason = ''Invalid data.''\<rparr>,
    \<lparr>code = errcode ERRC_METHOD_NOT_ALLOWED, reason = ''Method not allowed.''\<rparr>,
    \<lparr>code = errcode ERRC_PROCESS_FAILED, reason = ''Process failed.''\<rparr>,
    \<lparr>code = errcode ERRC_BIKE_IS_TAKEN, reason = ''Bike is taken.''\<rparr>,
    \<lparr>code = errcode ERRC_BIKE_IS_RUNNING, reason = ''Bike is running.''\<rparr>,
    \<lparr>code = errcode ERRC_BIKE_IS_DAMAGED, reason = ''Bike is damaged.''\<rparr>,
    \<lparr>code = errcode ERR_NULL, reason = ''Undefined.''\<rparr>]"

text \<open>
  The search loop over a table: it stops at the \<open>ERR_NULL\<close> entry, whose reason it returns; a
  table without one is read past its end.
\<close>

fun reason_loop :: "EErrorReason list \<Rightarrow> i32 \<Rightarrow> string res" where
  "reason_loop [] c = Inl OutOfBounds"
| "reason_loop (e # es) c =
     (if code e = errcode ERR_NULL then Inr (reason e)
      else if code e = c then Inr (reason e)
      else reason_loop es c)"

definition getReasonByErrorCode :: "i32 \<Rightarrow> string res" where
  "getReasonByErrorCode c = reason_loop EER c"

text \<open>A table with a terminator is searched as a map with a default.\<close>

lemma reason_loop_terminated:
  assumes "\<forall>e \<in> set es. code e \<noteq> errcode ERR_NULL" and "code t = errcode ERR_NULL"
  shows "reason_loop (es @ [t]) c =
    Inr (case map_of (map (\<lambda>e. (code e, reason e)) es) c of None \<Rightarrow> reason t | Some r \<Rightarrow> r)"
  using assms by (induction es) auto

definition reason_of :: "i32 \<Rightarrow> string" where
  "reason_of c = (case map_of (map (\<lambda>e. (code e, reason e)) (butlast EER)) c of
     None \<Rightarrow> ''Undefined.'' | Some r \<Rightarrow> r)"

lemma getReasonByErrorCode_eq [simp]: "getReasonByErrorCode c = Inr (reason_of c)"
proof -
  have "EER = butlast EER @ [\<lparr>code = errcode ERR_NULL, reason = ''Undefined.''\<rparr>]"
    by (simp add: EER_def)
  moreover have "\<forall>e \<in> set (butlast EER). code e \<noteq> errcode ERR_NULL"
    by (simp add: EER_def)
  ultimately show ?thesis
    using reason_loop_terminated [of "butlast EER" "\<lparr>code = errcode ERR_NULL, reason = ''Undefined.''\<rparr>" c]
    by (simp add: getReasonByErrorCode_def reason_of_def split: option.split)
qed

lemma reason_of_codes:
  "reason_of (errcode ERRC_SUCCESS) = ''T_OK.''"
  "reason_of (errcode ERRC_INVALID_DATA) = ''Invalid data.''"
  "reason_of (errcode ERRC_PROCESS_FAILED) = ''Process failed.''"
  by (simp_all add: reason_of_def EER_def)

lemma reason_of_unlisted:
  "\<forall>k. c \<noteq> errcode k \<Longrightarrow> reason_of c = ''Undefined.''"
  by (auto simp: reason_of_def EER_def split: option.splits dest!: map_of_SomeD)
    (metis errcode.simps)+

end
