(* ===== verification/Events.thy ===== *)
theory Events
  imports EventTypes
begin

text \<open>
  \<^verbatim>\<open>src/src/ievent.h\<close>, \<^verbatim>\<open>ievent.cc\<close>, \<^verbatim>\<open>events_def.h\<close>, \<^verbatim>\<open>events_def.cc\<close> and the messages of
  \<^verbatim>\<open>src/src/protocol/bike.proto\<close> that they carry. The protobuf code itself is generated by the
  build: it is the parameter \<open>protobuf\<close>, a record of the functions the program calls.
\<close>

subsection \<open>Messages\<close>

record mobile_request =
  rq_mobile :: string

record mobile_response =
  rs_code :: i32
  rs_icode :: i32
  rs_data :: "string option"

record login_request =
  lq_mobile :: string
  lq_icode :: i32

record login_response =
  ls_code :: i32
  ls_desc :: "string option"

text \<open>
  \<open>ParseFromArray\<close> gives a success flag and the message as far as it was filled in (unset
  fields read as their defaults); \<open>SerializeToArray\<close> writes the bytes of the message, whose
  number is \<open>ByteSize\<close>.
\<close>

record protobuf =
  parse_mobile_request :: "bytes \<Rightarrow> bool \<times> mobile_request"
  serialize_mobile_request :: "mobile_request \<Rightarrow> bytes"
  parse_mobile_response :: "bytes \<Rightarrow> bool \<times> mobile_response"
  serialize_mobile_response :: "mobile_response \<Rightarrow> bytes"
  parse_login_request :: "bytes \<Rightarrow> bool \<times> login_request"
  serialize_login_request :: "login_request \<Rightarrow> bytes"
  parse_login_response :: "bytes \<Rightarrow> bool \<times> login_response"
  serialize_login_response :: "login_response \<Rightarrow> bytes"

text \<open>The documented behaviour the program relies on: parsing inverts serialising.\<close>

definition protobuf_roundtrip :: "protobuf \<Rightarrow> bool" where
  "protobuf_roundtrip pb \<longleftrightarrow>
     (\<forall>m. parse_mobile_request pb (serialize_mobile_request pb m) = (True, m)) \<and>
     (\<forall>m. parse_mobile_response pb (serialize_mobile_response pb m) = (True, m)) \<and>
     (\<forall>m. parse_login_request pb (serialize_login_request pb m) = (True, m)) \<and>
     (\<forall>m. parse_login_response pb (serialize_login_response pb m) = (True, m))"

lemma protobuf_roundtripD:
  assumes "protobuf_roundtrip pb"
  shows "parse_mobile_request pb (serialize_mobile_request pb m1) = (True, m1)"
    and "parse_mobile_response pb (serialize_mobile_response pb m2) = (True, m2)"
    and "parse_login_request pb (serialize_login_request pb m3) = (True, m3)"
    and "parse_login_response pb (serialize_login_response pb m4) = (True, m4)"
  using assms by (simp_all add: protobuf_roundtrip_def)

text \<open>
  A flat encoding for which the hypothesis holds; it is used only where a statement about an
  arbitrary \<open>protobuf\<close> is applied to a concrete one.
\<close>

definition flat_opt :: "string option \<Rightarrow> bytes" where
  "flat_opt s = (case s of None \<Rightarrow> [] | Some t \<Rightarrow> 1 # bytes_of t)"

definition unflat_opt :: "bytes \<Rightarrow> string option" where
  "unflat_opt bs = (case bs of [] \<Rightarrow> None | _ # r \<Rightarrow> Some (string_of_bytes r))"

definition rd32_or_0 :: "bytes \<Rightarrow> u32" where
  "rd32_or_0 bs = (case rd32 bs of Inl _ \<Rightarrow> 0 | Inr w \<Rightarrow> w)"

definition flat_pb :: protobuf where
  "flat_pb = \<lparr>
     parse_mobile_request = (\<lambda>bs. (True, \<lparr>rq_mobile = string_of_bytes bs\<rparr>)),
     serialize_mobile_request = (\<lambda>m. bytes_of (rq_mobile m)),
     parse_mobile_response = (\<lambda>bs. (8 \<le> length bs, \<lparr>rs_code = rd32_or_0 bs,
        rs_icode = rd32_or_0 (drop 4 bs), rs_data = unflat_opt (drop 8 bs)\<rparr>)),
     serialize_mobile_response =
       (\<lambda>m. le32 (rs_code m) @ le32 (rs_icode m) @ flat_opt (rs_data m)),
     parse_login_request = (\<lambda>bs. (4 \<le> length bs,
        \<lparr>lq_mobile = string_of_bytes (drop 4 bs), lq_icode = rd32_or_0 bs\<rparr>)),
     serialize_login_request = (\<lambda>m. le32 (lq_icode m) @ bytes_of (lq_mobile m)),
     parse_login_response = (\<lambda>bs. (4 \<le> length bs,
        \<lparr>ls_code = rd32_or_0 bs, ls_desc = unflat_opt (drop 4 bs)\<rparr>)),
     serialize_login_response = (\<lambda>m. le32 (ls_code m) @ flat_opt (ls_desc m))\<rparr>"

lemma unflat_flat [simp]: "unflat_opt (flat_opt s) = s"
  by (auto simp: unflat_opt_def flat_opt_def split: option.split)

lemma flat_pb_roundtrip: "protobuf_roundtrip flat_pb"
  by (simp add: protobuf_roundtrip_def flat_pb_def rd32_or_0_def)

subsection \<open>Event objects\<close>

text \<open>
  The class hierarchy under \<open>iEvent\<close>: the dynamic class of an object with the message it
  carries. \<open>ev_args\<close> is \<open>None\<close> until \<open>set_args\<close>: no constructor initialises it.
\<close>

datatype ev_msg =
    MobileCodeReqMsg mobile_request
  | MobileCodeRspMsg mobile_response
  | ExitRspMsg
  | LoginReqMsg login_request
  | LoginRspMsg login_response

record iEvent =
  ev_eid :: u32
  ev_sn :: u32
  ev_args :: "ptr option"
  ev_msg :: ev_msg

text \<open>The constructor \<open>iEvent(eid, sn)\<close> with the derived class's message.\<close>

definition mk_iEvent :: "u32 \<Rightarrow> u32 \<Rightarrow> ev_msg \<Rightarrow> iEvent" where
  "mk_iEvent eid sn m = \<lparr>ev_eid = eid, ev_sn = sn, ev_args = None, ev_msg = m\<rparr>"

text \<open>\<open>static u32 sn; return sn++\<close>: the value handed out and the counter afterwards.\<close>

definition generateSegNo :: "u32 \<Rightarrow> u32 \<times> u32" where
  "generateSegNo sn = (sn, sn + 1)"

definition get_args :: "iEvent \<Rightarrow> ptr res" where
  "get_args ev = (case ev_args ev of None \<Rightarrow> Inl Uninitialised | Some p \<Rightarrow> Inr p)"

definition set_args :: "ptr \<Rightarrow> iEvent \<Rightarrow> iEvent" where
  "set_args p ev = ev\<lparr>ev_args := Some p\<rparr>"

definition MobileCodeReqEv :: "string \<Rightarrow> u32 \<Rightarrow> iEvent \<times> u32" where
  "MobileCodeReqEv mobile c = (let (sn, c') = generateSegNo c in
     (mk_iEvent (eventid EEVENTID_GET_MOBILE_CODE_REQ) sn
        (MobileCodeReqMsg \<lparr>rq_mobile = mobile\<rparr>), c'))"

definition MobileCodeRspEv :: "i32 \<Rightarrow> i32 \<Rightarrow> u32 \<Rightarrow> (iEvent \<times> u32) res" where
  "MobileCodeRspEv cd icode c = (let (sn, c') = generateSegNo c in
     bindR (getReasonByErrorCode cd) (\<lambda>r.
       Inr (mk_iEvent (eventid EEVENTID_GET_MOBILE_CODE_RSP) sn
         (MobileCodeRspMsg \<lparr>rs_code = cd, rs_icode = icode, rs_data = Some r\<rparr>), c')))"

definition ExitRspEv :: "u32 \<Rightarrow> iEvent \<times> u32" where
  "ExitRspEv c = (let (sn, c') = generateSegNo c in
     (mk_iEvent (eventid EEVENTID_EXIT_RSP) sn ExitRspMsg, c'))"

definition LoginReqEv :: "string \<Rightarrow> i32 \<Rightarrow> u32 \<Rightarrow> iEvent \<times> u32" where
  "LoginReqEv mobile icode c = (let (sn, c') = generateSegNo c in
     (mk_iEvent (eventid EEVENTID_LOGIN_REQ) sn
        (LoginReqMsg \<lparr>lq_mobile = mobile, lq_icode = icode\<rparr>), c'))"

definition LoginRspEv :: "i32 \<Rightarrow> u32 \<Rightarrow> (iEvent \<times> u32) res" where
  "LoginRspEv cd c = (let (sn, c') = generateSegNo c in
     bindR (getReasonByErrorCode cd) (\<lambda>r.
       Inr (mk_iEvent (eventid EEVENTID_LOGIN_RSP) sn
         (LoginRspMsg \<lparr>ls_code = cd, ls_desc = Some r\<rparr>), c')))"

text \<open>The virtual \<open>ByteSize\<close> and \<open>SerializeToArray\<close>; the base class writes nothing.\<close>

definition ev_bytes :: "protobuf \<Rightarrow> iEvent \<Rightarrow> bytes" where
  "ev_bytes pb ev = (case ev_msg ev of
      MobileCodeReqMsg m \<Rightarrow> serialize_mobile_request pb m
    | MobileCodeRspMsg m \<Rightarrow> serialize_mobile_response pb m
    | ExitRspMsg \<Rightarrow> []
    | LoginReqMsg m \<Rightarrow> serialize_login_request pb m
    | LoginRspMsg m \<Rightarrow> serialize_login_response pb m)"

definition ByteSize :: "protobuf \<Rightarrow> iEvent \<Rightarrow> i32" where
  "ByteSize pb ev = word_of_nat (length (ev_bytes pb ev))"

text \<open>The flag, and the bytes written at \<open>buf\<close>: none when \<open>len\<close> is too small.\<close>

definition SerializeToArray :: "protobuf \<Rightarrow> iEvent \<Rightarrow> int \<Rightarrow> bool \<times> bytes" where
  "SerializeToArray pb ev len =
     (if int (length (ev_bytes pb ev)) \<le> len then (True, ev_bytes pb ev)
      else if ev_msg ev = ExitRspMsg then (True, []) else (False, []))"

subsection \<open>Accessors of the derived classes\<close>

text \<open>
  The handlers cast \<open>iEvent *\<close> to the class they expect; calling an accessor on an object of
  another class is undefined.
\<close>

definition as_MobileCodeReqEv :: "iEvent \<Rightarrow> mobile_request res" where
  "as_MobileCodeReqEv ev = (case ev_msg ev of MobileCodeReqMsg m \<Rightarrow> Inr m | _ \<Rightarrow> Inl BadCast)"

definition as_LoginReqEv :: "iEvent \<Rightarrow> login_request res" where
  "as_LoginReqEv ev = (case ev_msg ev of LoginReqMsg m \<Rightarrow> Inr m | _ \<Rightarrow> Inl BadCast)"

definition opt_text :: "string option \<Rightarrow> string" where
  "opt_text s = (case s of None \<Rightarrow> [] | Some t \<Rightarrow> t)"

definition endl :: string where
  "endl = [CHR 0x0A]"

text \<open>The virtual \<open>dump\<close>: what is appended to the stream.\<close>

fun dump_msg :: "u32 \<Rightarrow> ev_msg \<Rightarrow> string" where
  "dump_msg sn (MobileCodeReqMsg m) =
     ''MobileCodeReq sn = '' @ show_u32 sn @ '', '' @ ''mobile = '' @ rq_mobile m @ endl"
| "dump_msg sn (MobileCodeRspMsg m) =
     ''MobileCodeReq sn = '' @ show_u32 sn @ '', '' @ ''code = '' @ show_i32 (rs_code m) @ '', ''
     @ ''icode = '' @ show_i32 (rs_icode m) @ '', '' @ ''data = '' @ opt_text (rs_data m) @ endl"
| "dump_msg sn (LoginReqMsg m) =
     ''mobile = '' @ lq_mobile m @ '', '' @ ''icode = '' @ show_i32 (lq_icode m) @ endl"
| "dump_msg sn (LoginRspMsg m) =
     ''code = '' @ show_i32 (ls_code m) @ '', ''
     @ ''possible failed reason = '' @ opt_text (ls_desc m) @ endl"
| "dump_msg sn ExitRspMsg = []"

definition dump :: "iEvent \<Rightarrow> string" where
  "dump ev = dump_msg (ev_sn ev) (ev_msg ev)"

subsection \<open>What the constructors guarantee\<close>

text \<open>The identifier of an event names its class; the casts of the handlers rest on this.\<close>

fun msg_id :: "ev_msg \<Rightarrow> EventID" where
  "msg_id (MobileCodeReqMsg _) = EEVENTID_GET_MOBILE_CODE_REQ"
| "msg_id (MobileCodeRspMsg _) = EEVENTID_GET_MOBILE_CODE_RSP"
| "msg_id ExitRspMsg = EEVENTID_EXIT_RSP"
| "msg_id (LoginReqMsg _) = EEVENTID_LOGIN_REQ"
| "msg_id (LoginRspMsg _) = EEVENTID_LOGIN_RSP"

definition ev_wf :: "iEvent \<Rightarrow> bool" where
  "ev_wf ev \<longleftrightarrow> ev_eid ev = eventid (msg_id (ev_msg ev))"

lemmas event_ctor_defs = MobileCodeReqEv_def MobileCodeRspEv_def ExitRspEv_def LoginReqEv_def
  LoginRspEv_def mk_iEvent_def generateSegNo_def

lemma ev_wf_ctors [simp]:
  "ev_wf (fst (MobileCodeReqEv m c))" "ev_wf (fst (LoginReqEv m i c))" "ev_wf (fst (ExitRspEv c))"
  "MobileCodeRspEv cd icode c = Inr (ev, c') \<Longrightarrow> ev_wf ev"
  "LoginRspEv cd c = Inr (ev, c') \<Longrightarrow> ev_wf ev"
  by (auto simp: event_ctor_defs ev_wf_def)

lemma ev_wf_set_args [simp]: "ev_wf (set_args p ev) = ev_wf ev"
  by (simp add: ev_wf_def set_args_def)

lemma set_args_simps [simp]:
  "ev_eid (set_args p ev) = ev_eid ev" "ev_sn (set_args p ev) = ev_sn ev"
  "ev_msg (set_args p ev) = ev_msg ev" "ev_args (set_args p ev) = Some p"
  by (simp_all add: set_args_def)

lemma get_args_set_args [simp]: "get_args (set_args p ev) = Inr p"
  by (simp add: get_args_def)

lemma ev_wf_msg:
  assumes "ev_wf ev"
  shows "ev_eid ev = eventid EEVENTID_GET_MOBILE_CODE_REQ \<longleftrightarrow> (\<exists>m. ev_msg ev = MobileCodeReqMsg m)"
    and "ev_eid ev = eventid EEVENTID_LOGIN_REQ \<longleftrightarrow> (\<exists>m. ev_msg ev = LoginReqMsg m)"
    and "ev_eid ev = eventid EEVENTID_GET_MOBILE_CODE_RSP \<longleftrightarrow> (\<exists>m. ev_msg ev = MobileCodeRspMsg m)"
    and "ev_eid ev = eventid EEVENTID_LOGIN_RSP \<longleftrightarrow> (\<exists>m. ev_msg ev = LoginRspMsg m)"
    and "ev_eid ev = eventid EEVENTID_EXIT_RSP \<longleftrightarrow> ev_msg ev = ExitRspMsg"
  using assms by (cases "ev_msg ev"; simp add: ev_wf_def)+

lemma SerializeToArray_ByteSize:
  "SerializeToArray pb ev (int (length (ev_bytes pb ev))) = (True, ev_bytes pb ev)"
  by (simp add: SerializeToArray_def)

lemma MobileCodeRspEv_eq:
  "MobileCodeRspEv cd icode c = Inr (mk_iEvent (eventid EEVENTID_GET_MOBILE_CODE_RSP) c
     (MobileCodeRspMsg \<lparr>rs_code = cd, rs_icode = icode, rs_data = Some (reason_of cd)\<rparr>), c + 1)"
  by (simp add: MobileCodeRspEv_def generateSegNo_def)

lemma LoginRspEv_eq:
  "LoginRspEv cd c = Inr (mk_iEvent (eventid EEVENTID_LOGIN_RSP) c
     (LoginRspMsg \<lparr>ls_code = cd, ls_desc = Some (reason_of cd)\<rparr>), c + 1)"
  by (simp add: LoginRspEv_def generateSegNo_def)

text \<open>Serial numbers repeat only after \<open>2 ^ 32\<close> events.\<close>

fun seg_nos :: "nat \<Rightarrow> u32 \<Rightarrow> u32 list" where
  "seg_nos 0 c = []"
| "seg_nos (Suc n) c = (let (sn, c') = generateSegNo c in sn # seg_nos n c')"

lemma seg_nos_nth: "k < n \<Longrightarrow> seg_nos n c ! k = c + word_of_nat k"
proof (induction n arbitrary: c k)
  case (Suc n)
  then show ?case by (cases k) (simp_all add: generateSegNo_def)
qed simp

lemma seg_nos_length [simp]: "length (seg_nos n c) = n"
  by (induction n arbitrary: c) (simp_all add: generateSegNo_def)

lemma seg_nos_distinct: "n \<le> 2 ^ 32 \<Longrightarrow> distinct (seg_nos n c)"
proof (unfold distinct_conv_nth, intro allI impI)
  fix i j
  assume n: "n \<le> 2 ^ 32" and ij: "i < length (seg_nos n c)" "j < length (seg_nos n c)" "i \<noteq> j"
  then have "i < 2 ^ 32" "j < 2 ^ 32" by auto
  then have "(word_of_nat i :: u32) \<noteq> word_of_nat j"
    using ij(3) by (simp add: word_of_nat_eq_iff take_bit_nat_eq_self)
  then show "seg_nos n c ! i \<noteq> seg_nos n c ! j"
    using ij by (simp add: seg_nos_nth)
qed

end
