(* ===== verification/Config.thy ===== *)
theory Config
  imports Prelude
begin

text \<open>
  \<^verbatim>\<open>src/src/util/configdef.h\<close> and \<^verbatim>\<open>src/src/util/iniconfig.cc\<close>: the server's configuration,
  read once from an ini file. The iniparser library is linked as a binary; the functions the
  program calls are the parameter \<open>iniparser\<close>.
\<close>

record st_env_config =
  db_ip :: string
  db_port :: u32
  db_user :: string
  db_pwd :: string
  db_name :: string
  svr_port :: u16

text \<open>The assignment operator copies every field, unless source and target are one object.\<close>

definition config_assign :: "bool \<Rightarrow> st_env_config \<Rightarrow> st_env_config \<Rightarrow> st_env_config" where
  "config_assign same_object this config =
     (if \<not> same_object then
        this\<lparr>db_ip := db_ip config, db_port := db_port config, db_user := db_user config,
          db_pwd := db_pwd config, db_name := db_name config, svr_port := svr_port config\<rparr>
      else this)"

lemma config_assign_copies: "config_assign False this config = config"
  by (simp add: config_assign_def)

text \<open>
  \<open>ini_load\<close> parses the file of a path, \<open>ini_getstring\<close> and \<open>ini_getint\<close> look a key
  \<open>section:name\<close> up, with the value to give when there is none.
\<close>

record 'd iniparser =
  ini_load :: "string \<Rightarrow> 'd option"
  ini_has :: "'d \<Rightarrow> string \<Rightarrow> bool"
  ini_getstring :: "'d \<Rightarrow> string \<Rightarrow> string \<Rightarrow> string"
  ini_getint :: "'d \<Rightarrow> string \<Rightarrow> i32 \<Rightarrow> i32"

text \<open>Documented: a key that the file does not have yields the default.\<close>

definition iniparser_defaults :: "'d iniparser \<Rightarrow> bool" where
  "iniparser_defaults ip \<longleftrightarrow>
     (\<forall>d k v. \<not> ini_has ip d k \<longrightarrow> ini_getstring ip d k v = v) \<and>
     (\<forall>d k v. \<not> ini_has ip d k \<longrightarrow> ini_getint ip d k v = v)"

text \<open>
  The singleton: the configuration (\<open>None\<close> while the members are as the default constructor
  left them, the two ports indeterminate) and the load flag.
\<close>

record Iniconfig =
  ini_config :: "st_env_config option"
  is_loaded :: bool

definition Iniconfig_new :: Iniconfig where
  "Iniconfig_new = \<lparr>ini_config = None, is_loaded = False\<rparr>"

definition Iniconfig_getInstance :: "Iniconfig option \<Rightarrow> Iniconfig" where
  "Iniconfig_getInstance inst = (case inst of None \<Rightarrow> Iniconfig_new | Some c \<Rightarrow> c)"

definition loadfile :: "'d iniparser \<Rightarrow> string \<Rightarrow> Iniconfig \<Rightarrow> bool \<times> Iniconfig" where
  "loadfile ip path c = (case ini_load ip (c_str path) of
      None \<Rightarrow> (False, c)
    | Some ini \<Rightarrow>
       (let host = ini_getstring ip ini ''database:ip'' ''127.0.0.1'';
            port = ini_getint ip ini ''databse:port'' 3306;
            user = ini_getstring ip ini ''database:user'' ''root'';
            pwd = ini_getstring ip ini ''database:pwd'' ''123456'';
            name = ini_getstring ip ini ''database:db'' ''shared_bike'';
            sport = ini_getint ip ini ''server:port'' 9090
        in (True, c\<lparr>ini_config := Some \<lparr>db_ip = host, db_port = port, db_user = user,
                db_pwd = pwd, db_name = name, svr_port = ucast sport\<rparr>,
              is_loaded := True\<rparr>)))"

text \<open>\<open>getconfig\<close> hands the members out; before a load the ports are indeterminate.\<close>

definition getconfig :: "Iniconfig \<Rightarrow> st_env_config res" where
  "getconfig c = (case ini_config c of None \<Rightarrow> Inl Uninitialised | Some cfg \<Rightarrow> Inr cfg)"

subsection \<open>Properties of loading\<close>

lemma loadfile_success:
  "fst (loadfile ip path c) \<longleftrightarrow> ini_load ip (c_str path) \<noteq> None"
  by (auto simp: loadfile_def Let_def split: option.split)

lemma loadfile_failure_keeps: "\<not> fst (loadfile ip path c) \<Longrightarrow> snd (loadfile ip path c) = c"
  by (auto simp: loadfile_def Let_def split: option.splits)

lemma getconfig_loadfile:
  "ini_load ip (c_str path) = Some d \<Longrightarrow>
   getconfig (snd (loadfile ip path c)) = Inr \<lparr>db_ip = ini_getstring ip d ''database:ip'' ''127.0.0.1'',
     db_port = ini_getint ip d ''databse:port'' 3306,
     db_user = ini_getstring ip d ''database:user'' ''root'',
     db_pwd = ini_getstring ip d ''database:pwd'' ''123456'',
     db_name = ini_getstring ip d ''database:db'' ''shared_bike'',
     svr_port = ucast (ini_getint ip d ''server:port'' 9090)\<rparr>"
  by (simp add: loadfile_def getconfig_def Let_def)

text \<open>
  An instance of \<open>iniparser\<close> on an association list of keys and numbers, where the default law
  holds; used to apply statements about an arbitrary \<open>iniparser\<close>.
\<close>

definition alist_ini :: "(string \<times> i32) list \<Rightarrow> ((string \<times> i32) list) iniparser" where
  "alist_ini kvs = \<lparr>ini_load = (\<lambda>_. Some kvs),
     ini_has = (\<lambda>d k. map_of d k \<noteq> None),
     ini_getstring = (\<lambda>d k v. case map_of d k of None \<Rightarrow> v | Some n \<Rightarrow> show_i32 n),
     ini_getint = (\<lambda>d k v. case map_of d k of None \<Rightarrow> v | Some n \<Rightarrow> n)\<rparr>"

lemma alist_ini_defaults: "iniparser_defaults (alist_ini kvs)"
  by (simp add: iniparser_defaults_def alist_ini_def)

text \<open>
  The database port in force after a successful load does not depend on the key
  \<open>database:port\<close> of the file: unless the file has the misspelt key \<open>databse:port\<close>, the
  port is 3306 whatever the configuration says.
\<close>

theorem db_port_ignores_config:
  assumes "iniparser_defaults ip" and "ini_load ip (c_str path) = Some d"
    and "\<not> ini_has ip d ''databse:port''"
  shows "\<exists>cfg. getconfig (snd (loadfile ip path c)) = Inr cfg \<and> db_port cfg = 3306"
  using assms getconfig_loadfile [OF assms(2), of c] by (simp add: iniparser_defaults_def)

theorem db_port_ignores_config_witness:
  "\<exists>cfg. getconfig (snd (loadfile (alist_ini [(''database:port'', 3307)]) ''shbk.ini'' Iniconfig_new))
     = Inr cfg \<and> db_port cfg = 3306"
  by (rule db_port_ignores_config [where d = "[(''database:port'', 3307)]"])
    (simp_all add: alist_ini_defaults, simp_all add: alist_ini_def)

end
