(* ===== verification/Database.thy ===== *)
theory Database
  imports Prelude Config
begin

text \<open>
  \<^verbatim>\<open>src/src/database\<close>: the connection wrapper over the MySQL C client, the result set, the
  table definitions and the user service that looks a mobile number up and registers it. The
  client library and the server behind it are the parameter \<open>mysql\<close> over an abstract server
  state \<open>'db\<close>.
\<close>

subsection \<open>The client library\<close>

definition CR_SERVER_GONE_ERROR :: int where
  "CR_SERVER_GONE_ERROR = 2006"

text \<open>
  \<open>my_init\<close>: \<open>mysql_init\<close> returned a handle; \<open>my_options\<close>: the return code of
  \<open>mysql_options\<close>; \<open>my_connect\<close>: \<open>mysql_real_connect\<close> succeeded; \<open>my_query\<close>: return
  code and server state of \<open>mysql_real_query\<close>; \<open>my_store\<close>: the row count of the result set
  \<open>mysql_store_result\<close> gives, if it gives one; \<open>my_ping\<close>: \<open>mysql_ping\<close> with its reconnect.
\<close>

record 'db mysql =
  my_init :: "'db \<Rightarrow> bool"
  my_options :: "'db \<Rightarrow> int"
  my_connect :: "string \<Rightarrow> string \<Rightarrow> string \<Rightarrow> string \<Rightarrow> u32 \<Rightarrow> 'db \<Rightarrow> bool \<times> 'db"
  my_query :: "string \<Rightarrow> 'db \<Rightarrow> int \<times> 'db"
  my_errno :: "'db \<Rightarrow> int"
  my_store :: "'db \<Rightarrow> nat option"
  my_ping :: "'db \<Rightarrow> 'db"
  my_escape :: "string \<Rightarrow> string"

subsection \<open>MySqlConnection\<close>

text \<open>What \<open>mysql_\<close> points to: nothing, raw memory, an initialised or a connected handle.\<close>

datatype handle = HNull | HRaw | HInit | HConnected

definition MySqlConnection_new :: handle where
  "MySqlConnection_new = HRaw"

text \<open>The destructor: closing a handle that was never initialised is undefined.\<close>

definition MySqlConnection_delete :: "handle \<Rightarrow> handle res" where
  "MySqlConnection_delete h = (case h of HNull \<Rightarrow> Inr HNull | HRaw \<Rightarrow> Inl Uninitialised
     | HInit \<Rightarrow> Inr HNull | HConnected \<Rightarrow> Inr HNull)"

definition MySqlConnection_Init ::
    "'db mysql \<Rightarrow> string \<Rightarrow> u32 \<Rightarrow> string \<Rightarrow> string \<Rightarrow> string \<Rightarrow> 'db \<Rightarrow> bool \<times> handle \<times> 'db" where
  "MySqlConnection_Init my host port user passwd name d =
     (if \<not> my_init my d then (False, HNull, d)
      else \<comment> \<open>a failure of \<open>mysql_options\<close> is only logged\<close>
        (let (ok, d') = my_connect my host user passwd name port d
         in if \<not> ok then (False, HNull, d') else (True, HConnected, d')))"

definition Reconnect :: "'db mysql \<Rightarrow> 'db \<Rightarrow> 'db" where
  "Reconnect my d = my_ping my d"

text \<open>A handle that is null or raw cannot be queried.\<close>

definition query_handle :: "'db mysql \<Rightarrow> handle \<Rightarrow> string \<Rightarrow> 'db \<Rightarrow> (int \<times> 'db) res" where
  "query_handle my h sql d = (case h of HNull \<Rightarrow> Inl NullDeref | HRaw \<Rightarrow> Inl Uninitialised
     | _ \<Rightarrow> Inr (my_query my sql d))"

definition Execute :: "'db mysql \<Rightarrow> handle \<Rightarrow> string \<Rightarrow> 'db \<Rightarrow> (bool \<times> 'db) res" where
  "Execute my h sql d = bindR (query_handle my h sql d) (\<lambda>(rc, d').
     if rc \<noteq> 0 then
       (if my_errno my d' = CR_SERVER_GONE_ERROR then Inr (False, Reconnect my d')
        else Inr (False, d'))
     else Inr (True, d'))"

subsection \<open>SqlRecordSet\<close>

text \<open>\<open>m_pRes_\<close>: the row count of the stored result, if one is stored.\<close>

type_synonym SqlRecordSet = "nat option"

definition SetResult :: "nat \<Rightarrow> SqlRecordSet \<Rightarrow> SqlRecordSet res" where
  "SetResult pRes rs = (if rs \<noteq> None then Inl AssertFailed else Inr (Some pRes))"

definition GetRowCount :: "SqlRecordSet \<Rightarrow> i32 res" where
  "GetRowCount rs = (case rs of None \<Rightarrow> Inl NullDeref | Some n \<Rightarrow> Inr (word_of_nat n))"

text \<open>The overload with a result set; a null result makes it return \<open>NULL\<close>, that is false.\<close>

definition Execute_rs ::
    "'db mysql \<Rightarrow> handle \<Rightarrow> string \<Rightarrow> SqlRecordSet \<Rightarrow> 'db \<Rightarrow> (bool \<times> SqlRecordSet \<times> 'db) res" where
  "Execute_rs my h sql rs d = bindR (query_handle my h sql d) (\<lambda>(rc, d').
     if rc \<noteq> 0 then
       (if my_errno my d' = CR_SERVER_GONE_ERROR then Inr (False, rs, Reconnect my d')
        else Inr (False, rs, d'))
     else (case my_store my d' of
        None \<Rightarrow> Inr (False, rs, d')
      | Some n \<Rightarrow> bindR (SetResult n rs) (\<lambda>rs'. Inr (True, rs', d'))))"

definition EscapeString :: "'db mysql \<Rightarrow> handle \<Rightarrow> string \<Rightarrow> string \<times> nat" where
  "EscapeString my h src = (if h = HNull then ([], 0)
     else (my_escape my src, length (my_escape my src)))"

subsection \<open>UserService\<close>

text \<open>\<open>sprintf\<close> into \<open>char sql_content[1024]\<close>: the text and its terminator have to fit.\<close>

definition sprintf_1024 :: "string \<Rightarrow> string res" where
  "sprintf_1024 s = (if length s + 1 \<le> 1024 then Inr s else Inl OutOfBounds)"

definition select_stmt :: "string \<Rightarrow> string" where
  "select_stmt m = ''select * from userinfo where mobile='' @ m"

definition insert_stmt :: "string \<Rightarrow> string" where
  "insert_stmt m = ''insert into userinfo (mobile) values ('' @ m @ '')''"

lemma length_stmts:
  "length (select_stmt m) = 36 + length m" "length (insert_stmt m) = 39 + length m"
  by (simp_all add: select_stmt_def insert_stmt_def)

definition user_exist :: "'db mysql \<Rightarrow> handle \<Rightarrow> string \<Rightarrow> 'db \<Rightarrow> (bool \<times> 'db) res" where
  "user_exist my h mobile d =
     bindR (sprintf_1024 (select_stmt (c_str mobile))) (\<lambda>sql.
     bindR (Execute_rs my h sql None d) (\<lambda>(ok, rs, d').
       if \<not> ok then Inr (False, d')
       else bindR (GetRowCount rs) (\<lambda>n. Inr (n \<noteq> 0, d'))))"

definition user_insert :: "'db mysql \<Rightarrow> handle \<Rightarrow> string \<Rightarrow> 'db \<Rightarrow> (bool \<times> 'db) res" where
  "user_insert my h mobile d =
     bindR (sprintf_1024 (insert_stmt (c_str mobile))) (\<lambda>sql.
       Execute my h sql d)"

subsection \<open>SqlTables\<close>

text \<open>The statements, as the literals with their line continuations read.\<close>

definition pUserInfoTable :: string where
  "pUserInfoTable =
     ''    CREATE TABLE IF NOT EXISTS userinfo ( ''
     @ ''    id         int(16)      NOT NULL PRIMARY KEY AUTO_INCREMENT, ''
     @ ''    mobile     varchar(16)  NOT NULL default '' @ [CHR 0x27] @ ''13000000000'' @ [CHR 0x27] @ '', ''
     @ ''    username   varchar(128) NOT NULL default '' @ [CHR 0x27, CHR 0x27] @ '', ''
     @ ''    verify     int(4)       NOT NULL default '' @ [CHR 0x27] @ ''0'' @ [CHR 0x27] @ '', ''
     @ ''    registertm timestamp    NOT NULL default CURRENT_TIMESTAMP, ''
     @ ''    money      int(4)       NOT NULL default 0, ''
     @ ''    INDEX      mobile_index(mobile) ''
     @ ''    )''"

definition pBikeInfoTable :: string where
  "pBikeInfoTable =
     ''    CREATE TABLE IF NOT EXISTS bikeinfo( ''
     @ ''    id        int          NOT NULL PRIMARY KEY AUTO_INCREMENT, ''
     @ ''    devno     int          NOT NULL, ''
     @ ''    status    tinyint(1)   NOT NULL default 0, ''
     @ ''    trouble   int          NOT NULL default 0, ''
     @ ''    tmsg      varchar(256) NOT NULL default '' @ [CHR 0x27, CHR 0x27] @ '', ''
     @ ''    latitude  double(10,6) NOT NULL default 0, ''
     @ ''    longitude double(10,6) NOT NULL default 0, ''
     @ ''    unique(devno) ''
     @ ''    )''"

definition CreateUserInfoTable :: "'db mysql \<Rightarrow> handle \<Rightarrow> 'db \<Rightarrow> (bool \<times> 'db) res" where
  "CreateUserInfoTable my h d = Execute my h pUserInfoTable d"

definition CreateBikeInfoTable :: "'db mysql \<Rightarrow> handle \<Rightarrow> 'db \<Rightarrow> (bool \<times> 'db) res" where
  "CreateBikeInfoTable my h d = Execute my h pBikeInfoTable d"

text \<open>\<open>QueryProcessor::init\<close> creates both tables and reports success whatever they report.\<close>

definition QueryProcessor_init :: "'db mysql \<Rightarrow> handle \<Rightarrow> 'db \<Rightarrow> (bool \<times> 'db) res" where
  "QueryProcessor_init my h d =
     bindR (CreateUserInfoTable my h d) (\<lambda>(_, d1).
     bindR (CreateBikeInfoTable my h d1) (\<lambda>(_, d2). Inr (True, d2)))"

end
