(* ===== verification/UserHandler.thy ===== *)
theory UserHandler
  imports Events Database
begin

text \<open>
  \<^verbatim>\<open>src/src/user_event_handler.cc\<close>: the handler of the two user requests. It keeps the map
  from mobile numbers to the validation codes it gave out (\<open>m2c_\<close>, guarded by the mutex
  \<open>pm_\<close>) and talks to the database when a login presents the right code. The parameters of the
  model are collected in \<open>env\<close>; the state is the handler's map together with what its code
  reaches through globals: the configuration singleton, the serial-number counter of the events,
  the clock and the database server.
\<close>

record 'db env =
  pb :: protobuf
  my :: "'db mysql"
  crand :: "u32 \<Rightarrow> nat" \<comment> \<open>first \<open>rand()\<close> after \<open>srand(seed)\<close>\<close>

record 'db hstate =
  m2c :: "string \<rightharpoonup> i32"
  ini :: Iniconfig
  segno :: u32
  now :: u32
  db :: 'db

text \<open>\<open>rand()\<close> gives a value from 0 to \<open>RAND_MAX = 2 ^ 31 - 1\<close>.\<close>

definition rand_range :: "(u32 \<Rightarrow> nat) \<Rightarrow> bool" where
  "rand_range r \<longleftrightarrow> (\<forall>s. r s < 2 ^ 31)"

definition code_gen :: "'db env \<Rightarrow> 'db hstate \<Rightarrow> i32" where
  "code_gen E s = word_of_nat (crand E (now s) mod (999999 - 100000) + 100000)"

definition handle_mobile_code_req ::
    "'db env \<Rightarrow> iEvent \<Rightarrow> 'db hstate \<Rightarrow> (iEvent \<times> 'db hstate) res" where
  "handle_mobile_code_req E ev s =
     bindR (as_MobileCodeReqEv ev) (\<lambda>m.
       (let mobile = rq_mobile m;
            icode = code_gen E s;
            s1 = s\<lparr>m2c := (m2c s)(mobile \<mapsto> icode)\<rparr>
        in bindR (MobileCodeRspEv (errcode ERRC_SUCCESS) icode (segno s1)) (\<lambda>(rsp, c).
             Inr (rsp, s1\<lparr>segno := c\<rparr>))))"

text \<open>
  The database part of a login, in the two halves that other connections can come between:
  connect and look the mobile up, then insert it if it was not there. \<open>None\<close> is a failed
  connection.
\<close>

definition login_lookup ::
    "'db mysql \<Rightarrow> st_env_config \<Rightarrow> string \<Rightarrow> 'db \<Rightarrow> (bool option \<times> handle \<times> 'db) res" where
  "login_lookup M cfg mobile d =
     (let (ok, h, d1) = MySqlConnection_Init M (c_str (db_ip cfg)) (db_port cfg)
            (c_str (db_user cfg)) (c_str (db_pwd cfg)) (c_str (db_name cfg)) d
      in if \<not> ok then Inr (None, h, d1)
         else bindR (user_exist M h mobile d1) (\<lambda>(ex, d2). Inr (Some ex, h, d2)))"

definition login_store ::
    "'db mysql \<Rightarrow> string \<Rightarrow> bool option \<Rightarrow> handle \<Rightarrow> 'db \<Rightarrow> (EErrorCode \<times> handle \<times> 'db) res" where
  "login_store M mobile found h d = (case found of
      None \<Rightarrow> Inr (ERRC_PROCESS_FAILED, h, d)
    | Some ex \<Rightarrow>
       (if \<not> ex then
          bindR (user_insert M h mobile d) (\<lambda>(r, d').
            if \<not> r then Inr (ERRC_PROCESS_FAILED, h, d')
            else Inr (ERRC_SUCCESS, h, d'))
        else Inr (ERRC_SUCCESS, h, d)))"

definition login_db ::
    "'db mysql \<Rightarrow> st_env_config \<Rightarrow> string \<Rightarrow> 'db \<Rightarrow> (EErrorCode \<times> handle \<times> 'db) res" where
  "login_db M cfg mobile d =
     bindR (login_lookup M cfg mobile d) (\<lambda>(found, h, d'). login_store M mobile found h d')"

definition handle_login_req ::
    "'db env \<Rightarrow> iEvent \<Rightarrow> 'db hstate \<Rightarrow> (iEvent \<times> 'db hstate) res" where
  "handle_login_req E ev s =
     bindR (as_LoginReqEv ev) (\<lambda>m.
       (let mobile = lq_mobile m; icode = lq_icode m; iter = m2c s mobile
        in if (iter \<noteq> None \<and> icode \<noteq> the iter) \<or> iter = None then
             bindR (LoginRspEv (errcode ERRC_INVALID_DATA) (segno s)) (\<lambda>(rsp, c).
               Inr (rsp, s\<lparr>segno := c\<rparr>))
           else
             bindR (getconfig (ini s)) (\<lambda>cfg.
             bindR (login_db (my E) cfg mobile (db s)) (\<lambda>(r, h, d).
             bindR (LoginRspEv (errcode r) (segno s)) (\<lambda>(rsp, c).
             bindR (MySqlConnection_delete h) (\<lambda>_.
               Inr (rsp, s\<lparr>segno := c, db := d\<rparr>)))))))"

text \<open>The virtual \<open>handle\<close>; \<open>None\<close> as the event is a null pointer.\<close>

definition handle ::
    "'db env \<Rightarrow> iEvent option \<Rightarrow> 'db hstate \<Rightarrow> (iEvent option \<times> 'db hstate) res" where
  "handle E evp s = (case evp of
      None \<Rightarrow> Inl NullDeref
    | Some ev \<Rightarrow>
       (let eid = ev_eid ev in
        if eid = eventid EEVENTID_GET_MOBILE_CODE_REQ then
          bindR (handle_mobile_code_req E ev s) (\<lambda>(rsp, s'). Inr (Some rsp, s'))
        else if eid = eventid EEVENTID_LOGIN_REQ then
          bindR (handle_login_req E ev s) (\<lambda>(rsp, s'). Inr (Some rsp, s'))
        else if eid = eventid EEVENTID_RECHARGE_REQ then Inr (None, s)
        else if eid = eventid EEVENTID_ACCOUNT_BALANCE_REQ then Inr (None, s)
        else if eid = eventid EEVENTID_LIST_ACCOUNT_RECORDS_REQ then Inr (None, s)
        else Inr (None, s)))"

subsection \<open>Requests as the constructors build them\<close>

abbreviation code_req :: "string \<Rightarrow> iEvent" where
  "code_req mobile \<equiv> fst (MobileCodeReqEv mobile 0)"

abbreviation login_req :: "string \<Rightarrow> i32 \<Rightarrow> iEvent" where
  "login_req mobile icode \<equiv> fst (LoginReqEv mobile icode 0)"

lemma as_ReqEv_ctors [simp]:
  "as_MobileCodeReqEv (fst (MobileCodeReqEv mobile c)) = Inr \<lparr>rq_mobile = mobile\<rparr>"
  "as_LoginReqEv (fst (LoginReqEv mobile icode c)) = Inr \<lparr>lq_mobile = mobile, lq_icode = icode\<rparr>"
  by (simp_all add: as_MobileCodeReqEv_def as_LoginReqEv_def event_ctor_defs)

lemma ctor_eids [simp]:
  "ev_eid (fst (MobileCodeReqEv mobile c)) = 1" "ev_eid (fst (LoginReqEv mobile icode c)) = 3"
  by (simp_all add: event_ctor_defs)

subsection \<open>Validation codes\<close>

lemma code_gen_unat: "unat (code_gen E s) = crand E (now s) mod 899999 + 100000"
proof -
  have "crand E (now s) mod 899999 < 899999" by simp
  then have "crand E (now s) mod 899999 + 100000 < 2 ^ 32" by simp
  then have "unat (word_of_nat (crand E (now s) mod 899999 + 100000) :: u32)
      = crand E (now s) mod 899999 + 100000"
    by (rule unat_word32)
  then show ?thesis by (simp add: code_gen_def)
qed

lemma code_gen_range: "100000 \<le> unat (code_gen E s) \<and> unat (code_gen E s) < 999999"
  by (simp add: code_gen_unat)

lemma handle_mobile_code_req_eq:
  "handle_mobile_code_req E (fst (MobileCodeReqEv mobile c)) s =
   Inr (mk_iEvent (eventid EEVENTID_GET_MOBILE_CODE_RSP) (segno s)
      (MobileCodeRspMsg \<lparr>rs_code = errcode ERRC_SUCCESS, rs_icode = code_gen E s,
         rs_data = Some ''T_OK.''\<rparr>),
    s\<lparr>m2c := (m2c s)(mobile \<mapsto> code_gen E s), segno := segno s + 1\<rparr>)"
  using reason_of_codes(1) by (simp add: handle_mobile_code_req_def MobileCodeRspEv_eq Let_def)

subsection \<open>Logins\<close>

text \<open>The outcome of a login as a specification: the response code and the state.\<close>

definition login_spec ::
    "'db env \<Rightarrow> string \<Rightarrow> i32 \<Rightarrow> 'db hstate \<Rightarrow> (EErrorCode \<times> 'db) res" where
  "login_spec E mobile icode s =
     (if m2c s mobile \<noteq> Some icode then Inr (ERRC_INVALID_DATA, db s)
      else bindR (getconfig (ini s)) (\<lambda>cfg.
        bindR (login_db (my E) cfg mobile (db s)) (\<lambda>(r, h, d). Inr (r, d))))"

lemma login_db_handle: "login_db M cfg mobile d = Inr (r, h, d') \<Longrightarrow> h = HNull \<or> h = HConnected"
  by (auto simp: login_db_def login_lookup_def login_store_def MySqlConnection_Init_def
      bindR_eq_Inr Let_def split: if_splits prod.splits option.splits)

lemma delete_login_handle: "login_db M cfg mobile d = Inr (r, h, d') \<Longrightarrow> MySqlConnection_delete h = Inr HNull"
  by (drule login_db_handle) (auto simp: MySqlConnection_delete_def)

lemma handle_login_req_spec:
  "handle_login_req E (fst (LoginReqEv mobile icode c)) s =
   bindR (login_spec E mobile icode s) (\<lambda>(r, d).
     Inr (mk_iEvent (eventid EEVENTID_LOGIN_RSP) (segno s)
        (LoginRspMsg \<lparr>ls_code = errcode r, ls_desc = Some (reason_of (errcode r))\<rparr>),
      s\<lparr>segno := segno s + 1, db := d\<rparr>))"
proof (cases "m2c s mobile = Some icode")
  case True
  then show ?thesis
    by (auto simp: handle_login_req_def login_spec_def Let_def bindR_assoc LoginRspEv_eq
        delete_login_handle intro!: bindR_cong split: prod.splits)
next
  case False
  then show ?thesis
    by (auto simp: handle_login_req_def login_spec_def Let_def LoginRspEv_eq)
qed

lemma login_success_needs_code:
  "login_spec E mobile icode s = Inr (r, d) \<Longrightarrow> r \<noteq> ERRC_INVALID_DATA \<Longrightarrow> m2c s mobile = Some icode"
  by (auto simp: login_spec_def split: if_splits)

subsection \<open>A database that works\<close>

text \<open>
  What the two statements do on a server that is up, for a mobile number as the client sends it:
  at most 15 decimal digits without a leading zero, so that the unquoted literal of the statement
  denotes it. \<open>rows d m\<close> is the number of rows of \<open>userinfo\<close> with mobile \<open>m\<close>.
\<close>

definition plain_mobile :: "string \<Rightarrow> bool" where
  "plain_mobile m \<longleftrightarrow> m \<noteq> [] \<and> length m \<le> 15 \<and> hd m \<noteq> CHR ''0'' \<and> set m \<subseteq> set ''0123456789''"

definition sql_users :: "'db mysql \<Rightarrow> ('db \<Rightarrow> string \<Rightarrow> nat) \<Rightarrow> bool" where
  "sql_users M rows \<longleftrightarrow>
     (\<forall>d. my_init M d) \<and>
     (\<forall>h u p n port d. fst (my_connect M h u p n port d) \<and>
        rows (snd (my_connect M h u p n port d)) = rows d) \<and>
     (\<forall>m d. plain_mobile m \<longrightarrow>
        fst (my_query M (select_stmt m) d) = 0 \<and>
        my_store M (snd (my_query M (select_stmt m) d)) = Some (rows d m) \<and>
        rows (snd (my_query M (select_stmt m) d)) = rows d) \<and>
     (\<forall>m d. plain_mobile m \<longrightarrow>
        fst (my_query M (insert_stmt m) d) = 0 \<and>
        rows (snd (my_query M (insert_stmt m) d)) = (rows d)(m := Suc (rows d m)))"

lemma sql_usersD:
  assumes "sql_users M rows"
  shows "my_init M d"
    and "fst (my_connect M h u p n port d)"
    and "rows (snd (my_connect M h u p n port d)) = rows d"
    and "plain_mobile m \<Longrightarrow> fst (my_query M (select_stmt m) d) = 0"
    and "plain_mobile m \<Longrightarrow> my_store M (snd (my_query M (select_stmt m) d)) = Some (rows d m)"
    and "plain_mobile m \<Longrightarrow> rows (snd (my_query M (select_stmt m) d)) = rows d"
    and "plain_mobile m \<Longrightarrow> fst (my_query M (insert_stmt m) d) = 0"
    and "plain_mobile m \<Longrightarrow>
      rows (snd (my_query M (insert_stmt m) d)) = (rows d)(m := Suc (rows d m))"
proof -
  note all = assms [unfolded sql_users_def]
  note q = all [THEN conjunct1] all [THEN conjunct2, THEN conjunct1]
    all [THEN conjunct2, THEN conjunct2, THEN conjunct1]
    all [THEN conjunct2, THEN conjunct2, THEN conjunct2]
  show "my_init M d" using q(1) by simp
  show "fst (my_connect M h u p n port d)"
    and "rows (snd (my_connect M h u p n port d)) = rows d" using q(2) by simp_all
  show "plain_mobile m \<Longrightarrow> fst (my_query M (select_stmt m) d) = 0"
    and "plain_mobile m \<Longrightarrow> my_store M (snd (my_query M (select_stmt m) d)) = Some (rows d m)"
    and "plain_mobile m \<Longrightarrow> rows (snd (my_query M (select_stmt m) d)) = rows d"
    using q(3) by simp_all
  show "plain_mobile m \<Longrightarrow> fst (my_query M (insert_stmt m) d) = 0"
    and "plain_mobile m \<Longrightarrow>
      rows (snd (my_query M (insert_stmt m) d)) = (rows d)(m := Suc (rows d m))"
    using q(4) by simp_all
qed

lemma plain_mobile_c_str: "plain_mobile m \<Longrightarrow> c_str m = m"
  by (rule c_str_id) (auto simp: plain_mobile_def)

lemma plain_mobile_fits:
  assumes "plain_mobile m"
  shows "sprintf_1024 (select_stmt (c_str m)) = Inr (select_stmt m)"
    and "sprintf_1024 (insert_stmt (c_str m)) = Inr (insert_stmt m)"
proof -
  have "length m \<le> 15" using assms by (simp only: plain_mobile_def)
  then show "sprintf_1024 (select_stmt (c_str m)) = Inr (select_stmt m)"
    and "sprintf_1024 (insert_stmt (c_str m)) = Inr (insert_stmt m)"
    by (simp_all only: plain_mobile_c_str [OF assms])
      (simp_all add: sprintf_1024_def length_stmts)
qed

lemma user_exist_rows:
  assumes "sql_users M rows" and "plain_mobile m" and "h = HConnected" and "rows d m < 2 ^ 32"
  obtains d' where "user_exist M h m d = Inr (rows d m \<noteq> 0, d')" and "rows d' = rows d"
proof -
  obtain rc d' where q: "my_query M (select_stmt m) d = (rc, d')" by (cases "my_query M (select_stmt m) d")
  with sql_usersD(4-6) [OF assms(1,2), of d]
  have "rc = 0" "my_store M d' = Some (rows d m)" "rows d' = rows d" by simp_all
  moreover have "(word_of_nat (rows d m) :: i32) = 0 \<longleftrightarrow> rows d m = 0"
    using word32_of_nat_eq_0 [OF assms(4)] .
  ultimately show thesis
    using that plain_mobile_fits(1) [OF assms(2)] assms(3) q
    by (simp add: user_exist_def Execute_rs_def query_handle_def SetResult_def GetRowCount_def)
qed

lemma user_insert_rows:
  assumes "sql_users M rows" and "plain_mobile m" and "h = HConnected"
  obtains d' where "user_insert M h m d = Inr (True, d')" and "rows d' = (rows d)(m := Suc (rows d m))"
proof -
  obtain rc d' where q: "my_query M (insert_stmt m) d = (rc, d')" by (cases "my_query M (insert_stmt m) d")
  with sql_usersD(7,8) [OF assms(1,2), of d]
  have "rc = 0" "rows d' = (rows d)(m := Suc (rows d m))" by simp_all
  then show thesis
    using that plain_mobile_fits(2) [OF assms(2)] assms(3) q
    by (simp add: user_insert_def Execute_def query_handle_def)
qed

lemma login_lookup_rows:
  assumes "sql_users M rows" and "plain_mobile m" and "rows d m < 2 ^ 32"
  obtains d' where "login_lookup M cfg m d = Inr (Some (rows d m \<noteq> 0), HConnected, d')"
    and "rows d' = rows d"
proof -
  let ?cn = "my_connect M (c_str (db_ip cfg)) (c_str (db_user cfg)) (c_str (db_pwd cfg))
    (c_str (db_name cfg)) (db_port cfg) d"
  obtain ok d1 where cn: "?cn = (ok, d1)" by (cases ?cn)
  with sql_usersD(1-3) [OF assms(1)] have ok: "ok" "rows d1 = rows d" "my_init M d"
    by (metis fst_conv, metis snd_conv, blast)
  obtain d' where "user_exist M HConnected m d1 = Inr (rows d1 m \<noteq> 0, d')" "rows d' = rows d1"
    using user_exist_rows [OF assms(1,2) refl, of d1] assms(3) ok(2) by auto
  with that ok cn show thesis
    by (simp add: login_lookup_def MySqlConnection_Init_def)
qed

lemma login_store_rows:
  assumes "sql_users M rows" and "plain_mobile m"
  obtains d' where "login_store M m (Some ex) HConnected d = Inr (ERRC_SUCCESS, HConnected, d')"
    and "rows d' = (if ex then rows d else (rows d)(m := Suc (rows d m)))"
proof (cases ex)
  case True
  then show thesis using that by (simp add: login_store_def)
next
  case False
  obtain d' where "user_insert M HConnected m d = Inr (True, d')"
      "rows d' = (rows d)(m := Suc (rows d m))"
    using user_insert_rows [OF assms refl] .
  with False that show thesis by (simp add: login_store_def)
qed

lemma login_db_rows:
  assumes "sql_users M rows" and "plain_mobile m" and "rows d m < 2 ^ 32"
  obtains d' where "login_db M cfg m d = Inr (ERRC_SUCCESS, HConnected, d')"
    and "rows d' = (rows d)(m := max 1 (rows d m))"
proof -
  obtain d1 where l: "login_lookup M cfg m d = Inr (Some (rows d m \<noteq> 0), HConnected, d1)"
      "rows d1 = rows d"
    using login_lookup_rows [OF assms] .
  obtain d' where s: "login_store M m (Some (rows d m \<noteq> 0)) HConnected d1 = Inr (ERRC_SUCCESS, HConnected, d')"
      "rows d' = (if rows d m \<noteq> 0 then rows d1 else (rows d1)(m := Suc (rows d1 m)))"
    using login_store_rows [OF assms(1,2)] .
  have "rows d' = (rows d)(m := max 1 (rows d m))"
    using s(2) l(2) by (auto simp: max_def)
  with that l(1) s(1) show thesis by (simp add: login_db_def)
qed

text \<open>
  An instance of \<open>mysql\<close>: the server state is the list of registered mobiles and the row count
  of the last selection. It shows that \<open>sql_users\<close> can hold.
\<close>

definition table_my :: "(string list \<times> nat) mysql" where
  "table_my = \<lparr>my_init = (\<lambda>_. True), my_options = (\<lambda>_. 0),
     my_connect = (\<lambda>_ _ _ _ _ d. (True, d)),
     my_query = (\<lambda>sql (t, n).
       if take 36 sql = select_stmt [] then (0, (t, count_list t (drop 36 sql)))
       else if take 38 sql = ''insert into userinfo (mobile) values (''
         then (0, (butlast (drop 38 sql) # t, n))
       else (0, (t, n))),
     my_errno = (\<lambda>_. 0), my_store = (\<lambda>(t, n). Some n), my_ping = (\<lambda>d. d),
     my_escape = (\<lambda>s. s)\<rparr>"

definition table_rows :: "string list \<times> nat \<Rightarrow> string \<Rightarrow> nat" where
  "table_rows d m = count_list (fst d) m"

lemma table_query:
  "my_query table_my (select_stmt m) (t, n) = (0, (t, count_list t m))"
  "my_query table_my (insert_stmt m) (t, n) = (0, (m # t, n))"
  by (simp_all add: table_my_def select_stmt_def insert_stmt_def)

lemma table_my_simps [simp]:
  "my_init table_my d" "my_connect table_my h u p nm port d = (True, d)"
  "my_store table_my (t, n) = Some n"
  by (simp_all add: table_my_def)

lemma table_sql_users: "sql_users table_my table_rows"
proof -
  have "table_rows (t, n) = count_list t" for t n
    by (rule ext) (simp add: table_rows_def)
  then show ?thesis
    unfolding sql_users_def by (simp add: table_query split_paired_all fun_eq_iff)
qed

definition demo_env :: "(string list \<times> nat) env" where
  "demo_env = \<lparr>pb = flat_pb, my = table_my, crand = (\<lambda>s. unat s)\<rparr>"

definition demo_config :: st_env_config where
  "demo_config = \<lparr>db_ip = ''localhost'', db_port = 3306, db_user = ''wjfeng'', db_pwd = ''990927'',
     db_name = ''shared_bike'', svr_port = 9090\<rparr>"

definition demo_state :: "(string list \<times> nat) hstate" where
  "demo_state = \<lparr>m2c = Map.empty, ini = \<lparr>ini_config = Some demo_config, is_loaded = True\<rparr>,
     segno = 0, now = 0, db = ([], 0)\<rparr>"

lemma demo_simps [simp]:
  "my demo_env = table_my" "getconfig (ini demo_state) = Inr demo_config" "db demo_state = ([], 0)"
  "m2c demo_state = Map.empty" "now demo_state = 0" "segno demo_state = 0" "pb demo_env = flat_pb"
  "crand demo_env = (\<lambda>s. unat s)"
  by (simp_all add: demo_env_def demo_state_def getconfig_def)

subsection \<open>Safety of the database code\<close>

lemma Execute_defined: "h = HConnected \<Longrightarrow> defined (Execute M h sql d)"
  by (simp add: Execute_def query_handle_def split: prod.split)

lemma Execute_rs_cases:
  assumes "h = HConnected"
  shows "(\<exists>d'. Execute_rs M h sql None d = Inr (False, None, d')) \<or>
    (\<exists>n d'. Execute_rs M h sql None d = Inr (True, Some n, d'))"
  using assms
  by (auto simp: Execute_rs_def query_handle_def SetResult_def split: prod.split option.split)

lemma user_exist_defined:
  assumes "h = HConnected" and "length (c_str m) \<le> 987"
  shows "defined (user_exist M h m d)"
proof -
  have "sprintf_1024 (select_stmt (c_str m)) = Inr (select_stmt (c_str m))"
    using assms(2) by (simp add: sprintf_1024_def length_stmts)
  then show ?thesis
    using Execute_rs_cases [OF assms(1), of M "select_stmt (c_str m)" d]
    by (auto simp: user_exist_def GetRowCount_def)
qed

lemma user_insert_defined:
  assumes "h = HConnected" and "length (c_str m) \<le> 984"
  shows "defined (user_insert M h m d)"
  using assms Execute_defined [OF assms(1)]
  by (simp add: user_insert_def sprintf_1024_def length_stmts)

lemma login_db_defined:
  assumes "length (c_str m) \<le> 984"
  shows "defined (login_db M cfg m d)"
proof -
  have "defined (login_store M m f h d')" if "h = HConnected \<or> f = None" for f h d'
    using that assms user_insert_defined [of h m M d']
    by (auto simp: login_store_def defined_bindR defined_iff split: option.split)
  moreover have "defined (login_lookup M cfg m d) \<and>
      (\<forall>f h d'. login_lookup M cfg m d = Inr (f, h, d') \<longrightarrow> h = HConnected \<or> f = None)"
    using assms user_exist_defined [of HConnected m M]
    by (auto simp: login_lookup_def MySqlConnection_Init_def defined_bindR defined_iff bindR_eq_Inr
        split: prod.split) blast
  ultimately show ?thesis
    by (fastforce simp: login_db_def defined_bindR defined_iff)
qed

lemma user_exist_overflow:
  "987 < length (c_str m) \<Longrightarrow> user_exist M h m d = Inl OutOfBounds"
  by (simp add: user_exist_def sprintf_1024_def length_stmts)

subsection \<open>Properties of the user handler\<close>

lemma handle_code_eq:
  "handle E (Some (fst (MobileCodeReqEv mobile c))) s =
   Inr (Some (mk_iEvent (eventid EEVENTID_GET_MOBILE_CODE_RSP) (segno s)
      (MobileCodeRspMsg \<lparr>rs_code = errcode ERRC_SUCCESS, rs_icode = code_gen E s,
         rs_data = Some ''T_OK.''\<rparr>)),
    s\<lparr>m2c := (m2c s)(mobile \<mapsto> code_gen E s), segno := segno s + 1\<rparr>)"
  by (simp add: handle_def handle_mobile_code_req_eq)

lemma handle_login_eq:
  "handle E (Some (fst (LoginReqEv mobile icode c))) s =
   bindR (login_spec E mobile icode s) (\<lambda>(r, d).
     Inr (Some (mk_iEvent (eventid EEVENTID_LOGIN_RSP) (segno s)
        (LoginRspMsg \<lparr>ls_code = errcode r, ls_desc = Some (reason_of (errcode r))\<rparr>)),
      s\<lparr>segno := segno s + 1, db := d\<rparr>))"
  by (auto simp: handle_def handle_login_req_spec bindR_assoc intro!: bindR_cong)

lemma mk_iEvent_sel [simp]:
  "ev_eid (mk_iEvent e n m) = e" "ev_sn (mk_iEvent e n m) = n" "ev_msg (mk_iEvent e n m) = m"
  "ev_args (mk_iEvent e n m) = None"
  by (simp_all add: mk_iEvent_def)

text \<open>
  C6. A client that asks for a validation code and logs in with the code of the response is
  accepted: the code has six digits, the login answers 200, and afterwards the mobile is
  registered: once if it was not registered before, and unchanged if it was. No other mobile's
  registration changes.
\<close>

theorem code_then_login:
  assumes "sql_users (my E) rows" and "plain_mobile m" and "getconfig (ini s) = Inr cfg"
    and "rows (db s) m < 2 ^ 32"
  shows "\<exists>rsp r s1 rsp' s2.
     handle E (Some (fst (MobileCodeReqEv m c))) s = Inr (Some rsp, s1) \<and>
     ev_msg rsp = MobileCodeRspMsg r \<and> 100000 \<le> unat (rs_icode r) \<and> unat (rs_icode r) < 1000000 \<and>
     handle E (Some (fst (LoginReqEv m (rs_icode r) c'))) s1 = Inr (Some rsp', s2) \<and>
     ev_msg rsp' = LoginRspMsg \<lparr>ls_code = errcode ERRC_SUCCESS, ls_desc = Some ''T_OK.''\<rparr> \<and>
     rows (db s2) = (rows (db s))(m := max 1 (rows (db s) m))"
proof -
  obtain d' where d': "login_db (my E) cfg m (db s) = Inr (ERRC_SUCCESS, HConnected, d')"
      "rows d' = (rows (db s))(m := max 1 (rows (db s) m))"
    using login_db_rows [OF assms(1,2,4)] .
  then show ?thesis
    using code_gen_range [of E s] reason_of_codes(1)
    by (simp add: handle_code_eq handle_login_eq login_spec_def assms(3))
qed

theorem code_then_login_witness:
  "\<exists>rsp r s1 rsp' s2.
     handle demo_env (Some (fst (MobileCodeReqEv ''18266666666'' 0))) demo_state = Inr (Some rsp, s1) \<and>
     ev_msg rsp = MobileCodeRspMsg r \<and> 100000 \<le> unat (rs_icode r) \<and> unat (rs_icode r) < 1000000 \<and>
     handle demo_env (Some (fst (LoginReqEv ''18266666666'' (rs_icode r) 1))) s1 = Inr (Some rsp', s2) \<and>
     ev_msg rsp' = LoginRspMsg \<lparr>ls_code = errcode ERRC_SUCCESS, ls_desc = Some ''T_OK.''\<rparr> \<and>
     table_rows (db s2) = (table_rows (db demo_state))(''18266666666'' := max 1 (table_rows (db demo_state) ''18266666666''))"
  by (rule code_then_login [where cfg = demo_config])
    (simp_all add: table_sql_users plain_mobile_def, simp add: table_rows_def)

text \<open>
  A login whose code is not the last one given out for that mobile, or whose mobile never
  asked for one, is answered with 404 "Invalid data." and touches neither the code map nor the
  database.
\<close>

theorem login_wrong_code:
  assumes "m2c s mobile \<noteq> Some icode"
  shows "handle E (Some (fst (LoginReqEv mobile icode c))) s =
    Inr (Some (mk_iEvent (eventid EEVENTID_LOGIN_RSP) (segno s)
       (LoginRspMsg \<lparr>ls_code = errcode ERRC_INVALID_DATA, ls_desc = Some ''Invalid data.''\<rparr>)),
     s\<lparr>segno := segno s + 1\<rparr>)"
  using assms reason_of_codes(2) by (simp add: handle_login_eq login_spec_def)

theorem login_wrong_code_witness:
  "handle demo_env (Some (fst (LoginReqEv ''18266666666'' 123456 0))) demo_state =
    Inr (Some (mk_iEvent (eventid EEVENTID_LOGIN_RSP) (segno demo_state)
       (LoginRspMsg \<lparr>ls_code = errcode ERRC_INVALID_DATA, ls_desc = Some ''Invalid data.''\<rparr>)),
     demo_state\<lparr>segno := segno demo_state + 1\<rparr>)"
  by (rule login_wrong_code) simp

text \<open>
  Registration is check-then-act without a unique index: when two logins of an unregistered
  mobile overlap so that both look it up before either inserts it, both succeed and the mobile is
  registered twice.
\<close>

theorem login_race_duplicates:
  assumes "sql_users M rows" and "plain_mobile m" and "rows d m = 0"
  shows "\<exists>f1 h1 d1 f2 h2 d2 d3 d4.
     login_lookup M cfg m d = Inr (f1, h1, d1) \<and> login_lookup M cfg m d1 = Inr (f2, h2, d2) \<and>
     login_store M m f1 h1 d2 = Inr (ERRC_SUCCESS, h1, d3) \<and>
     login_store M m f2 h2 d3 = Inr (ERRC_SUCCESS, h2, d4) \<and> rows d4 m = 2"
proof -
  have z: "rows d m < 2 ^ 32" using assms(3) by simp
  obtain d1 where 1: "login_lookup M cfg m d = Inr (Some (rows d m \<noteq> 0), HConnected, d1)" "rows d1 = rows d"
    using login_lookup_rows [OF assms(1,2) z] .
  have z1: "rows d1 m < 2 ^ 32" using z 1(2) by simp
  obtain d2 where 2: "login_lookup M cfg m d1 = Inr (Some (rows d1 m \<noteq> 0), HConnected, d2)" "rows d2 = rows d1"
    using login_lookup_rows [OF assms(1,2) z1] .
  obtain d3 where 3: "login_store M m (Some False) HConnected d2 = Inr (ERRC_SUCCESS, HConnected, d3)"
      "rows d3 = (if False then rows d2 else (rows d2)(m := Suc (rows d2 m)))"
    using login_store_rows [OF assms(1,2)] .
  obtain d4 where 4: "login_store M m (Some False) HConnected d3 = Inr (ERRC_SUCCESS, HConnected, d4)"
      "rows d4 = (if False then rows d3 else (rows d3)(m := Suc (rows d3 m)))"
    using login_store_rows [OF assms(1,2)] .
  have "rows d4 m = 2" and "\<not> (rows d m \<noteq> 0)" and "\<not> (rows d1 m \<noteq> 0)"
    by (simp_all add: 4(2) 3(2) 2(2) 1(2) assms(3))
  then show ?thesis using 1(1) 2(1) 3(1) 4(1) by simp
qed

theorem login_race_duplicates_witness:
  "\<exists>f1 h1 d1 f2 h2 d2 d3 d4.
     login_lookup table_my demo_config ''13'' ([], 0) = Inr (f1, h1, d1) \<and>
     login_lookup table_my demo_config ''13'' d1 = Inr (f2, h2, d2) \<and>
     login_store table_my ''13'' f1 h1 d2 = Inr (ERRC_SUCCESS, h1, d3) \<and>
     login_store table_my ''13'' f2 h2 d3 = Inr (ERRC_SUCCESS, h2, d4) \<and> table_rows d4 ''13'' = 2"
  by (rule login_race_duplicates)
    (simp_all add: table_sql_users plain_mobile_def, simp add: table_rows_def)

text \<open>
  A login never reaches undefined behaviour, whatever the database answers, as long as the
  mobile's C string has at most 984 characters and the configuration is loaded.
\<close>

theorem login_safe_short_mobile:
  assumes "length (c_str mobile) \<le> 984" and "getconfig (ini s) = Inr cfg"
  shows "defined (handle E (Some (fst (LoginReqEv mobile icode c))) s)"
proof -
  obtain r h d where "login_db (my E) cfg mobile (db s) = Inr (r, h, d)"
    using login_db_defined [OF assms(1), of "my E" cfg "db s"] by (auto simp: defined_iff)
  then have "\<exists>r d. login_spec E mobile icode s = Inr (r, d)"
    by (simp add: login_spec_def assms(2))
  then show ?thesis by (auto simp: handle_login_eq)
qed

theorem login_safe_short_mobile_witness:
  "defined (handle demo_env (Some (fst (LoginReqEv ''18266666666'' 5 0)))
     (demo_state\<lparr>m2c := [''18266666666'' \<mapsto> 5]\<rparr>))"
  by (rule login_safe_short_mobile [where cfg = demo_config])
    (simp_all add: c_str_def)

text \<open>
  The statement buffer of \<open>UserService::exist\<close> overflows for a long mobile, and a client can
  get there: it asks for a code for a mobile of more than 987 characters and logs in with the code
  it receives; with the database up, the login writes past the 1024 bytes.
\<close>

theorem long_mobile_login_overflows:
  assumes "sql_users (my E) rows" and "987 < length (c_str m)" and "getconfig (ini s) = Inr cfg"
  shows "\<exists>rsp r s1. handle E (Some (fst (MobileCodeReqEv m c))) s = Inr (Some rsp, s1) \<and>
     ev_msg rsp = MobileCodeRspMsg r \<and>
     handle E (Some (fst (LoginReqEv m (rs_icode r) c'))) s1 = Inl OutOfBounds"
proof -
  let ?cn = "my_connect (my E) (c_str (db_ip cfg)) (c_str (db_user cfg)) (c_str (db_pwd cfg))
    (c_str (db_name cfg)) (db_port cfg) (db s)"
  have "my_init (my E) (db s)" and "fst ?cn"
    by (rule sql_usersD(1) [OF assms(1)], rule sql_usersD(2) [OF assms(1)])
  moreover obtain d1 where "?cn = (True, d1)"
    using \<open>fst ?cn\<close> by (cases ?cn) simp
  ultimately have "login_lookup (my E) cfg m (db s) = Inl OutOfBounds"
    by (simp add: login_lookup_def MySqlConnection_Init_def user_exist_overflow [OF assms(2)])
  then show ?thesis
    by (simp add: handle_code_eq handle_login_eq login_spec_def login_db_def assms(3))
qed

theorem long_mobile_login_overflows_witness:
  "\<exists>rsp r s1. handle demo_env (Some (fst (MobileCodeReqEv (replicate 1000 CHR ''1'') 0))) demo_state
       = Inr (Some rsp, s1) \<and>
     ev_msg rsp = MobileCodeRspMsg r \<and>
     handle demo_env (Some (fst (LoginReqEv (replicate 1000 CHR ''1'') (rs_icode r) 1))) s1
       = Inl OutOfBounds"
proof -
  have "c_str (replicate 1000 CHR ''1'') = replicate 1000 CHR ''1''"
    by (rule c_str_id) (simp add: set_replicate_conv_if)
  then show ?thesis
    by (intro long_mobile_login_overflows [where cfg = demo_config and rows = table_rows])
      (simp_all add: table_sql_users)
qed

text \<open>
  \<open>code_gen\<close> reseeds with the time in seconds on every call, so two requests within one
  second give two different mobiles the same validation code: the holder of one knows the code of
  the other.
\<close>

theorem same_second_same_code:
  assumes "m1 \<noteq> m2"
  shows "\<exists>r1 s1 r2 s2.
     handle E (Some (fst (MobileCodeReqEv m1 c1))) s = Inr (Some r1, s1) \<and> now s1 = now s \<and>
     handle E (Some (fst (MobileCodeReqEv m2 c2))) s1 = Inr (Some r2, s2) \<and>
     m2c s2 m1 = m2c s2 m2 \<and> m2c s2 m1 \<noteq> None"
  using assms by (simp add: handle_code_eq code_gen_def)

theorem same_second_same_code_witness:
  "\<exists>r1 s1 r2 s2.
     handle demo_env (Some (fst (MobileCodeReqEv ''13'' 0))) demo_state = Inr (Some r1, s1) \<and>
     now s1 = now demo_state \<and>
     handle demo_env (Some (fst (MobileCodeReqEv ''14'' 1))) s1 = Inr (Some r2, s2) \<and>
     m2c s2 ''13'' = m2c s2 ''14'' \<and> m2c s2 ''13'' \<noteq> None"
  by (rule same_second_same_code) simp

end
