(* ===== verification/Fifo.thy ===== *)
theory Fifo
  imports Prelude
begin

text \<open>
  The contract of a first-in-first-out queue, as the program's two queues promise it to their
  users: the task queue of the thread pool, a list linked through the tasks with a pointer to its
  last link, and the queue of response events. \<open>rel q xs\<close> says that the queue \<open>q\<close> holds \<open>xs\<close>;
  \<open>push\<close> may refuse an item.
\<close>

datatype 'a qop = Push 'a | Pop

text \<open>
  A sequence of operations, with the items popped, the items accepted and the final queue.
\<close>

fun run_ops ::
    "('a \<Rightarrow> 'q \<Rightarrow> (bool \<times> 'q) res) \<Rightarrow> ('q \<Rightarrow> ('a option \<times> 'q) res) \<Rightarrow> 'a qop list \<Rightarrow> 'q \<Rightarrow>
     ('a list \<times> 'a list \<times> 'q) res" where
  "run_ops push pop [] q = Inr ([], [], q)"
| "run_ops push pop (Push a # ops) q =
     bindR (push a q) (\<lambda>(b, q1).
     bindR (run_ops push pop ops q1) (\<lambda>(out, acc, q2).
       Inr (out, (if b then a # acc else acc), q2)))"
| "run_ops push pop (Pop # ops) q =
     bindR (pop q) (\<lambda>(r, q1).
     bindR (run_ops push pop ops q1) (\<lambda>(out, acc, q2).
       Inr ((case r of None \<Rightarrow> out | Some a \<Rightarrow> a # out), acc, q2)))"

locale fifo =
  fixes rel :: "'q \<Rightarrow> 'a list \<Rightarrow> bool"
    and push :: "'a \<Rightarrow> 'q \<Rightarrow> (bool \<times> 'q) res"
    and pop :: "'q \<Rightarrow> ('a option \<times> 'q) res"
  assumes push_law: "rel q xs \<Longrightarrow> \<exists>b q'. push a q = Inr (b, q') \<and> rel q' (if b then xs @ [a] else xs)"
    and pop_nil: "rel q [] \<Longrightarrow> \<exists>q'. pop q = Inr (None, q') \<and> rel q' []"
    and pop_cons: "rel q (x # xs) \<Longrightarrow> \<exists>q'. pop q = Inr (Some x, q') \<and> rel q' xs"
begin

lemma pop_law:
  assumes "rel q xs"
  obtains r q' ys where "pop q = Inr (r, q')" and "rel q' ys"
    and "xs = (case r of None \<Rightarrow> ys | Some x \<Rightarrow> x # ys)"
proof (cases xs)
  case Nil
  with assms pop_nil obtain q' where "pop q = Inr (None, q')" "rel q' []" by blast
  with Nil that show thesis by auto
next
  case (Cons x ys)
  with assms pop_cons obtain q' where "pop q = Inr (Some x, q')" "rel q' ys" by blast
  with Cons that show thesis by auto
qed

text \<open>
  No operation sequence faults, loses, duplicates or reorders an item: what was there followed by
  what was accepted is what came out followed by what is left.
\<close>

lemma fifo_order:
  "rel q xs \<Longrightarrow> \<exists>out acc q' ys. run_ops push pop ops q = Inr (out, acc, q') \<and> rel q' ys \<and>
     xs @ acc = out @ ys"
proof (induction ops arbitrary: q xs)
  case Nil
  then show ?case by auto
next
  case (Cons op ops)
  show ?case
  proof (cases op)
    case (Push a)
    from push_law [OF Cons.prems, of a] obtain b q1 where
      q1: "push a q = Inr (b, q1)" "rel q1 (if b then xs @ [a] else xs)" by auto
    from Cons.IH [OF q1(2)] obtain out acc q' ys where
      "run_ops push pop ops q1 = Inr (out, acc, q')" "rel q' ys"
      "(if b then xs @ [a] else xs) @ acc = out @ ys" by auto
    with Push q1(1) show ?thesis by (cases b) auto
  next
    case Pop
    from Cons.prems obtain r q1 xs1 where
      q1: "pop q = Inr (r, q1)" "rel q1 xs1" "xs = (case r of None \<Rightarrow> xs1 | Some x \<Rightarrow> x # xs1)"
      by (rule pop_law)
    from Cons.IH [OF q1(2)] obtain out acc q' ys where
      "run_ops push pop ops q1 = Inr (out, acc, q')" "rel q' ys" "xs1 @ acc = out @ ys" by auto
    with Pop q1 show ?thesis by (cases r) auto
  qed
qed

end

text \<open>A queue that refuses nothing.\<close>

locale fifo_total = fifo +
  assumes push_accepts: "rel q xs \<Longrightarrow> push a q = Inr (b, q') \<Longrightarrow> b"
begin

lemma push_total: "rel q xs \<Longrightarrow> \<exists>q'. push a q = Inr (True, q') \<and> rel q' (xs @ [a])"
  using push_law [of q xs a] push_accepts [of q xs a] by force

end

end
