(* ===== verification/TaskQueue.thy ===== *)
theory TaskQueue
  imports Fifo
begin

text \<open>
  The data and the single operations of \<^verbatim>\<open>src/src/threadpool\<close>: the pthread wrappers of
  \<^verbatim>\<open>thread_mutex.cc\<close> and \<^verbatim>\<open>thread_cond.cc\<close>, the pool and its task queue of
  \<^verbatim>\<open>thread_pool.h\<close>, and posting, taking and freeing a task of \<^verbatim>\<open>thread_pool.cc\<close>. The queue is
  modelled with its pointers; \<open>queue_rel\<close> relates it to the list of tasks it holds. The return
  codes of the pthread functions are parameters.
\<close>

subsection \<open>The pthread wrappers\<close>

definition T_OK :: int where
  "T_OK = 0"

definition T_ERROR :: int where
  "T_ERROR = -1"

lemma T_OK_ERROR [simp]: "T_ERROR \<noteq> T_OK" "T_OK \<noteq> T_ERROR"
  by (simp_all add: T_OK_def T_ERROR_def)

text \<open>
  Creating a mutex: the return codes of \<open>pthread_mutexattr_init\<close>, \<open>..._settype\<close>,
  \<open>pthread_mutex_init\<close> and \<open>pthread_mutexattr_destroy\<close>, the last only reported.
\<close>

definition thread_mutex_create :: "int \<Rightarrow> int \<Rightarrow> int \<Rightarrow> int \<Rightarrow> int" where
  "thread_mutex_create attr_init settype init attr_destroy =
     (if attr_init \<noteq> 0 then T_ERROR
      else if settype \<noteq> 0 then T_ERROR
      else if init \<noteq> 0 then T_ERROR
      else if attr_destroy \<noteq> 0 then T_OK else T_OK)"

definition thread_mutex_destroy :: "int \<Rightarrow> int" where
  "thread_mutex_destroy err = (if err \<noteq> 0 then T_ERROR else T_OK)"

definition thread_mutex_lock :: "int \<Rightarrow> int" where
  "thread_mutex_lock err = (if err = 0 then T_OK else T_ERROR)"

definition thread_mutex_unlock :: "int \<Rightarrow> int" where
  "thread_mutex_unlock err = (if err = 0 then T_OK else T_ERROR)"

definition thread_cond_create :: "int \<Rightarrow> int" where
  "thread_cond_create err = (if err = 0 then T_OK else T_ERROR)"

definition thread_cond_destroy :: "int \<Rightarrow> int" where
  "thread_cond_destroy err = (if err = 0 then T_OK else T_ERROR)"

definition thread_cond_signal :: "int \<Rightarrow> int" where
  "thread_cond_signal err = (if err = 0 then T_OK else T_ERROR)"

definition thread_cond_wait :: "int \<Rightarrow> int" where
  "thread_cond_wait err = (if err = 0 then T_OK else T_ERROR)"

lemma wrapper_ok [simp]:
  "thread_mutex_lock e = T_OK \<longleftrightarrow> e = 0" "thread_mutex_unlock e = T_OK \<longleftrightarrow> e = 0"
  "thread_cond_signal e = T_OK \<longleftrightarrow> e = 0" "thread_cond_wait e = T_OK \<longleftrightarrow> e = 0"
  "thread_cond_create e = T_OK \<longleftrightarrow> e = 0" "thread_cond_destroy e = T_OK \<longleftrightarrow> e = 0"
  "thread_mutex_destroy e = T_OK \<longleftrightarrow> e = 0"
  by (simp_all add: thread_mutex_lock_def thread_mutex_unlock_def thread_cond_signal_def
      thread_cond_wait_def thread_cond_create_def thread_cond_destroy_def thread_mutex_destroy_def)

subsection \<open>The pool\<close>

definition DEFAULT_THREADS_NUM :: nat where
  "DEFAULT_THREADS_NUM = 4"

definition DEFAULT_QUEUE_NUM :: int where
  "DEFAULT_QUEUE_NUM = 65535"

text \<open>The function a task runs.\<close>

datatype thandler = NoHandler | SvcHandler | ExitHandler

record 'c thread_task =
  task_next :: ptr
  task_id :: u64
  task_ctx :: "'c option"
  task_handler :: thandler

text \<open>What \<open>queue.last\<close> points to: the field \<open>queue.first\<close> or the \<open>next\<close> of a task.\<close>

datatype link = FirstLink | NextLink nat

text \<open>
  \<open>tasks\<close> is the heap of tasks with its allocation counter; \<open>pool_task_id\<close> the global counter
  \<open>thread_pool_task_id\<close>. \<open>waiting\<close> is a signed counter.
\<close>

record 'c thread_pool =
  tasks :: "nat \<rightharpoonup> 'c thread_task"
  next_task :: nat
  q_first :: ptr
  q_last :: link
  waiting :: int
  pool_name :: string
  threads :: nat
  max_queue :: int
  pool_task_id :: u64

text \<open>A zeroed pool, as \<open>calloc\<close> returns it; the heap is that of the whole program.\<close>

definition calloc_pool :: "(nat \<rightharpoonup> 'c thread_task) \<Rightarrow> nat \<Rightarrow> u64 \<Rightarrow> 'c thread_pool" where
  "calloc_pool h n tid = \<lparr>tasks = h, next_task = n, q_first = Null, q_last = FirstLink, waiting = 0,
     pool_name = [], threads = 0, max_queue = 0, pool_task_id = tid\<rparr>"

definition thread_pool_init_default :: "string option \<Rightarrow> 'c thread_pool \<Rightarrow> 'c thread_pool" where
  "thread_pool_init_default nm tp =
     tp\<lparr>threads := DEFAULT_THREADS_NUM, max_queue := DEFAULT_QUEUE_NUM,
        pool_name := (case nm of None \<Rightarrow> ''default'' | Some s \<Rightarrow> s)\<rparr>"

definition thread_pool_queue_init :: "'c thread_pool \<Rightarrow> 'c thread_pool" where
  "thread_pool_queue_init tp = tp\<lparr>q_first := Null, q_last := FirstLink\<rparr>"

subsection \<open>Tasks\<close>

text \<open>\<open>calloc_ok\<close>: whether \<open>calloc\<close> found memory. \<open>ctx\<close> points behind the task: no event yet.\<close>

definition thread_task_alloc :: "bool \<Rightarrow> 'c thread_pool \<Rightarrow> ptr \<times> 'c thread_pool" where
  "thread_task_alloc calloc_ok tp =
     (if \<not> calloc_ok then (Null, tp)
      else (Ptr (next_task tp),
        tp\<lparr>tasks := (tasks tp)(next_task tp \<mapsto>
             \<lparr>task_next = Null, task_id = 0, task_ctx = None, task_handler = NoHandler\<rparr>),
           next_task := next_task tp + 1\<rparr>))"

definition thread_task_free :: "ptr \<Rightarrow> 'c thread_pool \<Rightarrow> 'c thread_pool res" where
  "thread_task_free p tp = (case p of
      Null \<Rightarrow> Inr tp
    | Ptr a \<Rightarrow> bindR (deref (tasks tp) (Ptr a)) (\<lambda>_. Inr (tp\<lparr>tasks := (tasks tp)(a := None)\<rparr>)))"

text \<open>Writing through a task pointer, and through \<open>queue.last\<close>.\<close>

definition upd_task ::
    "ptr \<Rightarrow> ('c thread_task \<Rightarrow> 'c thread_task) \<Rightarrow> 'c thread_pool \<Rightarrow> 'c thread_pool res" where
  "upd_task p f tp = (case p of
      Null \<Rightarrow> Inl NullDeref
    | Ptr a \<Rightarrow> bindR (deref (tasks tp) (Ptr a)) (\<lambda>t. Inr (tp\<lparr>tasks := (tasks tp)(a \<mapsto> f t)\<rparr>)))"

definition store_link :: "link \<Rightarrow> ptr \<Rightarrow> 'c thread_pool \<Rightarrow> 'c thread_pool res" where
  "store_link l p tp = (case l of
      FirstLink \<Rightarrow> Inr (tp\<lparr>q_first := p\<rparr>)
    | NextLink a \<Rightarrow> upd_task (Ptr a) (\<lambda>t. t\<lparr>task_next := p\<rparr>) tp)"

definition link_of :: "ptr \<Rightarrow> link" where
  "link_of p = (case p of Null \<Rightarrow> FirstLink | Ptr a \<Rightarrow> NextLink a)"

text \<open>
  Posting: \<open>lock_rc\<close> and \<open>signal_rc\<close> are the return codes of \<open>pthread_mutex_lock\<close> and
  \<open>pthread_cond_signal\<close>. The identifier and the \<open>next\<close> field are written before the signal.
\<close>

definition thread_task_post :: "int \<Rightarrow> int \<Rightarrow> ptr \<Rightarrow> 'c thread_pool \<Rightarrow> (int \<times> 'c thread_pool) res" where
  "thread_task_post lock_rc signal_rc task tp =
     (if thread_mutex_lock lock_rc \<noteq> T_OK then Inr (T_ERROR, tp)
      else if waiting tp \<ge> max_queue tp then Inr (T_ERROR, tp)
      else
        bindR (upd_task task (\<lambda>t. t\<lparr>task_id := pool_task_id tp, task_next := Null\<rparr>)
            (tp\<lparr>pool_task_id := pool_task_id tp + 1\<rparr>)) (\<lambda>tp1.
          if thread_cond_signal signal_rc \<noteq> T_OK then Inr (T_ERROR, tp1)
          else bindR (store_link (q_last tp1) task tp1) (\<lambda>tp2.
            Inr (T_OK, tp2\<lparr>q_last := link_of task, waiting := waiting tp2 + 1\<rparr>))))"

text \<open>
  The critical section of the worker loop: the counter goes down on entry; when there is a task it
  is unlinked.
\<close>

definition cycle_enter :: "'c thread_pool \<Rightarrow> 'c thread_pool" where
  "cycle_enter tp = tp\<lparr>waiting := waiting tp - 1\<rparr>"

definition cycle_take :: "'c thread_pool \<Rightarrow> (ptr \<times> 'c thread_pool) res" where
  "cycle_take tp = (let task = q_first tp in
     bindR (deref (tasks tp) task) (\<lambda>t.
       (let tp1 = tp\<lparr>q_first := task_next t\<rparr>
        in if q_first tp1 = Null then Inr (task, tp1\<lparr>q_last := FirstLink\<rparr>)
           else Inr (task, tp1))))"

text \<open>After the handler returned: \<open>task->next = NULL\<close> and the task is freed.\<close>

definition cycle_finish :: "ptr \<Rightarrow> 'c thread_pool \<Rightarrow> 'c thread_pool res" where
  "cycle_finish task tp =
     bindR (upd_task task (\<lambda>t. t\<lparr>task_next := Null\<rparr>) tp) (\<lambda>tp1. thread_task_free task tp1)"

subsection \<open>The list a linked queue holds\<close>

fun task_path :: "(nat \<rightharpoonup> 'c thread_task) \<Rightarrow> ptr \<Rightarrow> nat list \<Rightarrow> bool" where
  "task_path h p [] \<longleftrightarrow> p = Null"
| "task_path h p (a # as) \<longleftrightarrow>
     p = Ptr a \<and> (\<exists>t. h a = Some t \<and> task_path h (task_next t) as)"

definition queue_path :: "'c thread_pool \<Rightarrow> nat list \<Rightarrow> bool" where
  "queue_path tp as \<longleftrightarrow>
     task_path (tasks tp) (q_first tp) as \<and> distinct as \<and>
     q_last tp = (if as = [] then FirstLink else NextLink (last as))"

lemma task_path_alloc: "task_path h p as \<Longrightarrow> a \<in> set as \<Longrightarrow> h a \<noteq> None"
  by (induction as arbitrary: p) auto

lemma task_path_upd: "a \<notin> set as \<Longrightarrow> task_path (h(a := x)) p as = task_path h p as"
  by (induction as arbitrary: p) auto

lemma task_path_same_next:
  "h a = Some t \<Longrightarrow> task_next t' = task_next t \<Longrightarrow> task_path (h(a \<mapsto> t')) p as = task_path h p as"
  by (induction as arbitrary: p) auto

lemma task_path_snoc:
  assumes "task_path h p as" and "as \<noteq> []" and "distinct as" and "a \<notin> set as"
    and "h a = Some t" and "task_next t = Null" and "h (last as) = Some l"
  shows "task_path (h(last as \<mapsto> l\<lparr>task_next := Ptr a\<rparr>)) p (as @ [a])"
  using assms
proof (induction as arbitrary: p)
  case (Cons b bs)
  show ?case
  proof (cases "bs = []")
    case True
    with Cons.prems show ?thesis by auto
  next
    case False
    with Cons.prems have "last bs \<in> set bs" "last bs \<noteq> b" by auto
    with False Cons show ?thesis by auto
  qed
qed simp

lemma queue_path_Nil [simp]: "queue_path tp [] \<longleftrightarrow> q_first tp = Null \<and> q_last tp = FirstLink"
  by (auto simp: queue_path_def)

lemma queue_path_first: "queue_path tp as \<Longrightarrow> q_first tp = Null \<longleftrightarrow> as = []"
  by (cases as) (auto simp: queue_path_def)

subsection \<open>Posting and taking on the linked queue\<close>

text \<open>What a task is about: its context and handler, which the queue operations never change.\<close>

definition task_job :: "'c thread_pool \<Rightarrow> nat \<Rightarrow> ('c option \<times> thandler) option" where
  "task_job tp a = map_option (\<lambda>t. (task_ctx t, task_handler t)) (tasks tp a)"

text \<open>The fields an operation on the queue leaves alone.\<close>

definition same_frame :: "'c thread_pool \<Rightarrow> 'c thread_pool \<Rightarrow> bool" where
  "same_frame tp tp' \<longleftrightarrow> task_job tp' = task_job tp \<and> next_task tp' = next_task tp \<and>
     max_queue tp' = max_queue tp \<and> threads tp' = threads tp \<and> pool_name tp' = pool_name tp"

lemma same_frame_refl [simp]: "same_frame tp tp"
  by (simp add: same_frame_def)

lemma same_frame_trans: "same_frame tp1 tp2 \<Longrightarrow> same_frame tp2 tp3 \<Longrightarrow> same_frame tp1 tp3"
  by (simp add: same_frame_def)

lemma same_frame_jobs: "same_frame tp tp' \<Longrightarrow> map (task_job tp') as = map (task_job tp) as"
  by (simp add: same_frame_def)

lemma upd_task_ok:
  assumes "tasks tp a = Some t"
  shows "upd_task (Ptr a) f tp = Inr (tp\<lparr>tasks := (tasks tp)(a \<mapsto> f t)\<rparr>)"
  using assms by (simp add: upd_task_def)

lemma task_job_upd:
  "tasks tp a = Some t \<Longrightarrow> task_ctx t' = task_ctx t \<Longrightarrow> task_handler t' = task_handler t \<Longrightarrow>
   task_job (tp\<lparr>tasks := (tasks tp)(a \<mapsto> t')\<rparr>) = task_job tp"
  by (auto simp: task_job_def fun_eq_iff)

lemma task_jobs_fresh:
  assumes "tasks tp' = (tasks tp)(a := x)" and "a \<notin> set as"
  shows "map (task_job tp') as = map (task_job tp) as"
  using assms by (auto simp: task_job_def)

lemma post_overflow:
  "max_queue tp \<le> waiting tp \<Longrightarrow> thread_task_post 0 sg task tp = Inr (T_ERROR, tp)"
  by (simp add: thread_task_post_def)

lemma post_link:
  assumes "queue_path tp as" and "a \<notin> set as" and "tasks tp a = Some t" and "task_next t = Null"
  obtains tp' where "store_link (q_last tp) (Ptr a) tp = Inr tp'"
    and "queue_path (tp'\<lparr>q_last := NextLink a\<rparr>) (as @ [a])" and "same_frame tp tp'"
    and "waiting tp' = waiting tp" and "pool_task_id tp' = pool_task_id tp"
proof (cases "as = []")
  case True
  with assms(1) have "q_last tp = FirstLink" by simp
  then have "store_link (q_last tp) (Ptr a) tp = Inr (tp\<lparr>q_first := Ptr a\<rparr>)"
    by (simp add: store_link_def)
  moreover have "queue_path (tp\<lparr>q_first := Ptr a, q_last := NextLink a\<rparr>) (as @ [a])"
    using True assms(3,4) by (simp add: queue_path_def)
  ultimately show thesis
    using that [of "tp\<lparr>q_first := Ptr a\<rparr>"] by (simp add: same_frame_def task_job_def fun_eq_iff)
next
  case False
  note path = assms(1) [unfolded queue_path_def]
  from False have "last as \<in> set as" by simp
  with path obtain l where l: "tasks tp (last as) = Some l"
    using task_path_alloc by blast
  let ?tp = "tp\<lparr>tasks := (tasks tp)(last as \<mapsto> l\<lparr>task_next := Ptr a\<rparr>)\<rparr>"
  have "store_link (q_last tp) (Ptr a) tp = Inr ?tp"
    using path False l by (simp add: store_link_def upd_task_ok)
  moreover have "queue_path (?tp\<lparr>q_last := NextLink a\<rparr>) (as @ [a])"
    using path False assms(2-4) l task_path_snoc [of "tasks tp" "q_first tp" as a t l]
    by (simp add: queue_path_def)
  moreover have "same_frame tp ?tp"
    using task_job_upd [OF l, of "l\<lparr>task_next := Ptr a\<rparr>"] by (simp add: same_frame_def)
  ultimately show thesis using that [of ?tp] by simp
qed

lemma post_ok:
  assumes "queue_path tp as" and "a \<notin> set as" and "tasks tp a = Some t" and "waiting tp < max_queue tp"
  obtains tp' where "thread_task_post 0 0 (Ptr a) tp = Inr (T_OK, tp')" and "queue_path tp' (as @ [a])"
    and "same_frame tp tp'" and "waiting tp' = waiting tp + 1"
    and "pool_task_id tp' = pool_task_id tp + 1"
proof -
  let ?t = "t\<lparr>task_id := pool_task_id tp, task_next := Null\<rparr>"
  let ?tp1 = "tp\<lparr>pool_task_id := pool_task_id tp + 1, tasks := (tasks tp)(a \<mapsto> ?t)\<rparr>"
  have path1: "queue_path ?tp1 as"
    using assms(1,2) by (simp add: queue_path_def task_path_upd)
  have frame1: "same_frame tp ?tp1"
    using assms(3) by (auto simp: same_frame_def task_job_def fun_eq_iff)
  obtain tp2 where tp2: "store_link (q_last ?tp1) (Ptr a) ?tp1 = Inr tp2"
      "queue_path (tp2\<lparr>q_last := NextLink a\<rparr>) (as @ [a])" "same_frame ?tp1 tp2"
      "waiting tp2 = waiting ?tp1" "pool_task_id tp2 = pool_task_id ?tp1"
    using post_link [OF path1 assms(2), of ?t] by auto
  let ?tp' = "tp2\<lparr>q_last := NextLink a, waiting := waiting tp2 + 1\<rparr>"
  have "thread_task_post 0 0 (Ptr a) tp = Inr (T_OK, ?tp')"
    using assms(3,4) tp2(1) by (simp add: thread_task_post_def upd_task_ok link_of_def)
  moreover have "queue_path ?tp' (as @ [a])"
    using tp2(2) by (simp add: queue_path_def)
  moreover have "same_frame tp ?tp'"
    using same_frame_trans [OF frame1 tp2(3)] by (simp add: same_frame_def task_job_def fun_eq_iff)
  ultimately show thesis using that tp2(4,5) by simp
qed

lemma take_ok:
  assumes "queue_path tp (a # as)"
  obtains tp' where "cycle_take tp = Inr (Ptr a, tp')" and "queue_path tp' as"
    and "tasks tp' = tasks tp" and "same_frame tp tp'" and "waiting tp' = waiting tp"
    and "pool_task_id tp' = pool_task_id tp"
proof -
  from assms obtain t where t: "q_first tp = Ptr a" "tasks tp a = Some t"
      "task_path (tasks tp) (task_next t) as" "distinct as"
      "q_last tp = NextLink (if as = [] then a else last as)"
    by (auto simp: queue_path_def)
  let ?tp1 = "tp\<lparr>q_first := task_next t\<rparr>"
  let ?tp' = "if task_next t = Null then ?tp1\<lparr>q_last := FirstLink\<rparr> else ?tp1"
  have "cycle_take tp = Inr (Ptr a, ?tp')"
    using t(1,2) by (simp add: cycle_take_def Let_def)
  moreover have "task_next t = Null \<longleftrightarrow> as = []"
    using t(3) by (cases as) auto
  then have "queue_path ?tp' as"
    using t(3-5) by (simp add: queue_path_def)
  ultimately show thesis
    by (rule that) (simp_all add: same_frame_def task_job_def fun_eq_iff)
qed

lemma take_empty: "queue_path tp [] \<Longrightarrow> cycle_take tp = Inl NullDeref"
  by (simp add: cycle_take_def Let_def)

lemma finish_ok:
  assumes "queue_path tp as" and "a \<notin> set as" and "tasks tp a = Some t"
  shows "cycle_finish (Ptr a) tp = Inr (tp\<lparr>tasks := (tasks tp)(a := None)\<rparr>)"
    and "queue_path (tp\<lparr>tasks := (tasks tp)(a := None)\<rparr>) as"
  using assms by (simp_all add: cycle_finish_def upd_task_def thread_task_free_def
      queue_path_def task_path_upd)

subsection \<open>The queue of posted jobs\<close>

text \<open>
  The way the pool is used: \<open>DispatchMsgService::enqueue\<close> allocates a task, stores its handler and
  context and posts it. A refused task is not freed.
\<close>

definition enqueue :: "bool \<Rightarrow> int \<Rightarrow> int \<Rightarrow> 'c option \<Rightarrow> 'c thread_pool \<Rightarrow> (int \<times> 'c thread_pool) res" where
  "enqueue calloc_ok lock_rc signal_rc ev tp = (case ev of
      None \<Rightarrow> Inr (-1, tp)
    | Some e \<Rightarrow>
       (let (task, tp1) = thread_task_alloc calloc_ok tp in
        bindR (upd_task task (\<lambda>t. t\<lparr>task_handler := SvcHandler\<rparr>) tp1) (\<lambda>tp2.
        bindR (upd_task task (\<lambda>t. t\<lparr>task_ctx := Some e\<rparr>) tp2) (\<lambda>tp3.
          thread_task_post lock_rc signal_rc task tp3))))"

text \<open>
  A worker's round without blocking: take the first task if there is one, and free it once its
  handler, which gets the context, is done.
\<close>

definition take_job :: "'c thread_pool \<Rightarrow> ('c option \<times> 'c thread_pool) res" where
  "take_job tp =
     (if q_first tp = Null then Inr (None, tp)
      else bindR (cycle_take (cycle_enter tp)) (\<lambda>(task, tp1).
        bindR (deref (tasks tp1) task) (\<lambda>t.
        bindR (cycle_finish task tp1) (\<lambda>tp2. Inr (task_ctx t, tp2)))))"

text \<open>
  The pool holds the jobs \<open>cs\<close>: the queued tasks are live, run the service handler and carry
  \<open>cs\<close> in order; every live task lies below the allocation counter.
\<close>

definition holds :: "'c thread_pool \<Rightarrow> 'c list \<Rightarrow> bool" where
  "holds tp cs \<longleftrightarrow> (\<exists>as. queue_path tp as \<and>
     map (task_job tp) as = map (\<lambda>c. Some (Some c, SvcHandler)) cs \<and>
     (\<forall>a. tasks tp a \<noteq> None \<longrightarrow> a < next_task tp))"

lemma task_job_None: "task_job tp a = None \<longleftrightarrow> tasks tp a = None"
  by (simp add: task_job_def)

lemma enqueue_alloc:
  assumes "holds tp cs"
  obtains as tp1 t where "enqueue True 0 0 (Some c) tp = thread_task_post 0 0 (Ptr (next_task tp)) tp1"
    and "queue_path tp1 as" and "next_task tp \<notin> set as" and "tasks tp1 (next_task tp) = Some t"
    and "map (task_job tp1) as = map (\<lambda>c. Some (Some c, SvcHandler)) cs"
    and "task_job tp1 (next_task tp) = Some (Some c, SvcHandler)"
    and "\<forall>a. tasks tp1 a \<noteq> None \<longrightarrow> a < next_task tp1"
    and "waiting tp1 = waiting tp" and "max_queue tp1 = max_queue tp" and "threads tp1 = threads tp"
proof -
  from assms obtain as where as: "queue_path tp as"
      "map (task_job tp) as = map (\<lambda>c. Some (Some c, SvcHandler)) cs"
      "\<forall>a. tasks tp a \<noteq> None \<longrightarrow> a < next_task tp"
    unfolding holds_def by blast
  let ?n = "next_task tp"
  let ?t = "\<lparr>task_next = Null, task_id = 0, task_ctx = Some c, task_handler = SvcHandler\<rparr>"
  let ?tp = "tp\<lparr>next_task := ?n + 1, tasks := (tasks tp)(?n \<mapsto> ?t)\<rparr>"
  have fresh: "?n \<notin> set as"
    using as(1,3) task_path_alloc [of "tasks tp" "q_first tp" as ?n] unfolding queue_path_def by blast
  show thesis
  proof (rule that [of ?tp as ?t])
    show "enqueue True 0 0 (Some c) tp = thread_task_post 0 0 (Ptr ?n) ?tp"
      by (simp add: enqueue_def thread_task_alloc_def upd_task_def)
    show "queue_path ?tp as"
      using as(1) fresh by (simp add: queue_path_def task_path_upd)
    show "map (task_job ?tp) as = map (\<lambda>c. Some (Some c, SvcHandler)) cs"
      using task_jobs_fresh [of ?tp tp ?n "Some ?t" as] as(2) fresh by simp
    show "task_job ?tp ?n = Some (Some c, SvcHandler)" by (simp add: task_job_def)
    show "\<forall>a. tasks ?tp a \<noteq> None \<longrightarrow> a < next_task ?tp"
      using as(3) by (simp add: less_Suc_eq)
  qed (use fresh in simp_all)
qed

lemma holds_enqueue_ok:
  assumes "holds tp cs" and "waiting tp < max_queue tp"
  obtains tp' where "enqueue True 0 0 (Some c) tp = Inr (T_OK, tp')" and "holds tp' (cs @ [c])"
    and "max_queue tp' = max_queue tp" and "threads tp' = threads tp"
    and "waiting tp' = waiting tp + 1"
proof -
  obtain as tp1 t where
    enq: "enqueue True 0 0 (Some c) tp = thread_task_post 0 0 (Ptr (next_task tp)) tp1" and
    path: "queue_path tp1 as" and fresh: "next_task tp \<notin> set as" and
    t: "tasks tp1 (next_task tp) = Some t" and
    jobs: "map (task_job tp1) as = map (\<lambda>c. Some (Some c, SvcHandler)) cs" and
    job: "task_job tp1 (next_task tp) = Some (Some c, SvcHandler)" and
    bound: "\<forall>a. tasks tp1 a \<noteq> None \<longrightarrow> a < next_task tp1" and
    fr: "waiting tp1 = waiting tp" "max_queue tp1 = max_queue tp" "threads tp1 = threads tp"
    using enqueue_alloc [OF assms(1)] .
  have "waiting tp1 < max_queue tp1" using assms(2) fr by simp
  then obtain tp' where tp': "thread_task_post 0 0 (Ptr (next_task tp)) tp1 = Inr (T_OK, tp')"
      "queue_path tp' (as @ [next_task tp])" "same_frame tp1 tp'" "waiting tp' = waiting tp1 + 1"
    using post_ok [OF path fresh t] by blast
  have same: "task_job tp' = task_job tp1" "next_task tp' = next_task tp1"
      "max_queue tp' = max_queue tp1" "threads tp' = threads tp1"
    using tp'(3) unfolding same_frame_def by blast+
  have "holds tp' (cs @ [c])"
    unfolding holds_def
  proof (intro exI conjI)
    show "map (task_job tp') (as @ [next_task tp]) = map (\<lambda>c. Some (Some c, SvcHandler)) (cs @ [c])"
      using jobs job by (simp add: same)
    show "\<forall>a. tasks tp' a \<noteq> None \<longrightarrow> a < next_task tp'"
      using bound same by (metis task_job_None)
  qed (rule tp'(2))
  with that [of tp'] enq tp'(1,4) same fr show thesis by simp
qed

lemma holds_enqueue_full:
  assumes "holds tp cs" and "max_queue tp \<le> waiting tp"
  obtains tp' where "enqueue True 0 0 (Some c) tp = Inr (T_ERROR, tp')" and "holds tp' cs"
    and "max_queue tp' = max_queue tp" and "threads tp' = threads tp" and "waiting tp' = waiting tp"
    and "tasks tp' (next_task tp) \<noteq> None"
proof -
  obtain as tp1 t where
    enq: "enqueue True 0 0 (Some c) tp = thread_task_post 0 0 (Ptr (next_task tp)) tp1" and
    path: "queue_path tp1 as" and t: "tasks tp1 (next_task tp) = Some t" and
    jobs: "map (task_job tp1) as = map (\<lambda>c. Some (Some c, SvcHandler)) cs" and
    bound: "\<forall>a. tasks tp1 a \<noteq> None \<longrightarrow> a < next_task tp1" and
    fr: "waiting tp1 = waiting tp" "max_queue tp1 = max_queue tp" "threads tp1 = threads tp"
    using enqueue_alloc [OF assms(1)] .
  have "holds tp1 cs" unfolding holds_def using path jobs bound by blast
  moreover have "max_queue tp1 \<le> waiting tp1" using assms(2) fr by simp
  then have "thread_task_post 0 0 (Ptr (next_task tp)) tp1 = Inr (T_ERROR, tp1)"
    by (rule post_overflow)
  ultimately show thesis using that [of tp1] enq t fr by simp
qed

lemma holds_take_nil: "holds tp [] \<Longrightarrow> take_job tp = Inr (None, tp)"
  by (auto simp: holds_def take_job_def)

lemma holds_take_cons:
  assumes "holds tp (c # cs)"
  shows "\<exists>tp'. take_job tp = Inr (Some c, tp') \<and> holds tp' cs \<and> waiting tp' = waiting tp - 1 \<and>
    max_queue tp' = max_queue tp \<and> threads tp' = threads tp"
proof -
  from assms obtain a as where as: "queue_path tp (a # as)" "task_job tp a = Some (Some c, SvcHandler)"
      "map (task_job tp) as = map (\<lambda>c. Some (Some c, SvcHandler)) cs"
      "\<forall>a. tasks tp a \<noteq> None \<longrightarrow> a < next_task tp"
    by (auto simp: holds_def map_eq_Cons_conv)
  from as(1) have ne: "q_first tp \<noteq> Null" and fresh: "a \<notin> set as"
    by (auto simp: queue_path_def)
  have "queue_path (cycle_enter tp) (a # as)"
    using as(1) by (simp add: queue_path_def cycle_enter_def)
  then obtain tp1 where tp1: "cycle_take (cycle_enter tp) = Inr (Ptr a, tp1)" "queue_path tp1 as"
      "tasks tp1 = tasks (cycle_enter tp)" "same_frame (cycle_enter tp) tp1"
      "waiting tp1 = waiting (cycle_enter tp)"
    by (rule take_ok)
  have heap: "tasks tp1 = tasks tp" using tp1(3) by (simp add: cycle_enter_def)
  obtain t where t: "tasks tp a = Some t" "task_ctx t = Some c"
    using as(2) by (auto simp: task_job_def)
  let ?tp2 = "tp1\<lparr>tasks := (tasks tp1)(a := None)\<rparr>"
  have fin: "cycle_finish (Ptr a) tp1 = Inr ?tp2" "queue_path ?tp2 as"
    using finish_ok [OF tp1(2) fresh] t(1) heap by simp_all
  have "take_job tp = Inr (Some c, ?tp2)"
    using ne tp1(1) fin(1) t heap by (simp add: take_job_def)
  moreover have "holds ?tp2 cs"
    unfolding holds_def
  proof (intro exI conjI)
    show "map (task_job ?tp2) as = map (\<lambda>c. Some (Some c, SvcHandler)) cs"
      using task_jobs_fresh [of ?tp2 tp a None as] heap fresh as(3) by simp
    have "next_task ?tp2 = next_task tp"
      using tp1(4) by (simp add: same_frame_def cycle_enter_def)
    then show "\<forall>b. tasks ?tp2 b \<noteq> None \<longrightarrow> b < next_task ?tp2"
      using as(4) heap by simp
  qed (rule fin(2))
  moreover have "waiting ?tp2 = waiting tp - 1 \<and> max_queue ?tp2 = max_queue tp \<and>
      threads ?tp2 = threads tp"
    using tp1(4,5) by (simp add: same_frame_def cycle_enter_def)
  ultimately show ?thesis by blast
qed

definition push_job :: "'c \<Rightarrow> 'c thread_pool \<Rightarrow> (bool \<times> 'c thread_pool) res" where
  "push_job c tp = bindR (enqueue True 0 0 (Some c) tp) (\<lambda>(rc, tp'). Inr (rc = T_OK, tp'))"

lemma push_job_law:
  assumes "holds tp cs"
  shows "\<exists>b tp'. push_job c tp = Inr (b, tp') \<and> holds tp' (if b then cs @ [c] else cs)"
proof (cases "waiting tp < max_queue tp")
  case True
  obtain tp' where "enqueue True 0 0 (Some c) tp = Inr (T_OK, tp')" "holds tp' (cs @ [c])"
    using holds_enqueue_ok [OF assms True] .
  then show ?thesis by (intro exI [of _ True] exI [of _ tp']) (simp add: push_job_def)
next
  case False
  then have "max_queue tp \<le> waiting tp" by simp
  then obtain tp' where "enqueue True 0 0 (Some c) tp = Inr (T_ERROR, tp')" "holds tp' cs"
    using holds_enqueue_full [OF assms] by blast
  then show ?thesis by (intro exI [of _ False] exI [of _ tp']) (simp add: push_job_def)
qed

lemma take_job_law_nil:
  assumes "holds tp []"
  shows "\<exists>tp'. take_job tp = Inr (None, tp') \<and> holds tp' []"
  by (intro exI [of _ tp] conjI holds_take_nil assms)

lemma take_job_law_cons:
  assumes "holds tp (c # cs)"
  shows "\<exists>tp'. take_job tp = Inr (Some c, tp') \<and> holds tp' cs"
  using holds_take_cons [OF assms] by (elim exE conjE) (intro exI conjI)

interpretation tq: fifo holds push_job take_job
  by (rule fifo.intro) (rule push_job_law take_job_law_nil take_job_law_cons; assumption)+

text \<open>A pool just initialised holds nothing.\<close>

definition fresh_pool :: "'c thread_pool" where
  "fresh_pool = thread_pool_queue_init (thread_pool_init_default None (calloc_pool Map.empty 0 0))"

lemma fresh_pool_holds: "holds fresh_pool []"
  by (simp add: holds_def fresh_pool_def thread_pool_queue_init_def thread_pool_init_default_def
      calloc_pool_def)

text \<open>One that admits nothing.\<close>

definition full_pool :: "string thread_pool" where
  "full_pool = fresh_pool\<lparr>max_queue := 0, waiting := 0\<rparr>"

lemma full_pool_holds: "holds full_pool []"
  using fresh_pool_holds by (simp add: holds_def full_pool_def)

text \<open>
  C9. The linked task queue with its pointer to the last link is a first-in-first-out queue: over
  any sequence of posts and takes no access faults, and the jobs that were queued followed by the
  ones that were accepted are exactly the jobs taken followed by the ones still queued, in order.
\<close>

theorem task_queue_fifo:
  assumes "holds tp cs"
  shows "\<exists>out acc tp' rest. run_ops push_job take_job ops tp = Inr (out, acc, tp') \<and>
     holds tp' rest \<and> cs @ acc = out @ rest"
  using tq.fifo_order [OF assms] .

theorem task_queue_fifo_witness:
  "\<exists>out acc tp' rest. run_ops push_job take_job [Push ''a'', Push ''b'', Pop, Push ''c'', Pop] fresh_pool
       = Inr (out, acc, tp') \<and>
     holds tp' rest \<and> [] @ acc = out @ rest"
  by (rule task_queue_fifo) (rule fresh_pool_holds)

text \<open>
  Posting is refused exactly when the waiting counter has reached the limit; a refused post
  leaves the queue as it was but does not free the task it allocated, which stays on the heap
  outside the queue.
\<close>

theorem enqueue_overflow:
  assumes "holds tp cs" and "max_queue tp \<le> waiting tp"
  shows "\<exists>tp'. enqueue True 0 0 (Some c) tp = Inr (T_ERROR, tp') \<and> holds tp' cs \<and>
     tasks tp (next_task tp) = None \<and> tasks tp' (next_task tp) \<noteq> None \<and> waiting tp' = waiting tp"
proof -
  obtain tp' where "enqueue True 0 0 (Some c) tp = Inr (T_ERROR, tp')" "holds tp' cs"
      "waiting tp' = waiting tp" "tasks tp' (next_task tp) \<noteq> None"
    using holds_enqueue_full [OF assms] .
  moreover have "tasks tp (next_task tp) = None"
    using assms(1) unfolding holds_def by blast
  ultimately show ?thesis by blast
qed

theorem enqueue_overflow_witness:
  "\<exists>tp'. enqueue True 0 0 (Some ''job'') full_pool = Inr (T_ERROR, tp') \<and> holds tp' [] \<and>
     tasks full_pool (next_task full_pool) = None \<and> tasks tp' (next_task full_pool) \<noteq> None \<and>
     waiting tp' = waiting full_pool"
  by (rule enqueue_overflow) (rule full_pool_holds, simp add: full_pool_def)

end
