(* ===== verification/ThreadPool.thy ===== *)
theory ThreadPool
  imports TaskQueue
begin

text \<open>
  \<^verbatim>\<open>src/src/threadpool/thread_pool.cc\<close> as a system of threads: creating the pool, the loop of
  its workers, the clients that post and the main thread that destroys it. Every access to the
  pool is inside its mutex, so a step is one critical section; the pthread calls of a running pool
  succeed. \<open>cond_wait\<close> ends the section with the worker blocked; a signal, or a spurious wake-up,
  makes it contend for the mutex again.
\<close>

subsection \<open>Creating the pool\<close>

text \<open>The results of the calls \<open>thread_pool_init\<close> makes, in its order.\<close>

record init_rc =
  rc_calloc :: bool
  rc_mattr_init :: int
  rc_mattr_settype :: int
  rc_mutex_init :: int
  rc_mattr_destroy :: int
  rc_cond_init :: int
  rc_attr_init :: int
  rc_attr_detach :: int
  rc_create :: "nat \<Rightarrow> int"

text \<open>The creation loop: whether it finished, and how many threads were started.\<close>

function create_threads :: "(nat \<Rightarrow> int) \<Rightarrow> nat \<Rightarrow> nat \<Rightarrow> bool \<times> nat" where
  "create_threads rc n tot =
     (if n < tot then (if rc n \<noteq> 0 then (False, n) else create_threads rc (Suc n) tot)
      else (True, n))"
  by pat_completeness auto
termination
  by (relation "measure (\<lambda>(rc, n, tot). tot - n)") auto

declare create_threads.simps [simp del]

text \<open>
  The pool, or \<open>None\<close> for a returned \<open>NULL\<close> (the pool freed), with the number of threads that
  are running on it. A failed \<open>calloc\<close> is only reported: the queue is then initialised through
  the null pointer.
\<close>

definition thread_pool_init ::
    "init_rc \<Rightarrow> (nat \<rightharpoonup> 'c thread_task) \<Rightarrow> nat \<Rightarrow> u64 \<Rightarrow> ('c thread_pool option \<times> nat) res" where
  "thread_pool_init rc h nt tid =
     (if \<not> rc_calloc rc then Inl NullDeref
      else (let tp = thread_pool_queue_init (thread_pool_init_default None (calloc_pool h nt tid))
        in if thread_mutex_create (rc_mattr_init rc) (rc_mattr_settype rc) (rc_mutex_init rc)
                (rc_mattr_destroy rc) \<noteq> T_OK then Inr (None, 0)
           else if thread_cond_create (rc_cond_init rc) \<noteq> T_OK then Inr (None, 0)
           else if rc_attr_init rc \<noteq> 0 then Inr (None, 0)
           else if rc_attr_detach rc \<noteq> 0 then Inr (None, 0)
           else (let (ok, n) = create_threads (rc_create rc) 0 (threads tp)
                 in if ok then Inr (Some tp, n) else Inr (None, n))))"

lemma create_threads_ok:
  "n \<le> tot \<Longrightarrow> \<forall>k. n \<le> k \<and> k < tot \<longrightarrow> rc k = 0 \<Longrightarrow> create_threads rc n tot = (True, tot)"
proof (induction rc n tot rule: create_threads.induct)
  case (1 rc n tot)
  then show ?case by (auto simp: create_threads.simps [of rc n tot])
qed

lemma create_threads_fail:
  "n \<le> k \<Longrightarrow> k < tot \<Longrightarrow> rc k \<noteq> 0 \<Longrightarrow> \<forall>j. n \<le> j \<and> j < k \<longrightarrow> rc j = 0 \<Longrightarrow>
   create_threads rc n tot = (False, k)"
proof (induction rc n tot rule: create_threads.induct)
  case (1 rc n tot)
  then show ?case by (cases "n = k") (auto simp: create_threads.simps [of rc n tot] create_threads.simps [of rc k tot])
qed

subsection \<open>Workers, clients and the destroying thread\<close>

text \<open>
  Where a worker is: about to lock, blocked in \<open>cond_wait\<close>, woken and about to re-test the
  queue, running the handler of a task, or gone.
\<close>

datatype wpc = AtLock | Blocked | Woken | HasTask nat | Exited

text \<open>
  Where \<open>thread_pool_destroy\<close> is: not called, before its \<open>n\<close>-th post, spinning on \<open>lock\<close>
  after it, done, or returned early because a post was refused.
\<close>

datatype dpc = NotClosing | Posting nat | Spinning nat | Destroyed | GaveUp

text \<open>
  \<open>exit_task\<close> is the address of the task on the destroying thread's stack; \<open>posted\<close> and
  \<open>started\<close> record the addresses of the tasks posted and taken so far.
\<close>

record 'c psys =
  pool :: "'c thread_pool"
  pcs :: "nat \<Rightarrow> wpc"
  dest :: dpc
  exit_task :: nat
  spin_lock :: bool
  posted :: "nat list"
  started :: "nat list"

text \<open>The task the destroying thread prepares.\<close>

definition exit_task_init :: "'c thread_pool \<Rightarrow> 'c thread_pool" where
  "exit_task_init tp = tp\<lparr>next_task := next_task tp + 1,
     tasks := (tasks tp)(next_task tp \<mapsto>
       \<lparr>task_next = Null, task_id = 0, task_ctx = None, task_handler = ExitHandler\<rparr>)\<rparr>"

definition is_waiting :: "wpc \<Rightarrow> bool" where
  "is_waiting p \<longleftrightarrow> p = Blocked \<or> p = Woken"

definition none_blocked :: "'c psys \<Rightarrow> bool" where
  "none_blocked s \<longleftrightarrow> (\<forall>w < threads (pool s). pcs s w \<noteq> Blocked)"

inductive pstep :: "'c psys \<Rightarrow> 'c psys \<Rightarrow> bool" where
  post_wake: "dest s = NotClosing \<Longrightarrow> enqueue True 0 0 (Some c) (pool s) = Inr (T_OK, tp) \<Longrightarrow>
     w < threads (pool s) \<Longrightarrow> pcs s w = Blocked \<Longrightarrow>
     pstep s (s\<lparr>pool := tp, pcs := (pcs s)(w := Woken), posted := posted s @ [next_task (pool s)]\<rparr>)"
| post_nowake: "dest s = NotClosing \<Longrightarrow> enqueue True 0 0 (Some c) (pool s) = Inr (T_OK, tp) \<Longrightarrow>
     none_blocked s \<Longrightarrow>
     pstep s (s\<lparr>pool := tp, posted := posted s @ [next_task (pool s)]\<rparr>)"
| post_refused: "dest s = NotClosing \<Longrightarrow> enqueue True 0 0 (Some c) (pool s) = Inr (T_ERROR, tp) \<Longrightarrow>
     pstep s (s\<lparr>pool := tp\<rparr>)"
| enter_take: "w < threads (pool s) \<Longrightarrow> pcs s w = AtLock \<Longrightarrow> q_first (pool s) \<noteq> Null \<Longrightarrow>
     cycle_take (cycle_enter (pool s)) = Inr (Ptr a, tp) \<Longrightarrow>
     pstep s (s\<lparr>pool := tp, pcs := (pcs s)(w := HasTask a), started := started s @ [a]\<rparr>)"
| enter_wait: "w < threads (pool s) \<Longrightarrow> pcs s w = AtLock \<Longrightarrow> q_first (pool s) = Null \<Longrightarrow>
     pstep s (s\<lparr>pool := cycle_enter (pool s), pcs := (pcs s)(w := Blocked)\<rparr>)"
| spurious: "w < threads (pool s) \<Longrightarrow> pcs s w = Blocked \<Longrightarrow>
     pstep s (s\<lparr>pcs := (pcs s)(w := Woken)\<rparr>)"
| retry_take: "w < threads (pool s) \<Longrightarrow> pcs s w = Woken \<Longrightarrow> q_first (pool s) \<noteq> Null \<Longrightarrow>
     cycle_take (pool s) = Inr (Ptr a, tp) \<Longrightarrow>
     pstep s (s\<lparr>pool := tp, pcs := (pcs s)(w := HasTask a), started := started s @ [a]\<rparr>)"
| retry_wait: "w < threads (pool s) \<Longrightarrow> pcs s w = Woken \<Longrightarrow> q_first (pool s) = Null \<Longrightarrow>
     pstep s (s\<lparr>pcs := (pcs s)(w := Blocked)\<rparr>)"
| run_service: "w < threads (pool s) \<Longrightarrow> pcs s w = HasTask a \<Longrightarrow>
     map_option snd (task_job (pool s) a) = Some SvcHandler \<Longrightarrow>
     cycle_finish (Ptr a) (pool s) = Inr tp \<Longrightarrow>
     pstep s (s\<lparr>pool := tp, pcs := (pcs s)(w := AtLock)\<rparr>)"
| run_exit: "w < threads (pool s) \<Longrightarrow> pcs s w = HasTask a \<Longrightarrow>
     map_option snd (task_job (pool s) a) = Some ExitHandler \<Longrightarrow>
     pstep s (s\<lparr>spin_lock := False, pcs := (pcs s)(w := Exited)\<rparr>)"
| destroy_start: "dest s = NotClosing \<Longrightarrow>
     pstep s (s\<lparr>dest := Posting 0, exit_task := next_task (pool s), pool := exit_task_init (pool s)\<rparr>)"
| destroy_wake: "dest s = Posting n \<Longrightarrow> n < threads (pool s) \<Longrightarrow>
     thread_task_post 0 0 (Ptr (exit_task s)) (pool s) = Inr (T_OK, tp) \<Longrightarrow>
     w < threads (pool s) \<Longrightarrow> pcs s w = Blocked \<Longrightarrow>
     pstep s (s\<lparr>pool := tp, spin_lock := True, dest := Spinning n, pcs := (pcs s)(w := Woken),
       posted := posted s @ [exit_task s]\<rparr>)"
| destroy_nowake: "dest s = Posting n \<Longrightarrow> n < threads (pool s) \<Longrightarrow>
     thread_task_post 0 0 (Ptr (exit_task s)) (pool s) = Inr (T_OK, tp) \<Longrightarrow> none_blocked s \<Longrightarrow>
     pstep s (s\<lparr>pool := tp, spin_lock := True, dest := Spinning n,
       posted := posted s @ [exit_task s]\<rparr>)"
| destroy_refused: "dest s = Posting n \<Longrightarrow> n < threads (pool s) \<Longrightarrow>
     thread_task_post 0 0 (Ptr (exit_task s)) (pool s) = Inr (T_ERROR, tp) \<Longrightarrow>
     pstep s (s\<lparr>pool := tp, spin_lock := True, dest := GaveUp\<rparr>)"
| destroy_spun: "dest s = Spinning n \<Longrightarrow> \<not> spin_lock s \<Longrightarrow> pstep s (s\<lparr>dest := Posting (Suc n)\<rparr>)"
| destroy_done: "dest s = Posting n \<Longrightarrow> threads (pool s) \<le> n \<Longrightarrow> pstep s (s\<lparr>dest := Destroyed\<rparr>)"

text \<open>A pool that \<open>thread_pool_init\<close> returned, all its workers at the start of their loop.\<close>

definition pinit :: "'c psys \<Rightarrow> bool" where
  "pinit s \<longleftrightarrow> (\<exists>rc n. thread_pool_init rc Map.empty 0 0 = Inr (Some (pool s), n)) \<and>
     pcs s = (\<lambda>_. AtLock) \<and> dest s = NotClosing \<and> posted s = [] \<and> started s = []"

inductive preach :: "'c psys \<Rightarrow> bool" where
  preach_init: "pinit s \<Longrightarrow> preach s"
| preach_step: "preach s \<Longrightarrow> pstep s t \<Longrightarrow> preach t"

inductive_cases pstep_cases: "pstep s t"

subsection \<open>The invariant\<close>

definition bounded :: "'c thread_pool \<Rightarrow> bool" where
  "bounded tp \<longleftrightarrow> (\<forall>a. tasks tp a \<noteq> None \<longrightarrow> a < next_task tp)"

text \<open>What a successful post of the task at \<open>a\<close> does to the pool.\<close>

definition posts :: "'c thread_pool \<Rightarrow> nat list \<Rightarrow> nat \<Rightarrow> 'c thread_pool \<Rightarrow> bool" where
  "posts tp as a tp' \<longleftrightarrow> queue_path tp' (as @ [a]) \<and> bounded tp' \<and> waiting tp' = waiting tp + 1 \<and>
     waiting tp < max_queue tp \<and> max_queue tp' = max_queue tp \<and> threads tp' = threads tp \<and>
     (\<forall>b. b \<noteq> a \<longrightarrow> task_job tp' b = task_job tp b)"

lemma post_T_OK_waiting:
  "thread_task_post 0 0 task tp = Inr (T_OK, tp') \<Longrightarrow> waiting tp < max_queue tp"
  by (auto simp: thread_task_post_def split: if_splits)

lemma post_T_ERROR_same:
  "thread_task_post 0 0 task tp = Inr (T_ERROR, tp') \<Longrightarrow> tp' = tp"
  by (auto simp: thread_task_post_def bindR_eq_Inr split: if_splits)

lemma post_posts:
  assumes "thread_task_post 0 0 (Ptr a) tp = Inr (T_OK, tp')" and "queue_path tp as"
    and "a \<notin> set as" and "tasks tp a \<noteq> None" and "bounded tp"
  shows "posts tp as a tp' \<and> task_job tp' a = task_job tp a"
proof -
  obtain t where t: "tasks tp a = Some t" using assms(4) by blast
  obtain tp2 where tp2: "thread_task_post 0 0 (Ptr a) tp = Inr (T_OK, tp2)" "queue_path tp2 (as @ [a])"
      "same_frame tp tp2" "waiting tp2 = waiting tp + 1"
    using post_ok [OF assms(2,3) t post_T_OK_waiting [OF assms(1)]] by blast
  then have eq: "tp2 = tp'" using assms(1) by simp
  have jobs: "task_job tp' = task_job tp" "next_task tp' = next_task tp"
      "max_queue tp' = max_queue tp" "threads tp' = threads tp"
    using tp2(3) unfolding same_frame_def eq by blast+
  have "bounded tp'"
    using assms(5) jobs unfolding bounded_def by (metis task_job_None)
  then show ?thesis
    using tp2(2,4) jobs post_T_OK_waiting [OF assms(1)] unfolding posts_def eq by simp
qed

lemma alloc_frame:
  assumes "queue_path tp as" and "bounded tp" and "a = next_task tp"
    and "tp1 = tp\<lparr>next_task := a + 1, tasks := (tasks tp)(a \<mapsto> t)\<rparr>"
  shows "queue_path tp1 as" and "a \<notin> set as" and "bounded tp1" and "tasks tp a = None"
    and "b \<noteq> a \<Longrightarrow> task_job tp1 b = task_job tp b"
    and "task_job tp1 a = Some (task_ctx t, task_handler t)"
proof -
  show none: "tasks tp a = None" using assms(2,3) unfolding bounded_def by blast
  then show fresh: "a \<notin> set as"
    using assms(1) task_path_alloc [of "tasks tp" "q_first tp" as a] unfolding queue_path_def by blast
  show "queue_path tp1 as"
    using assms(1) fresh by (simp add: queue_path_def task_path_upd assms(4))
  show "bounded tp1" using assms(2) by (auto simp: bounded_def assms(3,4) less_Suc_eq)
  show "b \<noteq> a \<Longrightarrow> task_job tp1 b = task_job tp b" by (simp add: task_job_def assms(4))
  show "task_job tp1 a = Some (task_ctx t, task_handler t)" by (simp add: task_job_def assms(4))
qed

lemma enqueue_unfold:
  "enqueue True 0 0 (Some c) tp = thread_task_post 0 0 (Ptr (next_task tp))
     (tp\<lparr>next_task := next_task tp + 1, tasks := (tasks tp)(next_task tp \<mapsto>
        \<lparr>task_next = Null, task_id = 0, task_ctx = Some c, task_handler = SvcHandler\<rparr>)\<rparr>)"
  by (simp add: enqueue_def thread_task_alloc_def upd_task_def)

lemma enqueue_posts:
  assumes "enqueue True 0 0 (Some c) tp = Inr (T_OK, tp')" and "queue_path tp as" and "bounded tp"
  shows "posts tp as (next_task tp) tp' \<and> task_job tp' (next_task tp) = Some (Some c, SvcHandler) \<and>
    tasks tp (next_task tp) = None"
proof -
  let ?t = "\<lparr>task_next = Null, task_id = 0, task_ctx = Some c, task_handler = SvcHandler\<rparr>"
  let ?tp1 = "tp\<lparr>next_task := next_task tp + 1, tasks := (tasks tp)(next_task tp \<mapsto> ?t)\<rparr>"
  note frame = alloc_frame [where t = ?t, OF assms(2,3) refl refl]
  have live: "tasks ?tp1 (next_task tp) \<noteq> None" by simp
  have post: "thread_task_post 0 0 (Ptr (next_task tp)) ?tp1 = Inr (T_OK, tp')"
    using assms(1) unfolding enqueue_unfold .
  have p: "posts ?tp1 as (next_task tp) tp' \<and>
      task_job tp' (next_task tp) = task_job ?tp1 (next_task tp)"
    using post_posts [OF post frame(1,2) live frame(3)] .
  then have "posts tp as (next_task tp) tp'"
    using frame(5) unfolding posts_def by simp
  then show ?thesis using p frame(4,6) by simp
qed

lemma enqueue_refused_frame:
  assumes "enqueue True 0 0 (Some c) tp = Inr (T_ERROR, tp')" and "queue_path tp as" and "bounded tp"
  shows "queue_path tp' as \<and> bounded tp' \<and> waiting tp' = waiting tp \<and> max_queue tp' = max_queue tp \<and>
    threads tp' = threads tp \<and> (\<forall>b. b \<noteq> next_task tp \<longrightarrow> task_job tp' b = task_job tp b) \<and>
    task_job tp' (next_task tp) = Some (Some c, SvcHandler) \<and> tasks tp (next_task tp) = None"
proof -
  let ?t = "\<lparr>task_next = Null, task_id = 0, task_ctx = Some c, task_handler = SvcHandler\<rparr>"
  let ?tp1 = "tp\<lparr>next_task := next_task tp + 1, tasks := (tasks tp)(next_task tp \<mapsto> ?t)\<rparr>"
  have "tp' = ?tp1" using assms(1) unfolding enqueue_unfold by (rule post_T_ERROR_same)
  then show ?thesis using alloc_frame [where t = ?t, OF assms(2,3) refl refl] by simp
qed

text \<open>
  The parts of the invariant, over \<open>N\<close> workers at \<open>f\<close> and the queued addresses \<open>as\<close>: the
  accounting of \<open>waiting\<close>; the tasks queued or held are live, held once, and the exit task only
  while closing; a blocked worker beside a non-empty queue is never alone; the phases of the
  destroying thread.
\<close>

definition held :: "nat \<Rightarrow> (nat \<Rightarrow> wpc) \<Rightarrow> nat \<Rightarrow> bool" where
  "held N f a \<longleftrightarrow> (\<exists>w < N. f w = HasTask a)"

definition idle :: "nat \<Rightarrow> (nat \<Rightarrow> wpc) \<Rightarrow> nat" where
  "idle N f = count_below N (\<lambda>w. is_waiting (f w))"

definition exits :: "nat \<Rightarrow> (nat \<Rightarrow> wpc) \<Rightarrow> nat" where
  "exits N f = count_below N (\<lambda>w. f w = Exited)"

definition pool_inv :: "'c thread_pool \<Rightarrow> (nat \<Rightarrow> wpc) \<Rightarrow> nat list \<Rightarrow> bool" where
  "pool_inv tp f as \<longleftrightarrow> queue_path tp as \<and> bounded tp \<and>
     waiting tp = int (length as) - int (idle (threads tp) f) \<and>
     int (length as) \<le> max_queue tp + int (threads tp) \<and> 0 \<le> max_queue tp"

definition job_ok :: "('c option \<times> thandler) option \<Rightarrow> bool \<Rightarrow> bool" where
  "job_ok j is_exit \<longleftrightarrow>
     (if is_exit then j = Some (None, ExitHandler) else (\<exists>c. j = Some (Some c, SvcHandler)))"

definition held_inv ::
    "nat \<Rightarrow> (nat \<Rightarrow> ('c option \<times> thandler) option) \<Rightarrow> (nat \<Rightarrow> bool) \<Rightarrow> (nat \<Rightarrow> wpc) \<Rightarrow> nat list \<Rightarrow> bool" where
  "held_inv N job is_exit f as \<longleftrightarrow>
     (\<forall>a. a \<in> set as \<or> held N f a \<longrightarrow> job_ok (job a) (is_exit a)) \<and>
     (\<forall>v w a. v < N \<longrightarrow> w < N \<longrightarrow> f v = HasTask a \<longrightarrow> f w = HasTask a \<longrightarrow> v = w) \<and>
     (\<forall>a. held N f a \<longrightarrow> a \<notin> set as)"

definition active :: "wpc \<Rightarrow> bool" where
  "active p \<longleftrightarrow> p \<noteq> Blocked \<and> p \<noteq> Exited"

definition awake :: "nat \<Rightarrow> (nat \<Rightarrow> wpc) \<Rightarrow> nat list \<Rightarrow> bool" where
  "awake N f as \<longleftrightarrow> (as \<noteq> [] \<longrightarrow> (\<exists>w < N. f w = Blocked) \<longrightarrow> (\<exists>w < N. active (f w)))"

fun phase :: "dpc \<Rightarrow> nat \<Rightarrow> (nat \<Rightarrow> wpc) \<Rightarrow> bool \<Rightarrow> nat \<Rightarrow> ('c option \<times> thandler) option \<Rightarrow> nat list \<Rightarrow> bool" where
  "phase NotClosing N f lock e ejob as \<longleftrightarrow> exits N f = 0"
| "phase (Posting n) N f lock e ejob as \<longleftrightarrow> exits N f = n \<and> e \<notin> set as \<and> \<not> held N f e \<and>
     (0 < n \<longrightarrow> as = []) \<and> ejob = Some (None, ExitHandler)"
| "phase (Spinning n) N f lock e ejob as \<longleftrightarrow> ejob = Some (None, ExitHandler) \<and>
     (if lock then exits N f = n \<and>
        (e \<in> set as \<and> last as = e \<and> \<not> held N f e \<or> as = [] \<and> held N f e)
      else exits N f = Suc n \<and> as = [] \<and> \<not> held N f e)"
| "phase Destroyed N f lock e ejob as \<longleftrightarrow> exits N f = N \<and> (0 < N \<longrightarrow> as = [])"
| "phase GaveUp N f lock e ejob as \<longleftrightarrow> e \<notin> set as \<and> \<not> held N f e"

definition pinv_at :: "'c psys \<Rightarrow> nat list \<Rightarrow> bool" where
  "pinv_at s as \<longleftrightarrow> posted s = started s @ as \<and> pool_inv (pool s) (pcs s) as \<and>
     held_inv (threads (pool s)) (task_job (pool s)) (\<lambda>a. dest s \<noteq> NotClosing \<and> a = exit_task s)
       (pcs s) as \<and>
     awake (threads (pool s)) (pcs s) as \<and>
     phase (dest s) (threads (pool s)) (pcs s) (spin_lock s) (exit_task s)
       (task_job (pool s) (exit_task s)) as"

lemma held_upd:
  assumes "w < N"
  shows "held N (f(w := x)) a \<longleftrightarrow> x = HasTask a \<or> (\<exists>v < N. v \<noteq> w \<and> f v = HasTask a)"
  using assms by (auto simp: held_def)

lemma held_upd_other:
  assumes "w < N" and "\<forall>a. f w \<noteq> HasTask a" and "\<forall>a. x \<noteq> HasTask a"
  shows "held N (f(w := x)) a \<longleftrightarrow> held N f a"
  using assms by (auto simp: held_def)

lemma held_enter:
  assumes "w < N" and "\<forall>b. f w \<noteq> HasTask b"
  shows "held N (f(w := HasTask a)) c \<longleftrightarrow> c = a \<or> held N f c"
proof
  assume "held N (f(w := HasTask a)) c"
  then show "c = a \<or> held N f c" unfolding held_def by (metis fun_upd_apply wpc.inject)
next
  assume "c = a \<or> held N f c"
  then show "held N (f(w := HasTask a)) c"
  proof
    assume "c = a"
    then show ?thesis unfolding held_def using assms(1) by (intro exI [of _ w]) simp
  next
    assume "held N f c"
    then obtain v where "v < N" "f v = HasTask c" unfolding held_def by blast
    then show ?thesis unfolding held_def using assms(2) by (intro exI [of _ v]) auto
  qed
qed

lemma held_leave:
  assumes "w < N" and "f w = HasTask a" and "\<forall>b. x \<noteq> HasTask b"
    and uniq: "\<forall>v w a. v < N \<longrightarrow> w < N \<longrightarrow> f v = HasTask a \<longrightarrow> f w = HasTask a \<longrightarrow> v = w"
  shows "held N (f(w := x)) c \<longleftrightarrow> c \<noteq> a \<and> held N f c"
proof
  assume "held N (f(w := x)) c"
  then obtain v where v: "v < N" "(f(w := x)) v = HasTask c" unfolding held_def by blast
  then have "v \<noteq> w" "f v = HasTask c" using assms(3) by (auto split: if_splits)
  then show "c \<noteq> a \<and> held N f c" using v(1) assms(1,2) uniq unfolding held_def by blast
next
  assume "c \<noteq> a \<and> held N f c"
  then obtain v where "v < N" "f v = HasTask c" "c \<noteq> a" unfolding held_def by blast
  then show "held N (f(w := x)) c" unfolding held_def using assms(2) by (intro exI [of _ v]) auto
qed

lemma held_invD:
  assumes "held_inv N job x f as"
  shows "a \<in> set as \<Longrightarrow> job_ok (job a) (x a)" and "held N f a \<Longrightarrow> job_ok (job a) (x a)"
    and "\<forall>v w a. v < N \<longrightarrow> w < N \<longrightarrow> f v = HasTask a \<longrightarrow> f w = HasTask a \<longrightarrow> v = w"
    and "held N f a \<Longrightarrow> a \<notin> set as"
  using assms unfolding held_inv_def by blast+

lemma held_inv_leave:
  assumes inv: "held_inv N job x f as" and "w < N" and "f w = HasTask a" and "\<forall>b. p \<noteq> HasTask b"
    and job': "\<And>b. b \<noteq> a \<Longrightarrow> job' b = job b"
  shows "held_inv N job' x (f(w := p)) as"
proof -
  note I = held_invD [OF inv]
  note heldf = held_leave [OF assms(2-4) I(3)]
  have a: "a \<notin> set as" using I(4) assms(2,3) unfolding held_def by blast
  have "job_ok (job' b) (x b)" if "b \<in> set as \<or> held N (f(w := p)) b" for b
  proof -
    have "b \<noteq> a" "b \<in> set as \<or> held N f b" using that a unfolding heldf by blast+
    then show ?thesis using I(1,2) job' by metis
  qed
  moreover have "\<forall>v u b. v < N \<longrightarrow> u < N \<longrightarrow> (f(w := p)) v = HasTask b \<longrightarrow>
      (f(w := p)) u = HasTask b \<longrightarrow> v = u"
    using I(3) assms(4) by (auto split: if_splits)
  moreover have "\<forall>b. held N (f(w := p)) b \<longrightarrow> b \<notin> set as"
    using I(4) unfolding heldf by blast
  ultimately show ?thesis unfolding held_inv_def by blast
qed

lemma held_inv_take:
  assumes inv: "held_inv N job x f (a # as)" and "w < N" and "\<forall>b. f w \<noteq> HasTask b" and "a \<notin> set as"
  shows "held_inv N job x (f(w := HasTask a)) as"
proof -
  note I = held_invD [OF inv]
  note heldf = held_enter [where f = f and a = a, OF assms(2,3)]
  have notheld: "\<not> held N f a" using I(4) [of a] by auto
  have "job_ok (job b) (x b)" if "b \<in> set as \<or> held N (f(w := HasTask a)) b" for b
    using that I(1) [of b] I(2) [of b] unfolding heldf by auto
  moreover have "\<forall>v u b. v < N \<longrightarrow> u < N \<longrightarrow> (f(w := HasTask a)) v = HasTask b \<longrightarrow>
      (f(w := HasTask a)) u = HasTask b \<longrightarrow> v = u"
    using I(3) notheld unfolding held_def by (auto split: if_splits)
  moreover have "\<forall>b. held N (f(w := HasTask a)) b \<longrightarrow> b \<notin> set as"
    using I(4) assms(4) unfolding heldf by auto
  ultimately show ?thesis unfolding held_inv_def by blast
qed

lemma idle_upd:
  "w < N \<Longrightarrow> int (idle N (f(w := x))) =
     int (idle N f) + (if is_waiting x then 1 else 0) - (if is_waiting (f w) then 1 else 0)"
  unfolding idle_def by (rule count_below_upd)

lemma exits_upd:
  "w < N \<Longrightarrow> int (exits N (f(w := x))) =
     int (exits N f) + (if x = Exited then 1 else 0) - (if f w = Exited then 1 else 0)"
  unfolding exits_def by (rule count_below_upd)

lemma exits_upd_same: "w < N \<Longrightarrow> x \<noteq> Exited \<Longrightarrow> f w \<noteq> Exited \<Longrightarrow> exits N (f(w := x)) = exits N f"
  using exits_upd [of w N f x] by simp

lemma exits_le: "exits N f \<le> N"
  unfolding exits_def by (rule count_below_le)

lemma phase_cong:
  assumes "exits N f = exits N g" and "held N f e \<longleftrightarrow> held N g e"
  shows "phase d N f lock e j as = phase d N g lock e j as"
  using assms by (cases d) simp_all

lemma held_inv_move:
  assumes "held_inv N job x f as" and "w < N" and "\<forall>a. f w \<noteq> HasTask a" and "\<forall>a. p \<noteq> HasTask a"
  shows "held_inv N job x (f(w := p)) as"
proof -
  have "held N (f(w := p)) a = held N f a" for a using assms(2-4) by (intro held_upd_other)
  then show ?thesis using assms unfolding held_inv_def by simp
qed

text \<open>A worker that only waits or wakes.\<close>

lemma pinv_move:
  assumes inv: "pinv_at s as" and w: "w < threads (pool s)" "\<forall>a. pcs s w \<noteq> HasTask a" "pcs s w \<noteq> Exited"
    and p: "\<forall>a. p \<noteq> HasTask a" "p \<noteq> Exited"
    and tp: "tp = (pool s)\<lparr>waiting := waiting (pool s)
       - (if is_waiting p then 1 else 0) + (if is_waiting (pcs s w) then 1 else 0)\<rparr>"
    and aw: "p = Blocked \<Longrightarrow> as = []"
  shows "pinv_at (s\<lparr>pool := tp, pcs := (pcs s)(w := p)\<rparr>) as"
proof -
  let ?f = "(pcs s)(w := p)"
  have jobs: "task_job tp = task_job (pool s)" and N: "threads tp = threads (pool s)"
    by (simp_all add: tp task_job_def fun_eq_iff)
  have "pool_inv tp ?f as"
    using inv idle_upd [OF w(1), of "pcs s" p]
    by (simp add: pinv_at_def pool_inv_def tp queue_path_def bounded_def)
  moreover have "awake (threads tp) ?f as"
    using inv w(1) p aw unfolding awake_def N pinv_at_def
    by (cases "p = Blocked") (auto simp: active_def)
  moreover have "held_inv (threads tp) (task_job tp) (\<lambda>a. dest s \<noteq> NotClosing \<and> a = exit_task s) ?f as"
    unfolding jobs N
    using inv w(1,2) p(1) by (intro held_inv_move) (simp_all add: pinv_at_def)
  moreover have "phase (dest s) (threads tp) ?f (spin_lock s) (exit_task s) (task_job tp (exit_task s)) as"
  proof -
    have "phase (dest s) (threads tp) ?f (spin_lock s) (exit_task s) (task_job tp (exit_task s)) as =
        phase (dest s) (threads tp) (pcs s) (spin_lock s) (exit_task s) (task_job tp (exit_task s)) as"
      unfolding N using w p by (intro phase_cong exits_upd_same held_upd_other)
    then show ?thesis using inv by (simp add: pinv_at_def jobs N)
  qed
  moreover have "posted s = started s @ as" using inv by (simp add: pinv_at_def)
  ultimately show ?thesis by (simp add: pinv_at_def)
qed

text \<open>A successful post, with or without a worker to wake.\<close>

lemma pinv_post:
  assumes inv: "pinv_at s as" and post: "posts (pool s) as a tp"
    and wake: "(\<exists>w < threads (pool s). pcs s w = Blocked \<and> f = (pcs s)(w := Woken)) \<or>
      none_blocked s \<and> f = pcs s"
    and fresh: "\<not> held (threads (pool s)) (pcs s) a"
    and job: "job_ok (task_job tp a) (d \<noteq> NotClosing \<and> a = exit_task s)"
    and d: "d = NotClosing \<longleftrightarrow> dest s = NotClosing"
    and ph: "\<And>f'. (\<And>b. held (threads (pool s)) f' b = held (threads (pool s)) (pcs s) b) \<Longrightarrow>
       exits (threads (pool s)) f' = exits (threads (pool s)) (pcs s) \<Longrightarrow>
       phase d (threads (pool s)) f' lk (exit_task s) (task_job tp (exit_task s)) (as @ [a])"
  shows "pinv_at (s\<lparr>pool := tp, pcs := f, dest := d, spin_lock := lk, posted := posted s @ [a]\<rparr>) (as @ [a])"
proof -
  let ?N = "threads (pool s)"
  note P = post [unfolded posts_def]
  have N: "threads tp = ?N" using P by blast
  have heldf: "held ?N f b = held ?N (pcs s) b" for b
    using wake held_upd_other [of _ ?N "pcs s" Woken b] by auto
  have exf: "exits ?N f = exits ?N (pcs s)"
    using wake exits_upd_same [of _ ?N Woken "pcs s"] by auto
  have idlef: "idle ?N f = idle ?N (pcs s)"
    using wake idle_upd [of _ ?N "pcs s" Woken] by (fastforce simp: is_waiting_def)
  have "idle ?N (pcs s) \<le> ?N" unfolding idle_def by (rule count_below_le)
  then have "pool_inv tp f (as @ [a])"
    using inv P by (simp add: pinv_at_def pool_inv_def N idlef)
  moreover have "held_inv ?N (task_job tp) (\<lambda>b. d \<noteq> NotClosing \<and> b = exit_task s) f (as @ [a])"
  proof -
    have h: "held_inv ?N (task_job (pool s)) (\<lambda>b. d \<noteq> NotClosing \<and> b = exit_task s) (pcs s) as"
      using inv by (simp add: pinv_at_def d)
    have "job_ok (task_job tp b) (d \<noteq> NotClosing \<and> b = exit_task s)"
      if "b \<in> set (as @ [a]) \<or> held ?N (pcs s) b" for b
      using h job P that unfolding held_inv_def by (cases "b = a") auto
    moreover have "\<forall>v w b. v < ?N \<longrightarrow> w < ?N \<longrightarrow> f v = HasTask b \<longrightarrow> f w = HasTask b \<longrightarrow> v = w"
      using h wake unfolding held_inv_def by (auto split: if_splits)
    moreover have "\<forall>b. held ?N (pcs s) b \<longrightarrow> b \<notin> set (as @ [a])"
      using h fresh unfolding held_inv_def by auto
    ultimately show ?thesis unfolding held_inv_def heldf by blast
  qed
  moreover have "awake ?N f (as @ [a])"
    using wake unfolding awake_def none_blocked_def by (auto simp: active_def)
  moreover have "phase d ?N f lk (exit_task s) (task_job tp (exit_task s)) (as @ [a])"
    by (rule ph) (rule heldf exf)+
  moreover have "posted s @ [a] = started s @ as @ [a]" using inv by (simp add: pinv_at_def)
  ultimately show ?thesis by (simp add: pinv_at_def N)
qed

lemma pinv_atD:
  assumes "pinv_at s as"
  shows "posted s = started s @ as" and "pool_inv (pool s) (pcs s) as"
    and "held_inv (threads (pool s)) (task_job (pool s)) (\<lambda>a. dest s \<noteq> NotClosing \<and> a = exit_task s)
       (pcs s) as"
    and "awake (threads (pool s)) (pcs s) as"
    and "phase (dest s) (threads (pool s)) (pcs s) (spin_lock s) (exit_task s)
       (task_job (pool s) (exit_task s)) as"
    and "queue_path (pool s) as" and "bounded (pool s)"
  using assms by (simp_all add: pinv_at_def pool_inv_def)

text \<open>A worker takes the first task, coming from the lock or from the condition variable.\<close>

lemma take_frame:
  assumes "queue_path tp0 (b # as)" and "cycle_take tp0 = Inr (Ptr a, tp)"
  shows "b = a" and "queue_path tp as" and "tasks tp = tasks tp0" and "same_frame tp0 tp"
    and "waiting tp = waiting tp0"
proof -
  obtain tp' where tp': "cycle_take tp0 = Inr (Ptr b, tp')" "queue_path tp' as"
      "tasks tp' = tasks tp0" "same_frame tp0 tp'" "waiting tp' = waiting tp0"
    using take_ok [OF assms(1)] .
  have eq: "b = a" "tp' = tp" using assms(2) tp'(1) by simp_all
  show "b = a" by (rule eq(1))
  show "queue_path tp as" "tasks tp = tasks tp0" "same_frame tp0 tp" "waiting tp = waiting tp0"
    using tp'(2-5) unfolding eq(2) .
qed

lemma phase_take:
  assumes "phase d N f lock e ejob (a # as)" and "a \<notin> set as" and "exits N f < N"
    and ex: "exits N g = exits N f" and held: "\<And>c. held N g c \<longleftrightarrow> c = a \<or> held N f c"
  shows "phase d N g lock e ejob as"
proof (cases d)
  case (Spinning n)
  then have ph: "ejob = Some (None, ExitHandler)" "lock" "exits N f = n" "last (a # as) = e"
      "e \<in> set (a # as)" "\<not> held N f e"
    using assms(1) unfolding Spinning phase.simps by (metis list.distinct(1))+
  show ?thesis
  proof (cases "as = []")
    case True
    then have "e = a" using ph(4) by simp
    then have "held N g e" using held by blast
    then show ?thesis using ph(1-3) True by (simp only: Spinning phase.simps ex if_True simp_thms)
  next
    case False
    then have e: "last as = e" "e \<in> set as" using ph(4) last_in_set by auto
    then have "\<not> held N g e" using held [of e] assms(2) ph(6) by metis
    then show ?thesis using ph(1-3) e by (simp only: Spinning phase.simps ex if_True simp_thms)
  qed
next
  case Destroyed
  then show ?thesis using assms(1,3) by simp
next
  case NotClosing
  then show ?thesis using assms(1) ex by simp
next
  case (Posting n)
  have "\<not> (e \<in> set (a # as)) \<and> \<not> held N f e \<and> (0 < n \<longrightarrow> a # as = []) \<and> exits N f = n \<and>
      ejob = Some (None, ExitHandler)" using assms(1) Posting by simp
  then show ?thesis using Posting ex held by simp
next
  case GaveUp
  then show ?thesis using assms(1) held by simp
qed

lemma count_below_lt: "w < n \<Longrightarrow> \<not> P w \<Longrightarrow> count_below n P < n"
  using count_below_all [of n P w] count_below_le [of n P] by linarith

lemma exits_lt: "w < N \<Longrightarrow> f w \<noteq> Exited \<Longrightarrow> exits N f < N"
  unfolding exits_def by (rule count_below_lt)

lemma pinv_take:
  assumes inv: "pinv_at s as" and w: "w < threads (pool s)"
    and from_: "pcs s w = AtLock \<and> tp0 = cycle_enter (pool s) \<or> pcs s w = Woken \<and> tp0 = pool s"
    and ne: "q_first (pool s) \<noteq> Null" and take: "cycle_take tp0 = Inr (Ptr a, tp)"
  shows "\<exists>as'. as = a # as' \<and>
    pinv_at (s\<lparr>pool := tp, pcs := (pcs s)(w := HasTask a), started := started s @ [a]\<rparr>) as'"
proof -
  let ?N = "threads (pool s)" and ?f = "(pcs s)(w := HasTask a)"
  note I = pinv_atD [OF inv]
  have "as \<noteq> []" using ne I(6) queue_path_first by blast
  then obtain b as' where as: "as = b # as'" by (cases as) auto
  have p0: "queue_path tp0 (b # as')" and fr0: "tasks tp0 = tasks (pool s)" "threads tp0 = ?N"
      "next_task tp0 = next_task (pool s)" "max_queue tp0 = max_queue (pool s)"
      "waiting tp0 = waiting (pool s) - (if pcs s w = Woken then 0 else 1)"
    using from_ I(6) as by (auto simp: queue_path_def cycle_enter_def)
  note T = take_frame [OF p0 take]
  have as: "as = a # as'" using as T(1) by simp
  have jobs: "task_job tp = task_job (pool s)" and N: "threads tp = ?N" "next_task tp = next_task (pool s)"
      "max_queue tp = max_queue (pool s)" "tasks tp = tasks (pool s)"
    using T(3,4) fr0 by (simp_all add: same_frame_def task_job_def fun_eq_iff)
  have dist: "a \<notin> set as'"
    using I(6) unfolding as by (simp add: queue_path_def)
  have nohold: "\<forall>b. pcs s w \<noteq> HasTask b" and noexit: "pcs s w \<noteq> Exited" using from_ by auto
  note heldf = held_enter [where f = "pcs s" and a = a, OF w nohold]
  have exf: "exits ?N ?f = exits ?N (pcs s)"
    using w noexit by (intro exits_upd_same) simp_all
  have idl: "int (idle ?N ?f) = int (idle ?N (pcs s)) - (if pcs s w = Woken then 1 else 0)"
    using idle_upd [OF w, of "pcs s" "HasTask a"] from_ by (auto simp: is_waiting_def)
  have "pool_inv tp ?f as'"
    using I(2) T(2,5) fr0(5) idl
    by (simp add: pool_inv_def N as bounded_def)
  moreover have "held_inv ?N (task_job tp) (\<lambda>b. dest s \<noteq> NotClosing \<and> b = exit_task s) ?f as'"
    unfolding jobs using I(3) as w nohold dist by (intro held_inv_take) simp_all
  moreover have "awake ?N ?f as'"
    unfolding awake_def using w by (intro impI exI [of _ w]) (simp add: active_def)
  moreover have "phase (dest s) ?N ?f (spin_lock s) (exit_task s) (task_job tp (exit_task s)) as'"
    using I(5) unfolding jobs as
    by (rule phase_take) (use dist exits_lt [where f = "pcs s", OF w noexit] exf heldf in simp_all)
  moreover have "posted s = (started s @ [a]) @ as'" using I(1) as by simp
  ultimately show ?thesis using as by (simp add: pinv_at_def N)
qed

text \<open>A worker finishes a service task, or the exit task.\<close>

lemma pinv_service:
  assumes inv: "pinv_at s as" and w: "w < threads (pool s)" "pcs s w = HasTask a"
    and job: "map_option snd (task_job (pool s) a) = Some SvcHandler"
    and fin: "cycle_finish (Ptr a) (pool s) = Inr tp"
  shows "pinv_at (s\<lparr>pool := tp, pcs := (pcs s)(w := AtLock)\<rparr>) as"
proof -
  let ?N = "threads (pool s)" and ?f = "(pcs s)(w := AtLock)"
  note I = pinv_atD [OF inv]
  have h: "held ?N (pcs s) a" using w by (auto simp: held_def)
  then have fresh: "a \<notin> set as" using I(3) unfolding held_inv_def by blast
  obtain t where t: "tasks (pool s) a = Some t" using job by (auto simp: task_job_def)
  have tp: "tp = (pool s)\<lparr>tasks := (tasks (pool s))(a := None)\<rparr>" and path: "queue_path tp as"
    using finish_ok [OF I(6) fresh t] fin by simp_all
  have jobs: "b \<noteq> a \<Longrightarrow> task_job tp b = task_job (pool s) b" and N: "threads tp = ?N" for b
    by (simp_all add: tp task_job_def)
  have notexit: "\<not> (dest s \<noteq> NotClosing \<and> a = exit_task s)"
    using held_invD(2) [OF I(3) h] job unfolding job_ok_def by (auto split: if_splits)
  have heldf: "held ?N ?f c \<longleftrightarrow> c \<noteq> a \<and> held ?N (pcs s) c" for c
    by (rule held_leave [OF w _ held_invD(3) [OF I(3)]]) simp
  have exf: "exits ?N ?f = exits ?N (pcs s)"
    using w exits_upd_same [of w ?N AtLock "pcs s"] by auto
  have "pool_inv tp ?f as"
    using I(2) path idle_upd [OF w(1), of "pcs s" AtLock] w
    by (simp add: pool_inv_def tp bounded_def is_waiting_def)
  moreover have "held_inv ?N (task_job tp) (\<lambda>b. dest s \<noteq> NotClosing \<and> b = exit_task s) ?f as"
    by (rule held_inv_leave [OF I(3) w]) (simp_all add: jobs)
  moreover have "awake ?N ?f as" using w unfolding awake_def by (auto simp: active_def)
  moreover have "phase (dest s) ?N ?f (spin_lock s) (exit_task s) (task_job tp (exit_task s)) as"
  proof (cases "dest s = NotClosing")
    case True
    then show ?thesis using I(5) by (simp add: exf)
  next
    case False
    then have "exit_task s \<noteq> a" using notexit by blast
    then have "held ?N ?f (exit_task s) = held ?N (pcs s) (exit_task s)" by (simp only: heldf simp_thms)
    note cong = phase_cong [OF exf this]
    show ?thesis using I(5) \<open>exit_task s \<noteq> a\<close> by (simp only: cong jobs not_False_eq_True)
  qed
  ultimately show ?thesis using I(1) by (simp add: pinv_at_def N)
qed

lemma pinv_exit:
  assumes inv: "pinv_at s as" and w: "w < threads (pool s)" "pcs s w = HasTask a"
    and job: "map_option snd (task_job (pool s) a) = Some ExitHandler"
  shows "pinv_at (s\<lparr>spin_lock := False, pcs := (pcs s)(w := Exited)\<rparr>) as"
proof -
  let ?N = "threads (pool s)" and ?f = "(pcs s)(w := Exited)"
  note I = pinv_atD [OF inv]
  have h: "held ?N (pcs s) a" using w by (auto simp: held_def)
  then have e: "dest s \<noteq> NotClosing" "a = exit_task s"
    using held_invD(2) [OF I(3) h] job unfolding job_ok_def by (auto split: if_splits)
  have all: "exits ?N (pcs s) = ?N \<Longrightarrow> pcs s w = Exited"
    using count_below_all [of ?N "\<lambda>w. pcs s w = Exited" w] w(1) by (simp add: exits_def)
  obtain n where n: "dest s = Spinning n" "spin_lock s" "as = []" "exits ?N (pcs s) = n"
    using I(5) e h w(2) all by (cases "dest s") (auto split: if_splits)
  have heldf: "held ?N ?f c \<longleftrightarrow> c \<noteq> a \<and> held ?N (pcs s) c" for c
    by (rule held_leave [OF w _ held_invD(3) [OF I(3)]]) simp
  have exf: "exits ?N ?f = Suc n"
    using exits_upd [OF w(1), of "pcs s" Exited] w(2) n(4) by simp
  have "pool_inv (pool s) ?f as"
    using I(2) idle_upd [OF w(1), of "pcs s" Exited] w by (simp add: pool_inv_def is_waiting_def)
  moreover have "held_inv ?N (task_job (pool s)) (\<lambda>b. dest s \<noteq> NotClosing \<and> b = exit_task s) ?f as"
    by (rule held_inv_leave [OF I(3) w]) simp_all
  moreover have "awake ?N ?f as" by (simp add: awake_def n(3))
  moreover have "phase (dest s) ?N ?f False (exit_task s) (task_job (pool s) (exit_task s)) as"
    using I(5) n exf e(2) heldf by simp
  ultimately show ?thesis using I(1) by (simp add: pinv_at_def)
qed

subsection \<open>Every step keeps the invariant\<close>

lemma pinv_refused:
  assumes inv: "pinv_at s as" and d: "dest s = NotClosing"
    and enq: "enqueue True 0 0 (Some c) (pool s) = Inr (T_ERROR, tp)"
  shows "pinv_at (s\<lparr>pool := tp\<rparr>) as"
proof -
  note I = pinv_atD [OF inv]
  note R = enqueue_refused_frame [OF enq I(6,7)]
  have "held_inv (threads (pool s)) (task_job tp) (\<lambda>a. False) (pcs s) as"
  proof -
    have h: "held_inv (threads (pool s)) (task_job (pool s)) (\<lambda>a. False) (pcs s) as"
      using I(3) d by simp
    have "job_ok (task_job tp b) False" if "b \<in> set as \<or> held (threads (pool s)) (pcs s) b" for b
    proof -
      have ok: "job_ok (task_job (pool s) b) False" using held_invD(1,2) [OF h] that by blast
      then have "task_job (pool s) b \<noteq> None" by (auto simp: job_ok_def)
      moreover have "task_job (pool s) (next_task (pool s)) = None"
        using R unfolding task_job_None by blast
      ultimately have "b \<noteq> next_task (pool s)" by metis
      then show ?thesis using ok R by simp
    qed
    then show ?thesis using held_invD(3,4) [OF h] unfolding held_inv_def by blast
  qed
  then show ?thesis
    using I(1,2,4,5) R d by (simp add: pinv_at_def pool_inv_def)
qed

lemma pinv_destroy_start:
  assumes inv: "pinv_at s as" and d: "dest s = NotClosing"
  shows "pinv_at (s\<lparr>dest := Posting 0, exit_task := next_task (pool s), pool := exit_task_init (pool s)\<rparr>) as"
proof -
  let ?N = "threads (pool s)" and ?e = "next_task (pool s)" and ?tp = "exit_task_init (pool s)"
  let ?t = "\<lparr>task_next = Null, task_id = 0, task_ctx = None, task_handler = ExitHandler\<rparr>"
  note I = pinv_atD [OF inv]
  have tp: "?tp = (pool s)\<lparr>next_task := ?e + 1, tasks := (tasks (pool s))(?e \<mapsto> ?t)\<rparr>"
    by (simp add: exit_task_init_def)
  note A = alloc_frame [OF I(6,7) refl tp]
  have none: "task_job (pool s) ?e = None" using A(4) unfolding task_job_None .
  have h: "held_inv ?N (task_job (pool s)) (\<lambda>a. False) (pcs s) as" using I(3) d by simp
  have ne: "b \<noteq> ?e" if "b \<in> set as \<or> held ?N (pcs s) b" for b
    using held_invD(1,2) [OF h, of b] that none by (auto simp: job_ok_def)
  have "held_inv ?N (task_job ?tp) (\<lambda>a. a = ?e) (pcs s) as"
  proof -
    have "job_ok (task_job ?tp b) (b = ?e)" if "b \<in> set as \<or> held ?N (pcs s) b" for b
      using held_invD(1,2) [OF h, of b] that ne [OF that] A(5) [of b] by auto
    then show ?thesis using held_invD(3,4) [OF h] unfolding held_inv_def by blast
  qed
  moreover have "pool_inv ?tp (pcs s) as"
    using I(2) A(1,3) by (simp add: pool_inv_def tp)
  moreover have "\<not> held ?N (pcs s) ?e" using ne by blast
  ultimately show ?thesis
    using I(1,4,5) A(2,6) d by (simp add: pinv_at_def tp)
qed

lemma pinv_enqueue:
  assumes inv: "pinv_at s as" and d: "dest s = NotClosing"
    and enq: "enqueue True 0 0 (Some c) (pool s) = Inr (T_OK, tp)"
    and wake: "(\<exists>w < threads (pool s). pcs s w = Blocked \<and> f = (pcs s)(w := Woken)) \<or>
      none_blocked s \<and> f = pcs s"
  shows "pinv_at (s\<lparr>pool := tp, pcs := f, posted := posted s @ [next_task (pool s)]\<rparr>)
    (as @ [next_task (pool s)])"
proof -
  note I = pinv_atD [OF inv]
  note E = enqueue_posts [OF enq I(6,7)]
  have "\<not> held (threads (pool s)) (pcs s) (next_task (pool s))"
  proof
    assume "held (threads (pool s)) (pcs s) (next_task (pool s))"
    then have "job_ok (task_job (pool s) (next_task (pool s))) False"
      using held_invD(2) [OF I(3)] d by simp
    then show False using E task_job_None [of "pool s" "next_task (pool s)"] by (auto simp: job_ok_def)
  qed
  then have "pinv_at (s\<lparr>pool := tp, pcs := f, dest := NotClosing, spin_lock := spin_lock s,
      posted := posted s @ [next_task (pool s)]\<rparr>) (as @ [next_task (pool s)])"
    using E d wake I(5) by (intro pinv_post [OF inv]) (auto simp: job_ok_def)
  moreover have "s\<lparr>pool := tp, pcs := f, dest := NotClosing, spin_lock := spin_lock s,
      posted := posted s @ [next_task (pool s)]\<rparr> =
      s\<lparr>pool := tp, pcs := f, posted := posted s @ [next_task (pool s)]\<rparr>"
    using d by simp
  ultimately show ?thesis by simp
qed

lemma pinv_destroy_post:
  assumes inv: "pinv_at s as" and d: "dest s = Posting n"
    and post: "thread_task_post 0 0 (Ptr (exit_task s)) (pool s) = Inr (T_OK, tp)"
    and wake: "(\<exists>w < threads (pool s). pcs s w = Blocked \<and> f = (pcs s)(w := Woken)) \<or>
      none_blocked s \<and> f = pcs s"
  shows "pinv_at (s\<lparr>pool := tp, pcs := f, dest := Spinning n, spin_lock := True,
      posted := posted s @ [exit_task s]\<rparr>) (as @ [exit_task s])"
proof -
  note I = pinv_atD [OF inv]
  have ph: "exits (threads (pool s)) (pcs s) = n" "exit_task s \<notin> set as"
      "\<not> held (threads (pool s)) (pcs s) (exit_task s)"
      "task_job (pool s) (exit_task s) = Some (None, ExitHandler)"
    using I(5) d by simp_all
  then have live: "tasks (pool s) (exit_task s) \<noteq> None" using task_job_None by (metis option.distinct(1))
  note P = post_posts [OF post I(6) ph(2) live I(7)]
  show ?thesis
    using P d wake ph by (intro pinv_post [OF inv]) (auto simp: job_ok_def)
qed

lemma pinv_step:
  assumes "pstep s t" and inv: "pinv_at s as"
  shows "\<exists>as'. pinv_at t as'"
  using assms(1)
proof (cases rule: pstep.cases)
  case (post_wake c tp w)
  then show ?thesis using pinv_enqueue [OF inv, of c tp "(pcs s)(w := Woken)"] by blast
next
  case (post_nowake c tp)
  have "s\<lparr>pool := tp, pcs := pcs s, posted := posted s @ [next_task (pool s)]\<rparr> = t"
    using post_nowake by simp
  then show ?thesis using post_nowake pinv_enqueue [OF inv, of c tp "pcs s"] by metis
next
  case (post_refused c tp)
  then show ?thesis using pinv_refused [OF inv] by blast
next
  case (enter_take w a tp)
  then show ?thesis using pinv_take [OF inv, of w "cycle_enter (pool s)" a tp] by blast
next
  case (enter_wait w)
  then have "as = []" using pinv_atD(6) [OF inv] queue_path_first by blast
  then have "pinv_at (s\<lparr>pool := cycle_enter (pool s), pcs := (pcs s)(w := Blocked)\<rparr>) as"
    using enter_wait by (intro pinv_move [OF inv]) (simp_all add: cycle_enter_def is_waiting_def)
  then show ?thesis using enter_wait by blast
next
  case (spurious w)
  have "pinv_at (s\<lparr>pool := pool s, pcs := (pcs s)(w := Woken)\<rparr>) as"
    using spurious by (intro pinv_move [OF inv]) (simp_all add: is_waiting_def)
  then show ?thesis using spurious by auto
next
  case (retry_take w a tp)
  then show ?thesis using pinv_take [OF inv, of w "pool s" a tp] by blast
next
  case (retry_wait w)
  then have "as = []" using pinv_atD(6) [OF inv] queue_path_first by blast
  then have "pinv_at (s\<lparr>pool := pool s, pcs := (pcs s)(w := Blocked)\<rparr>) as"
    using retry_wait by (intro pinv_move [OF inv]) (simp_all add: is_waiting_def)
  then show ?thesis using retry_wait by auto
next
  case (run_service w a tp)
  then show ?thesis using pinv_service [OF inv] by blast
next
  case (run_exit w a)
  then show ?thesis using pinv_exit [OF inv] by blast
next
  case destroy_start
  then show ?thesis using pinv_destroy_start [OF inv] by blast
next
  case (destroy_wake n tp w)
  have "s\<lparr>pool := tp, pcs := (pcs s)(w := Woken), dest := Spinning n, spin_lock := True,
      posted := posted s @ [exit_task s]\<rparr> = t" using destroy_wake by simp
  moreover have "pinv_at (s\<lparr>pool := tp, pcs := (pcs s)(w := Woken), dest := Spinning n, spin_lock := True,
      posted := posted s @ [exit_task s]\<rparr>) (as @ [exit_task s])"
    using destroy_wake by (intro pinv_destroy_post [OF inv]) auto
  ultimately show ?thesis by auto
next
  case (destroy_nowake n tp)
  have "s\<lparr>pool := tp, pcs := pcs s, dest := Spinning n, spin_lock := True,
      posted := posted s @ [exit_task s]\<rparr> = t" using destroy_nowake by simp
  moreover have "pinv_at (s\<lparr>pool := tp, pcs := pcs s, dest := Spinning n, spin_lock := True,
      posted := posted s @ [exit_task s]\<rparr>) (as @ [exit_task s])"
    using destroy_nowake by (intro pinv_destroy_post [OF inv]) auto
  ultimately show ?thesis by auto
next
  case (destroy_refused n tp)
  then have "tp = pool s" using post_T_ERROR_same by blast
  then have "pinv_at t as"
    using inv destroy_refused by (simp add: pinv_at_def)
  then show ?thesis by blast
next
  case (destroy_spun n)
  then have "as = []" using pinv_atD(5) [OF inv] by simp
  then have "pinv_at t as" using inv destroy_spun by (simp add: pinv_at_def)
  then show ?thesis by blast
next
  case (destroy_done n)
  have "exits (threads (pool s)) (pcs s) = n" "0 < n \<longrightarrow> as = []"
    using pinv_atD(5) [OF inv] destroy_done by simp_all
  then have ex: "exits (threads (pool s)) (pcs s) = threads (pool s)" "0 < threads (pool s) \<longrightarrow> as = []"
    using destroy_done exits_le [of "threads (pool s)" "pcs s"] by auto
  have "dest s \<noteq> NotClosing" using destroy_done by simp
  then have "pinv_at t as"
    using pinv_atD(1-4) [OF inv] ex unfolding destroy_done(1) by (simp add: pinv_at_def)
  then show ?thesis by blast
qed

lemma thread_pool_init_fresh:
  "thread_pool_init rc Map.empty 0 0 = Inr (Some tp, n) \<Longrightarrow> tp = fresh_pool \<and> n = threads tp"
proof -
  assume "thread_pool_init rc Map.empty 0 0 = Inr (Some tp, n)"
  then obtain ok where ok: "create_threads (rc_create rc) 0 (threads tp) = (ok, n)" "ok" "tp = fresh_pool"
    by (auto simp: thread_pool_init_def Let_def fresh_pool_def split: if_splits prod.splits)
  moreover have "create_threads f k m = (True, i) \<Longrightarrow> k \<le> m \<Longrightarrow> i = m" for f k m i
  proof (induction f k m rule: create_threads.induct)
    case (1 rc n tot)
    then show ?case by (auto simp: create_threads.simps [of rc n tot] split: if_splits)
  qed
  ultimately show ?thesis by simp
qed

lemma fresh_pool_fields:
  "queue_path fresh_pool []" "bounded fresh_pool" "waiting fresh_pool = 0" "threads fresh_pool = 4"
  "max_queue fresh_pool = 65535"
  by (simp_all add: fresh_pool_def thread_pool_queue_init_def thread_pool_init_default_def
      calloc_pool_def bounded_def DEFAULT_QUEUE_NUM_def DEFAULT_THREADS_NUM_def)

lemma count_below_none: "(\<And>w. \<not> P w) \<Longrightarrow> count_below n P = 0"
  by (simp add: count_below_def)

lemma pinv_init:
  assumes "pinit s"
  shows "pinv_at s []"
proof -
  have p: "pool s = fresh_pool" "pcs s = (\<lambda>_. AtLock)" "dest s = NotClosing" "posted s = []" "started s = []"
    using assms thread_pool_init_fresh unfolding pinit_def by blast+
  have "idle 4 (\<lambda>_. AtLock) = 0" "exits 4 (\<lambda>_. AtLock) = 0"
    unfolding idle_def exits_def by (rule count_below_none; simp add: is_waiting_def)+
  then show ?thesis
    using fresh_pool_fields(1) [unfolded queue_path_Nil]
    by (simp add: pinv_at_def pool_inv_def held_inv_def awake_def held_def p fresh_pool_fields(2-))
qed

lemma preach_pinv: "preach s \<Longrightarrow> \<exists>as. pinv_at s as"
proof (induction rule: preach.induct)
  case (preach_init s)
  then show ?case using pinv_init by blast
next
  case (preach_step s t)
  then show ?case using pinv_step by blast
qed

subsection \<open>What every reachable pool satisfies\<close>

lemma preachE:
  assumes "preach s"
  obtains as where "pinv_at s as"
  using preach_pinv [OF assms] by blast

lemma take_defined:
  assumes "queue_path tp as" and "q_first tp \<noteq> Null"
  obtains a tp' where "cycle_take tp = Inr (Ptr a, tp')"
proof -
  have "as \<noteq> []" using assms queue_path_first [of tp as] by simp
  then obtain a as' where "as = a # as'" by (cases as) auto
  then have "queue_path tp (a # as')" using assms(1) by simp
  then obtain tp' where "cycle_take tp = Inr (Ptr a, tp')" by (rule take_ok)
  with that show thesis .
qed

lemma queue_path_enter: "queue_path (cycle_enter tp) as = queue_path tp as"
  by (simp add: queue_path_def cycle_enter_def)

lemma held_job:
  assumes "pinv_at s as" and "w < threads (pool s)" and "pcs s w = HasTask a"
  shows "a \<notin> set as" and "\<exists>t. tasks (pool s) a = Some t" and
    "map_option snd (task_job (pool s) a) = Some SvcHandler \<or>
     map_option snd (task_job (pool s) a) = Some ExitHandler"
proof -
  note h = pinv_atD(3) [OF assms(1)]
  have held: "held (threads (pool s)) (pcs s) a" using assms(2,3) by (auto simp: held_def)
  show "a \<notin> set as" using held_invD(4) [OF h held] .
  have job: "job_ok (task_job (pool s) a) (dest s \<noteq> NotClosing \<and> a = exit_task s)"
    using held_invD(2) [OF h held] .
  then show "map_option snd (task_job (pool s) a) = Some SvcHandler \<or>
     map_option snd (task_job (pool s) a) = Some ExitHandler"
    by (auto simp: job_ok_def split: if_splits)
  show "\<exists>t. tasks (pool s) a = Some t"
    using job by (auto simp: job_ok_def task_job_def split: if_splits)
qed

text \<open>A worker that is neither blocked nor gone has a step, when there is something to take.\<close>

lemma worker_step:
  assumes inv: "pinv_at s as" and w: "w < threads (pool s)" "active (pcs s w)"
    and ne: "q_first (pool s) \<noteq> Null"
  shows "\<exists>t. pstep s t \<and> pcs t w \<noteq> pcs s w"
proof (cases "pcs s w")
  case AtLock
  have "queue_path (cycle_enter (pool s)) as" "q_first (cycle_enter (pool s)) \<noteq> Null"
    using pinv_atD(6) [OF inv] ne by (simp_all add: queue_path_enter) (simp add: cycle_enter_def)
  then obtain a tp where take: "cycle_take (cycle_enter (pool s)) = Inr (Ptr a, tp)"
    by (rule take_defined)
  show ?thesis
    by (intro exI conjI, rule enter_take [OF w(1) AtLock ne take]) (simp add: AtLock)
next
  case Woken
  obtain a tp where take: "cycle_take (pool s) = Inr (Ptr a, tp)"
    using take_defined [OF pinv_atD(6) [OF inv] ne] .
  show ?thesis
    by (intro exI conjI, rule retry_take [OF w(1) Woken ne take]) (simp add: Woken)
next
  case (HasTask a)
  note H = held_job [OF inv w(1) HasTask]
  from H(3) show ?thesis
  proof
    assume svc: "map_option snd (task_job (pool s) a) = Some SvcHandler"
    obtain t where "tasks (pool s) a = Some t" using H(2) by blast
    then have "\<exists>tp. cycle_finish (Ptr a) (pool s) = Inr tp"
      using finish_ok(1) [OF pinv_atD(6) [OF inv] H(1)] by blast
    then obtain tp where fin: "cycle_finish (Ptr a) (pool s) = Inr tp" by blast
    show ?thesis
      by (intro exI conjI, rule run_service [OF w(1) HasTask svc fin]) (simp add: HasTask)
  next
    assume ex: "map_option snd (task_job (pool s) a) = Some ExitHandler"
    show ?thesis
      by (intro exI conjI, rule run_exit [OF w(1) HasTask ex]) (simp add: HasTask)
  qed
qed (use w(2) in \<open>simp_all add: active_def\<close>)

lemma some_active:
  assumes inv: "pinv_at s as" and w: "w < threads (pool s)" "pcs s w \<noteq> Exited"
    and ne: "q_first (pool s) \<noteq> Null"
  obtains v where "v < threads (pool s)" and "active (pcs s v)"
proof (cases "pcs s w = Blocked")
  case True
  have "as \<noteq> []" using queue_path_first [OF pinv_atD(6) [OF inv]] ne by simp
  then have "\<exists>v < threads (pool s). active (pcs s v)"
    using pinv_atD(4) [OF inv] w(1) True unfolding awake_def by blast
  with that show thesis by blast
next
  case False
  then show thesis using that [OF w(1)] w(2) by (simp add: active_def)
qed

subsection \<open>Runs used as witnesses\<close>

definition rc_success :: init_rc where
  "rc_success = \<lparr>rc_calloc = True, rc_mattr_init = 0, rc_mattr_settype = 0, rc_mutex_init = 0,
     rc_mattr_destroy = 0, rc_cond_init = 0, rc_attr_init = 0, rc_attr_detach = 0, rc_create = (\<lambda>_. 0)\<rparr>"

lemma rc_success_pool: "thread_pool_init rc_success Map.empty 0 0 = Inr (Some fresh_pool, 4)"
  using create_threads_ok [of 0 4 "\<lambda>_. 0"] fresh_pool_fields(4)
  by (simp add: thread_pool_init_def rc_success_def fresh_pool_def [symmetric]
      fresh_pool_fields(4) thread_mutex_create_def Let_def)

definition psys0 :: "string psys" where
  "psys0 = \<lparr>pool = fresh_pool, pcs = (\<lambda>_. AtLock), dest = NotClosing, exit_task = 0,
     spin_lock = False, posted = [], started = []\<rparr>"

lemma psys0_init: "preach psys0"
  by (rule preach_init, unfold pinit_def, intro conjI exI, simp add: psys0_def, rule rc_success_pool)
    (simp_all add: psys0_def)

lemma fresh_pool_eq:
  "fresh_pool = \<lparr>tasks = Map.empty, next_task = 0, q_first = Null, q_last = FirstLink, waiting = 0,
     pool_name = ''default'', threads = 4, max_queue = 65535, pool_task_id = 0\<rparr>"
  by (simp add: fresh_pool_def thread_pool_queue_init_def thread_pool_init_default_def
      calloc_pool_def DEFAULT_QUEUE_NUM_def DEFAULT_THREADS_NUM_def)

text \<open>Closing an idle pool: \<open>n\<close> workers are gone and the others are about to lock.\<close>

definition closing :: "'c psys \<Rightarrow> nat \<Rightarrow> bool" where
  "closing s n \<longleftrightarrow> preach s \<and> dest s = Posting n \<and> q_first (pool s) = Null \<and> threads (pool s) = 4 \<and>
     waiting (pool s) < max_queue (pool s) \<and> (\<forall>w < 4. pcs s w = (if w < n then Exited else AtLock))"

lemma enter_frame:
  "task_job (cycle_enter tp) = task_job tp" "threads (cycle_enter tp) = threads tp"
  "max_queue (cycle_enter tp) = max_queue tp" "waiting (cycle_enter tp) = waiting tp - 1"
  "q_first (cycle_enter tp) = q_first tp"
  by (simp_all add: cycle_enter_def task_job_def fun_eq_iff)

lemma closing_round:
  fixes s :: "'c psys"
  assumes c: "closing s n" and n: "n < 4"
  shows "\<exists>t :: 'c psys. closing t (Suc n)"
proof -
  have s: "preach s" "dest s = Posting n" "q_first (pool s) = Null" "threads (pool s) = 4"
      "waiting (pool s) < max_queue (pool s)" "\<forall>w < 4. pcs s w = (if w < n then Exited else AtLock)"
    using c unfolding closing_def by blast+
  obtain as where inv: "pinv_at s as" using s(1) by (rule preachE)
  have "as = []" using queue_path_first [OF pinv_atD(6) [OF inv]] s(3) by simp
  then have path: "queue_path (pool s) []" and
      job: "task_job (pool s) (exit_task s) = Some (None, ExitHandler)"
    using pinv_atD(5,6) [OF inv] s(2) by simp_all
  obtain t0 where live: "tasks (pool s) (exit_task s) = Some t0" using job by (auto simp: task_job_def)
  have notin: "exit_task s \<notin> set []" by simp
  obtain tp where tp: "thread_task_post 0 0 (Ptr (exit_task s)) (pool s) = Inr (T_OK, tp)"
      "queue_path tp ([] @ [exit_task s])" "same_frame (pool s) tp" "waiting tp = waiting (pool s) + 1"
    using post_ok [OF path notin live s(5)] .
  let ?s1 = "s\<lparr>pool := tp, spin_lock := True, dest := Spinning n, posted := posted s @ [exit_task s]\<rparr>"
  have step1: "pstep s ?s1"
  proof (rule destroy_nowake [OF s(2) _ tp(1)])
    show "n < threads (pool s)" using n s(4) by simp
    show "none_blocked s" using s(4,6) by (simp add: none_blocked_def)
  qed
  have thr: "threads tp = 4" "max_queue tp = max_queue (pool s)"
    using tp(3) s(4) by (simp_all add: same_frame_def)
  have "queue_path (cycle_enter tp) (exit_task s # [])" using tp(2) by (simp add: queue_path_enter)
  then obtain tp2 where tp2: "cycle_take (cycle_enter tp) = Inr (Ptr (exit_task s), tp2)"
      "queue_path tp2 []" "same_frame (cycle_enter tp) tp2" "waiting tp2 = waiting (cycle_enter tp)"
    by (rule take_ok)
  let ?s2 = "?s1\<lparr>pool := tp2, pcs := (pcs ?s1)(n := HasTask (exit_task s)),
      started := started ?s1 @ [exit_task s]\<rparr>"
  have ne: "q_first tp \<noteq> Null" using queue_path_first [OF tp(2)] by simp
  have at: "pcs s n = AtLock" using s(6) n by simp
  have step2: "pstep ?s1 ?s2"
    by (rule enter_take) (simp_all add: n thr ne at tp2(1))
  have fr2: "task_job tp2 = task_job (pool s)" "threads tp2 = 4" "max_queue tp2 = max_queue (pool s)"
      "waiting tp2 = waiting (pool s)"
    using tp(3,4) tp2(3,4) thr
    by (simp_all add: same_frame_def enter_frame)
  let ?s3 = "?s2\<lparr>spin_lock := False, pcs := (pcs ?s2)(n := Exited)\<rparr>"
  have step3: "pstep ?s2 ?s3"
    by (rule run_exit [where a = "exit_task s"]) (simp_all add: n fr2 job)
  let ?s4 = "?s3\<lparr>dest := Posting (Suc n)\<rparr>"
  have step4: "pstep ?s3 ?s4" by (rule destroy_spun) simp_all
  have reach: "preach ?s4"
    by (rule preach_step [OF preach_step [OF preach_step [OF preach_step [OF s(1) step1] step2] step3] step4])
  have "closing ?s4 (Suc n)"
    unfolding closing_def
  proof (intro conjI reach)
    show "q_first (pool ?s4) = Null" using tp2(2) by simp
    show "waiting (pool ?s4) < max_queue (pool ?s4)" using s(5) fr2 by simp
    show "\<forall>w < 4. pcs ?s4 w = (if w < Suc n then Exited else AtLock)"
      using s(6) by (auto simp: less_Suc_eq)
  qed (simp_all add: fr2)
  then show ?thesis ..
qed

lemma closing_all: "closing (s :: 'c psys) 0 \<Longrightarrow> n \<le> 4 \<Longrightarrow> \<exists>t :: 'c psys. closing t n"
proof (induction n)
  case (Suc n)
  then have "n \<le> 4" and n: "n < 4" by simp_all
  then obtain t :: "'c psys" where "closing t n" using Suc.IH [OF Suc.prems(1)] by blast
  then show ?case using n by (rule closing_round)
qed blast

lemma destroyed_reachable:
  "\<exists>s :: string psys. preach s \<and> dest s = Destroyed \<and> 0 < threads (pool s)"
proof -
  have d0: "dest psys0 = NotClosing" by (simp add: psys0_def)
  have "closing (psys0\<lparr>dest := Posting 0, exit_task := next_task (pool psys0),
      pool := exit_task_init (pool psys0)\<rparr>) 0"
    unfolding closing_def
    using preach_step [OF psys0_init destroy_start [OF d0]]
    by (simp add: psys0_def exit_task_init_def fresh_pool_eq)
  then obtain t :: "string psys" where t: "closing t 4" using closing_all by blast
  have "pstep t (t\<lparr>dest := Destroyed\<rparr>)"
    using t by (intro destroy_done [of _ 4]) (simp_all add: closing_def)
  then have "preach (t\<lparr>dest := Destroyed\<rparr>)" using t preach_step unfolding closing_def by blast
  then show ?thesis using t by (intro exI conjI) (assumption, simp_all add: closing_def)
qed

text \<open>A worker waits, another is on its way, and a task is queued.\<close>

definition task0 :: "string thread_task" where
  "task0 = \<lparr>task_next = Null, task_id = 0, task_ctx = Some ''job'', task_handler = SvcHandler\<rparr>"

definition psys1 :: "string psys" where
  "psys1 = psys0\<lparr>pool := cycle_enter fresh_pool, pcs := (\<lambda>_. AtLock)(0 := Blocked)\<rparr>"

definition psys2 :: "string psys" where
  "psys2 = psys1\<lparr>pool := cycle_enter (cycle_enter fresh_pool),
     pcs := (\<lambda>_. AtLock)(0 := Blocked, 1 := Blocked)\<rparr>"

definition psys3 :: "string psys" where
  "psys3 = psys2\<lparr>pool := fresh_pool\<lparr>tasks := [0 \<mapsto> task0], next_task := 1, q_first := Ptr 0,
       q_last := NextLink 0, waiting := -1, pool_task_id := 1\<rparr>,
     pcs := (\<lambda>_. AtLock)(1 := Blocked, 0 := Woken), posted := [0]\<rparr>"

lemma psys3_reach: "preach psys3"
proof -
  have "pstep psys0 (psys0\<lparr>pool := cycle_enter (pool psys0), pcs := (pcs psys0)(0 := Blocked)\<rparr>)"
    by (rule enter_wait) (simp_all add: psys0_def fresh_pool_eq)
  then have 1: "pstep psys0 psys1" by (simp add: psys1_def psys0_def)
  have "pstep psys1 (psys1\<lparr>pool := cycle_enter (pool psys1), pcs := (pcs psys1)(1 := Blocked)\<rparr>)"
    by (rule enter_wait) (simp_all add: psys1_def psys0_def fresh_pool_eq cycle_enter_def)
  then have 2: "pstep psys1 psys2" by (simp add: psys2_def psys1_def)
  have "pstep psys2 (psys2\<lparr>pool := pool psys3, pcs := (pcs psys2)(0 := Woken),
      posted := posted psys2 @ [next_task (pool psys2)]\<rparr>)"
    by (rule post_wake [where c = "''job''"])
      (simp_all add: psys3_def psys2_def psys1_def psys0_def fresh_pool_eq cycle_enter_def enqueue_def
        thread_task_alloc_def upd_task_def thread_task_post_def store_link_def link_of_def
        task0_def T_OK_def thread_mutex_lock_def thread_cond_signal_def)
  then have 3: "pstep psys2 psys3"
    by (simp add: psys3_def psys2_def psys1_def psys0_def fresh_pool_eq cycle_enter_def fun_upd_twist)
  show ?thesis using preach_step [OF preach_step [OF preach_step [OF psys0_init 1] 2] 3] .
qed

lemma holding_reachable: "\<exists>s :: string psys. preach s \<and> 0 < threads (pool s) \<and> pcs s 0 = HasTask 0"
proof -
  let ?tp = "(pool psys3)\<lparr>q_first := Null, q_last := FirstLink\<rparr>"
  let ?s = "psys3\<lparr>pool := ?tp, pcs := (pcs psys3)(0 := HasTask 0), started := started psys3 @ [0]\<rparr>"
  have "pstep psys3 ?s"
    by (rule retry_take)
      (simp_all add: psys3_def psys2_def psys1_def psys0_def fresh_pool_eq cycle_take_def task0_def)
  then have "preach ?s" using psys3_reach preach_step by blast
  then show ?thesis by (intro exI conjI) (assumption, simp_all add: psys3_def fresh_pool_eq)
qed

lemma task_path_unique: "task_path h p as \<Longrightarrow> task_path h p bs \<Longrightarrow> as = bs"
proof (induction as arbitrary: p bs)
  case Nil
  then show ?case by (cases bs) auto
next
  case (Cons a as)
  then show ?case by (cases bs) auto
qed

subsection \<open>Properties\<close>

text \<open>
  C7. In every reachable pool the queue is a well-formed list: tasks are started in the order they
  were posted, none lost and none twice; \<open>waiting\<close> is the number of queued tasks less the number
  of idle workers, and the queue never grows past \<open>max_queue\<close> plus the number of threads.
\<close>

theorem pool_fifo_accounting:
  assumes "preach s"
  shows "\<exists>as. queue_path (pool s) as \<and> posted s = started s @ as \<and>
     waiting (pool s) = int (length as) - int (count_below (threads (pool s)) (\<lambda>w. is_waiting (pcs s w))) \<and>
     int (length as) \<le> max_queue (pool s) + int (threads (pool s))"
proof -
  obtain as where inv: "pinv_at s as" using assms by (rule preachE)
  then show ?thesis
    using pinv_atD(1,2) [OF inv] unfolding pool_inv_def idle_def by blast
qed

theorem pool_fifo_accounting_witness:
  "\<exists>as. queue_path (pool psys3) as \<and> posted psys3 = started psys3 @ as \<and>
     waiting (pool psys3) =
       int (length as) - int (count_below (threads (pool psys3)) (\<lambda>w. is_waiting (pcs psys3 w))) \<and>
     int (length as) \<le> max_queue (pool psys3) + int (threads (pool psys3))"
  by (rule pool_fifo_accounting) (rule psys3_reach)

text \<open>
  C8. No wake-up is lost and no step faults: whenever a task is queued and some worker is still
  there, one of the workers that are not blocked has a step of its own, so a queued task never
  waits for a signal that was already given.
\<close>

theorem pool_progress:
  assumes "preach s" and "q_first (pool s) \<noteq> Null" and "w < threads (pool s)" and "pcs s w \<noteq> Exited"
  shows "\<exists>v t. v < threads (pool s) \<and> pcs s v \<noteq> Blocked \<and> pstep s t \<and> pcs t v \<noteq> pcs s v"
proof -
  obtain as where inv: "pinv_at s as" using assms(1) by (rule preachE)
  obtain v where v: "v < threads (pool s)" "active (pcs s v)"
    using some_active [OF inv assms(3,4,2)] .
  then show ?thesis using worker_step [OF inv v assms(2)] by (auto simp: active_def)
qed

theorem pool_progress_witness:
  "\<exists>v t. v < threads (pool psys3) \<and> pcs psys3 v \<noteq> Blocked \<and> pstep psys3 t \<and> pcs t v \<noteq> pcs psys3 v"
  by (rule pool_progress [where w = 1], rule psys3_reach)
    (simp_all add: psys3_def psys2_def psys1_def psys0_def fresh_pool_eq)

text \<open>
  What a worker holds is a live task that is no longer in the queue and that no other worker
  holds; it is the exit task only once the pool is being destroyed.
\<close>

theorem pool_task_ownership:
  assumes "preach s" and "w < threads (pool s)" and "pcs s w = HasTask a"
  shows "tasks (pool s) a \<noteq> None \<and> (\<forall>as. queue_path (pool s) as \<longrightarrow> a \<notin> set as) \<and>
     (\<forall>v < threads (pool s). pcs s v = HasTask a \<longrightarrow> v = w) \<and>
     (dest s = NotClosing \<longrightarrow> map_option snd (task_job (pool s) a) = Some SvcHandler)"
proof -
  obtain as where inv: "pinv_at s as" using assms(1) by (rule preachE)
  note I = held_invD [OF pinv_atD(3) [OF inv]]
  have h: "held (threads (pool s)) (pcs s) a" using assms(2,3) unfolding held_def by blast
  have "\<forall>bs. queue_path (pool s) bs \<longrightarrow> bs = as"
    using task_path_unique pinv_atD(6) [OF inv] unfolding queue_path_def by blast
  then have "\<forall>bs. queue_path (pool s) bs \<longrightarrow> a \<notin> set bs" using I(4) [OF h] by blast
  moreover have "tasks (pool s) a \<noteq> None" using held_job(2) [OF inv assms(2,3)] by auto
  moreover have "\<forall>v < threads (pool s). pcs s v = HasTask a \<longrightarrow> v = w" using I(3) assms(2,3) by blast
  moreover have "dest s = NotClosing \<Longrightarrow> map_option snd (task_job (pool s) a) = Some SvcHandler"
    using I(2) [OF h] by (auto simp: job_ok_def)
  ultimately show ?thesis by blast
qed

theorem pool_task_ownership_witness:
  "\<exists>s :: string psys. pcs s 0 = HasTask 0 \<and>
     (tasks (pool s) 0 \<noteq> None \<and> (\<forall>as. queue_path (pool s) as \<longrightarrow> 0 \<notin> set as) \<and>
     (\<forall>v < threads (pool s). pcs s v = HasTask 0 \<longrightarrow> v = 0) \<and>
     (dest s = NotClosing \<longrightarrow> map_option snd (task_job (pool s) 0) = Some SvcHandler))"
proof -
  obtain s :: "string psys" where s: "preach s" "0 < threads (pool s)" "pcs s 0 = HasTask 0"
    using holding_reachable by blast
  show ?thesis using s(3) pool_task_ownership [OF s] by blast
qed

text \<open>
  C10. When \<open>thread_pool_destroy\<close> is done every worker has ended, the queue is empty and every task
  that was ever posted was started: no job is dropped at shutdown.
\<close>

theorem destroyed_all_done:
  assumes "preach s" and "dest s = Destroyed" and "0 < threads (pool s)"
  shows "(\<forall>w < threads (pool s). pcs s w = Exited) \<and> q_first (pool s) = Null \<and> posted s = started s"
proof -
  obtain as where inv: "pinv_at s as" using assms(1) by (rule preachE)
  have ph: "exits (threads (pool s)) (pcs s) = threads (pool s)" "as = []"
    using pinv_atD(5) [OF inv] assms(2,3) by simp_all
  moreover have "\<forall>w < threads (pool s). pcs s w = Exited"
    using ph(1) count_below_all unfolding exits_def by blast
  ultimately show ?thesis using pinv_atD(1,6) [OF inv] by simp
qed

theorem destroyed_all_done_witness:
  "\<exists>s :: string psys. dest s = Destroyed \<and>
     (\<forall>w < threads (pool s). pcs s w = Exited) \<and> q_first (pool s) = Null \<and> posted s = started s"
proof -
  obtain s :: "string psys" where s: "preach s" "dest s = Destroyed" "0 < threads (pool s)"
    using destroyed_reachable by blast
  show ?thesis using s(2) destroyed_all_done [OF s] by blast
qed

text \<open>
  When the creation of the \<open>k\<close>-th worker fails the pool is freed and \<open>NULL\<close> returned, while
  the \<open>k\<close> workers created before it, detached, keep running on the freed pool.
\<close>

theorem thread_pool_init_partial:
  assumes "rc_calloc rc" and "rc_mattr_init rc = 0" and "rc_mattr_settype rc = 0"
    and "rc_mutex_init rc = 0" and "rc_cond_init rc = 0" and "rc_attr_init rc = 0"
    and "rc_attr_detach rc = 0" and "k < DEFAULT_THREADS_NUM" and "rc_create rc k \<noteq> 0"
    and "\<forall>j < k. rc_create rc j = 0"
  shows "thread_pool_init rc h n tid = Inr (None, k)"
proof -
  have "create_threads (rc_create rc) 0 DEFAULT_THREADS_NUM = (False, k)"
    using assms(8-10) by (intro create_threads_fail) simp_all
  then show ?thesis
    using assms(1-7) by (simp add: thread_pool_init_def thread_mutex_create_def Let_def
        thread_pool_queue_init_def thread_pool_init_default_def)
qed

theorem thread_pool_init_partial_witness:
  "thread_pool_init (rc_success\<lparr>rc_create := (\<lambda>n. if n = 2 then 11 else 0)\<rparr>) Map.empty 0 0 =
     Inr (None :: string thread_pool option, 2)"
  by (rule thread_pool_init_partial) (simp_all add: rc_success_def DEFAULT_THREADS_NUM_def)

end
