(* ===== verification/Session.thy ===== *)
theory Session
  imports Events
begin

text \<open>
  The connection state of \<^verbatim>\<open>src/src/NetworkInterface.h\<close> and the operations on one session of
  \<^verbatim>\<open>src/src/NetworkInterface.cc\<close>: \<open>session_init\<close>, \<open>session_reset\<close>, \<open>session_free\<close> and
  \<open>send_response_msg\<close>. libevent's buffer events are a parameter; sessions and buffer events live
  on heaps, so a use after \<open>bufferevent_free\<close> or \<open>session_free\<close> is a fault.
\<close>

definition MESSAGE_HEADER_LEN :: nat where
  "MESSAGE_HEADER_LEN = 10"

definition MESSAGE_HEADER :: string where
  "MESSAGE_HEADER = ''FBEB''"

definition magic :: bytes where
  "magic = [0x46, 0x42, 0x45, 0x42]"

lemma magic_bytes: "bytes_of MESSAGE_HEADER = magic"
  by (simp add: MESSAGE_HEADER_def magic_def bytes_of_def byte_of_def)

lemma magic_length [simp]: "length magic = 4"
  by (simp add: magic_def)

datatype MESSAGE_STATUS = MS_READ_HEADER | MS_READ_MESSAGE | MS_READ_DONE | MS_SENDING

datatype SESSION_STATUS = SS_REQUEST | SS_RESPONSE

text \<open>
  A session owns its two buffers, so they are values; \<open>bev\<close> is the address of its buffer event.
\<close>

record ConnectSession =
  remote_ip :: string
  session_stat :: SESSION_STATUS
  request :: "iEvent option"
  req_stat :: MESSAGE_STATUS
  response :: "iEvent option"
  res_stat :: MESSAGE_STATUS
  cs_eid :: u16
  cs_fd :: i32
  bev :: ptr
  msg_len :: u32
  read_msg_len :: u32
  read_buf :: "bytes option"
  header :: bytes
  read_header_len :: u32
  write_buf :: "bytes option"
  sent_len :: u32

subsection \<open>Buffer events\<close>

text \<open>
  libevent's \<open>bufferevent_read\<close> with a size, the length of the input buffer,
  \<open>bufferevent_write\<close>, and \<open>bufferevent_socket_new\<close> on a descriptor.
\<close>

record 'b libevent =
  le_read :: "nat \<Rightarrow> 'b \<Rightarrow> bytes \<times> 'b"
  le_input_length :: "'b \<Rightarrow> nat"
  le_write :: "bytes \<Rightarrow> 'b \<Rightarrow> 'b"
  le_new :: "i32 \<Rightarrow> 'b"

text \<open>
  What the manual says of them, over the bytes waiting in the input buffer and those appended to
  the output buffer: a read takes as many bytes as there are, up to the size given, from the front;
  a write appends; a new buffer event starts with empty buffers.
\<close>

definition libevent_ok :: "'b libevent \<Rightarrow> ('b \<Rightarrow> bytes) \<Rightarrow> ('b \<Rightarrow> bytes) \<Rightarrow> bool" where
  "libevent_ok L inp out \<longleftrightarrow>
     (\<forall>n b. fst (le_read L n b) = take n (inp b) \<and> inp (snd (le_read L n b)) = drop n (inp b) \<and>
        out (snd (le_read L n b)) = out b) \<and>
     (\<forall>b. le_input_length L b = length (inp b)) \<and>
     (\<forall>bs b. out (le_write L bs b) = out b @ bs \<and> inp (le_write L bs b) = inp b) \<and>
     (\<forall>fd. inp (le_new L fd) = [] \<and> out (le_new L fd) = [])"

lemma libevent_okD:
  assumes "libevent_ok L inp out"
  shows "fst (le_read L n b) = take n (inp b)" and "inp (snd (le_read L n b)) = drop n (inp b)"
    and "out (snd (le_read L n b)) = out b" and "le_input_length L b = length (inp b)"
    and "out (le_write L bs b) = out b @ bs" and "inp (le_write L bs b) = inp b"
    and "inp (le_new L fd) = []" and "out (le_new L fd) = []"
  using assms unfolding libevent_ok_def by blast+

text \<open>A pair of byte lists has the documented behaviour.\<close>

definition list_libevent :: "(bytes \<times> bytes) libevent" where
  "list_libevent = \<lparr>le_read = (\<lambda>n (i, o'). (take n i, (drop n i, o'))),
     le_input_length = (\<lambda>(i, o'). length i), le_write = (\<lambda>bs (i, o'). (i, o' @ bs)),
     le_new = (\<lambda>fd. ([], []))\<rparr>"

lemma list_libevent_ok: "libevent_ok list_libevent fst snd"
  by (simp add: libevent_ok_def list_libevent_def split: prod.splits)

text \<open>
  A live buffer event with what \<open>bufferevent_setcb\<close>, \<open>bufferevent_enable\<close> and
  \<open>bufferevent_settimeout\<close> stored in it: the callback argument, whether reading is enabled and
  the two timeouts in seconds.
\<close>

record 'b bufferevent =
  bev_io :: 'b
  bev_arg :: ptr
  bev_reading :: bool
  bev_timeouts :: "nat \<times> nat"

record 'b net =
  bevs :: "nat \<rightharpoonup> 'b bufferevent"
  next_bev :: nat
  sessions :: "nat \<rightharpoonup> ConnectSession"
  next_cs :: nat

definition bufferevent_free :: "ptr \<Rightarrow> 'b net \<Rightarrow> 'b net res" where
  "bufferevent_free p n = (case p of
      Null \<Rightarrow> Inl NullDeref
    | Ptr a \<Rightarrow> bindR (deref (bevs n) (Ptr a)) (\<lambda>_. Inr (n\<lparr>bevs := (bevs n)(a := None)\<rparr>)))"

definition bev_write :: "'b libevent \<Rightarrow> ptr \<Rightarrow> bytes \<Rightarrow> 'b net \<Rightarrow> 'b net res" where
  "bev_write L p bs n = (case p of
      Null \<Rightarrow> Inl NullDeref
    | Ptr a \<Rightarrow> bindR (deref (bevs n) (Ptr a)) (\<lambda>b.
        Inr (n\<lparr>bevs := (bevs n)(a \<mapsto> b\<lparr>bev_io := le_write L bs (bev_io b)\<rparr>)\<rparr>)))"

text \<open>Writing through a session pointer.\<close>

definition upd_session :: "ptr \<Rightarrow> (ConnectSession \<Rightarrow> ConnectSession) \<Rightarrow> 'b net \<Rightarrow> 'b net res" where
  "upd_session p f n = (case p of
      Null \<Rightarrow> Inl NullDeref
    | Ptr a \<Rightarrow> bindR (deref (sessions n) (Ptr a)) (\<lambda>cs.
        Inr (n\<lparr>sessions := (sessions n)(a \<mapsto> f cs)\<rparr>)))"

subsection \<open>The operations on a session\<close>

text \<open>A session after \<open>memset\<close>, with its descriptor and buffer event.\<close>

definition session_init :: "i32 \<Rightarrow> ptr \<Rightarrow> ConnectSession" where
  "session_init fd b = \<lparr>remote_ip = [], session_stat = SS_REQUEST, request = None,
     req_stat = MS_READ_HEADER, response = None, res_stat = MS_READ_HEADER, cs_eid = 0,
     cs_fd = fd, bev = b, msg_len = 0, read_msg_len = 0, read_buf = None,
     header = replicate (MESSAGE_HEADER_LEN + 1) 0, read_header_len = 0, write_buf = None,
     sent_len = 0\<rparr>"

definition reset_cs :: "ConnectSession \<Rightarrow> ConnectSession" where
  "reset_cs cs = cs\<lparr>read_buf := None, write_buf := None, session_stat := SS_REQUEST,
     req_stat := MS_READ_HEADER, msg_len := 0, read_msg_len := 0, read_header_len := 0\<rparr>"

definition session_reset :: "ptr \<Rightarrow> 'b net \<Rightarrow> 'b net res" where
  "session_reset p n = (if p \<noteq> Null then upd_session p reset_cs n else Inr n)"

text \<open>The second \<open>if\<close> of \<open>session_free\<close> reads \<open>cs->write_buf\<close> outside the null test.\<close>

definition session_free :: "ptr \<Rightarrow> 'b net \<Rightarrow> 'b net res" where
  "session_free p n =
     bindR (if p \<noteq> Null then upd_session p (\<lambda>cs. cs\<lparr>read_buf := None\<rparr>) n else Inr n) (\<lambda>n1.
     bindR (deref (sessions n1) p) (\<lambda>cs.
     bindR (if write_buf cs \<noteq> None then upd_session p (\<lambda>cs. cs\<lparr>write_buf := None\<rparr>) n1 else Inr n1) (\<lambda>n2.
       (case p of Null \<Rightarrow> Inr n2 | Ptr a \<Rightarrow> Inr (n2\<lparr>sessions := (sessions n2)(a := None)\<rparr>)))))"

text \<open>
  \<open>request\<close> is never assigned after \<open>memset\<close>, and deleting an event value has no effect here.
  The bytes \<open>bufferevent_write\<close> is given: \<open>write_buf\<close> with the size \<open>msg_len + 10\<close>, computed in
  \<open>u32\<close>.
\<close>

definition write_region :: "ConnectSession \<Rightarrow> bytes res" where
  "write_region cs = (case write_buf cs of
      None \<Rightarrow> Inl NullDeref
    | Some buf \<Rightarrow> (let len = unat (msg_len cs + word_of_nat MESSAGE_HEADER_LEN)
                   in if len \<le> length buf then Inr (take len buf) else Inl OutOfBounds))"

definition send_response_msg :: "'b libevent \<Rightarrow> ptr \<Rightarrow> 'b net \<Rightarrow> 'b net res" where
  "send_response_msg L p n =
     bindR (deref (sessions n) p) (\<lambda>cs.
       if response cs = None then
         bindR (bufferevent_free (bev cs) n) (\<lambda>n1. session_free p n1)
       else
         bindR (write_region cs) (\<lambda>bs.
         bindR (bev_write L (bev cs) bs n) (\<lambda>n1. session_reset p n1)))"

subsection \<open>Facts about one session\<close>

lemma upd_session_ok [simp]:
  "sessions n a = Some cs \<Longrightarrow> upd_session (Ptr a) f n = Inr (n\<lparr>sessions := (sessions n)(a \<mapsto> f cs)\<rparr>)"
  by (simp add: upd_session_def)

lemma upd_session_gone [simp]:
  "sessions n a = None \<Longrightarrow> upd_session (Ptr a) f n = Inl UseAfterFree"
  by (simp add: upd_session_def)

lemma session_free_ok:
  "sessions n a = Some cs \<Longrightarrow> session_free (Ptr a) n = Inr (n\<lparr>sessions := (sessions n)(a := None)\<rparr>)"
  by (simp add: session_free_def)

lemma session_free_gone:
  "sessions n a = None \<Longrightarrow> session_free (Ptr a) n = Inl UseAfterFree"
  by (simp add: session_free_def)

lemma session_reset_ok:
  "sessions n a = Some cs \<Longrightarrow> session_reset (Ptr a) n = Inr (n\<lparr>sessions := (sessions n)(a \<mapsto> reset_cs cs)\<rparr>)"
  by (simp add: session_reset_def)

lemma bufferevent_free_ok:
  "bevs n b = Some e \<Longrightarrow> bufferevent_free (Ptr b) n = Inr (n\<lparr>bevs := (bevs n)(b := None)\<rparr>)"
  by (simp add: bufferevent_free_def)

lemma bev_write_ok:
  "bevs n b = Some e \<Longrightarrow> bev_write L (Ptr b) bs n =
     Inr (n\<lparr>bevs := (bevs n)(b \<mapsto> e\<lparr>bev_io := le_write L bs (bev_io e)\<rparr>)\<rparr>)"
  by (simp add: bev_write_def)

text \<open>A frame: magic, event identifier and payload length in little-endian order, payload.\<close>

definition frame :: "u16 \<Rightarrow> bytes \<Rightarrow> bytes" where
  "frame eid payload = magic @ le16 eid @ le32 (word_of_nat (length payload)) @ payload"

lemma frame_length: "length (frame eid payload) = 10 + length payload"
  by (simp add: frame_def)

lemma frame_header_take: "take 10 (frame eid payload) = magic @ le16 eid @ le32 (word_of_nat (length payload))"
  by (simp add: frame_def)

lemma frame_payload_drop: "drop 10 (frame eid payload) = payload"
  by (simp add: frame_def)

lemma frame_fields:
  assumes "take 10 hdr = magic @ le16 eid @ le32 len" and "10 \<le> length hdr"
  shows "rd16 (drop 4 hdr) = Inr eid" and "rd32 (drop 6 hdr) = Inr len"
    and "strncmp_eq 4 hdr magic = Inr True"
proof -
  have h: "hdr = magic @ le16 eid @ le32 len @ drop 10 hdr"
    using append_take_drop_id [of 10 hdr] assms(1) by simp
  have "drop 4 hdr = le16 eid @ le32 len @ drop 10 hdr" by (subst h) simp
  then show "rd16 (drop 4 hdr) = Inr eid" by simp
  have "drop 6 hdr = le32 len @ drop 10 hdr" by (subst h) (simp add: magic_def le16_def)
  then show "rd32 (drop 6 hdr) = Inr len" by simp
  show "strncmp_eq 4 hdr magic = Inr True"
    by (subst h) (simp add: magic_def numeral_eq_Suc)
qed

text \<open>What holds of every session between two calls of the interface.\<close>

definition cs_ok :: "ConnectSession \<Rightarrow> bool" where
  "cs_ok cs \<longleftrightarrow> length (header cs) = 11 \<and> write_buf cs = None \<and> request cs = None \<and> bev cs \<noteq> Null \<and>
     (case session_stat cs of
        SS_REQUEST \<Rightarrow> (case req_stat cs of
            MS_READ_HEADER \<Rightarrow> unat (read_header_len cs) < 10 \<and> read_buf cs = None
          | MS_READ_MESSAGE \<Rightarrow> (\<exists>buf. read_buf cs = Some buf \<and> length buf = unat (msg_len cs)) \<and>
              1 \<le> msg_len cs \<and> msg_len cs \<le> MAX_MSG_LEN \<and> read_msg_len cs < msg_len cs
          | _ \<Rightarrow> False)
      | SS_RESPONSE \<Rightarrow> read_buf cs = None \<and> req_stat cs = MS_READ_MESSAGE)"

lemma cs_ok_init: "cs_ok (session_init fd (Ptr b))"
  by (simp add: cs_ok_def session_init_def MESSAGE_HEADER_LEN_def)

lemma cs_ok_reset: "length (header cs) = 11 \<Longrightarrow> request cs = None \<Longrightarrow> bev cs \<noteq> Null \<Longrightarrow> cs_ok (reset_cs cs)"
  by (simp add: cs_ok_def reset_cs_def)

end
