(* ===== verification/Dispatch.thy ===== *)
theory Dispatch
  imports Session UserHandler ThreadPool
begin

text \<open>
  \<^verbatim>\<open>src/src/DispatchMsgService.cc\<close>: the registry of subscribed handlers, the dispatch of an
  event to them on a worker thread, the queue of responses between the workers and the network
  thread, the decoding of requests and the encoding of responses. The registry and the handlers
  are interfaces: their contracts are the locales \<open>registry\<close> and \<open>event_handler\<close>, interpreted on
  the code's subscriber map and on \<open>UserEventHandler\<close>.
\<close>

subsection \<open>State\<close>

text \<open>
  \<open>dms_tp\<close> is \<open>tp_\<close>, \<open>svr_exit\<close> has no value before \<open>open\<close>; \<open>printed\<close> collects what is written to
  \<open>std::cout\<close>. Handlers are pointers of type \<open>'h\<close>.
\<close>

record 'h dms =
  subscribers :: "u32 \<rightharpoonup> 'h list"
  dms_tp :: "iEvent thread_pool option"
  svr_exit :: "bool option"
  responses :: "iEvent list"
  printed :: string

definition DispatchMsgService_new :: "'h dms" where
  "DispatchMsgService_new = \<lparr>subscribers = Map.empty, dms_tp = None, svr_exit = None, responses = [],
     printed = []\<rparr>"

definition getInstance :: "'h dms option \<Rightarrow> 'h dms" where
  "getInstance D = (case D of None \<Rightarrow> DispatchMsgService_new | Some d \<Rightarrow> d)"

text \<open>\<open>mutex_rc\<close>, the result of creating the queue mutex, is ignored.\<close>

definition dms_open ::
    "int \<Rightarrow> init_rc \<Rightarrow> (nat \<rightharpoonup> iEvent thread_task) \<Rightarrow> nat \<Rightarrow> u64 \<Rightarrow> 'h dms \<Rightarrow> (bool \<times> 'h dms) res" where
  "dms_open mutex_rc rc hp n tid d =
     bindR (thread_pool_init rc hp n tid) (\<lambda>(p, k).
       Inr (p \<noteq> None, d\<lparr>svr_exit := Some False, dms_tp := p\<rparr>))"

text \<open>
  \<open>thread_pool_destroy\<close> blocks until the workers are gone; what it does to the pool is in
  \<^verbatim>\<open>ThreadPool\<close>.
\<close>

definition dms_close :: "'h dms \<Rightarrow> 'h dms res" where
  "dms_close d = (case dms_tp d of
      None \<Rightarrow> Inl NullDeref
    | Some _ \<Rightarrow> Inr (d\<lparr>svr_exit := Some True, subscribers := Map.empty, dms_tp := None\<rparr>))"

subsection \<open>The registry\<close>

definition subscribe :: "u32 \<Rightarrow> 'h \<Rightarrow> (u32 \<rightharpoonup> 'h list) \<Rightarrow> (u32 \<rightharpoonup> 'h list)" where
  "subscribe eid h subs = (case subs eid of
      Some hs \<Rightarrow> (if h \<notin> set hs then subs(eid \<mapsto> hs @ [h]) else subs)
    | None \<Rightarrow> subs(eid \<mapsto> [] @ [h]))"

definition unsubscribe :: "u32 \<Rightarrow> 'h \<Rightarrow> (u32 \<rightharpoonup> 'h list) \<Rightarrow> (u32 \<rightharpoonup> 'h list)" where
  "unsubscribe eid h subs = (case subs eid of
      Some hs \<Rightarrow> (if h \<in> set hs then subs(eid \<mapsto> remove1 h hs) else subs)
    | None \<Rightarrow> subs)"

definition handlers_of :: "(u32 \<rightharpoonup> 'h list) \<Rightarrow> u32 \<Rightarrow> 'h list" where
  "handlers_of subs eid = (case subs eid of None \<Rightarrow> [] | Some hs \<Rightarrow> hs)"

text \<open>A registry operation, and whether the last one about a key and a handler subscribed it.\<close>

datatype ('k, 'h) reg_op = Sub 'k 'h | Unsub 'k 'h

fun last_op :: "('k, 'h) reg_op list \<Rightarrow> 'k \<Rightarrow> 'h \<Rightarrow> bool \<Rightarrow> bool" where
  "last_op [] k h b = b"
| "last_op (Sub k' h' # ops) k h b = last_op ops k h (b \<or> k' = k \<and> h' = h)"
| "last_op (Unsub k' h' # ops) k h b = last_op ops k h (b \<and> \<not> (k' = k \<and> h' = h))"

fun run_reg ::
    "('k \<Rightarrow> 'h \<Rightarrow> 'r \<Rightarrow> 'r) \<Rightarrow> ('k \<Rightarrow> 'h \<Rightarrow> 'r \<Rightarrow> 'r) \<Rightarrow> ('k, 'h) reg_op list \<Rightarrow> 'r \<Rightarrow> 'r" where
  "run_reg sub unsub [] r = r"
| "run_reg sub unsub (Sub k h # ops) r = run_reg sub unsub ops (sub k h r)"
| "run_reg sub unsub (Unsub k h # ops) r = run_reg sub unsub ops (unsub k h r)"

text \<open>What a registry promises: each key's handlers without repetition.\<close>

locale registry =
  fixes sub :: "'k \<Rightarrow> 'h \<Rightarrow> 'r \<Rightarrow> 'r"
    and unsub :: "'k \<Rightarrow> 'h \<Rightarrow> 'r \<Rightarrow> 'r"
    and handlers :: "'r \<Rightarrow> 'k \<Rightarrow> 'h list"
  assumes sub_set: "set (handlers (sub k h r) k') =
      (if k' = k then insert h (set (handlers r k)) else set (handlers r k'))"
    and sub_distinct: "distinct (handlers r k') \<Longrightarrow> distinct (handlers (sub k h r) k')"
    and unsub_set: "distinct (handlers r k) \<Longrightarrow> set (handlers (unsub k h r) k') =
      (if k' = k then set (handlers r k) - {h} else set (handlers r k'))"
    and unsub_distinct: "distinct (handlers r k') \<Longrightarrow> distinct (handlers (unsub k h r) k')"
begin

text \<open>
  After any sequence of operations a handler is registered for a key, once, exactly when the last
  operation about the two subscribed it.
\<close>

lemma registered_iff:
  assumes "\<forall>k. distinct (handlers r k)"
  shows "distinct (handlers (run_reg sub unsub ops r) k) \<and>
    (h \<in> set (handlers (run_reg sub unsub ops r) k) \<longleftrightarrow> last_op ops k h (h \<in> set (handlers r k)))"
  using assms
proof (induction ops arbitrary: r)
  case (Cons op ops)
  show ?case
  proof (cases op)
    case (Sub k' h')
    have "h \<in> set (handlers (sub k' h' r) k) \<longleftrightarrow> h \<in> set (handlers r k) \<or> k' = k \<and> h' = h"
      by (auto simp: sub_set)
    then show ?thesis using Cons.IH [of "sub k' h' r"] Cons.prems sub_distinct by (simp add: Sub)
  next
    case (Unsub k' h')
    have "h \<in> set (handlers (unsub k' h' r) k) \<longleftrightarrow> h \<in> set (handlers r k) \<and> \<not> (k' = k \<and> h' = h)"
      using Cons.prems by (auto simp: unsub_set)
    then show ?thesis using Cons.IH [of "unsub k' h' r"] Cons.prems unsub_distinct by (simp add: Unsub)
  qed
qed simp

end

interpretation subs: registry subscribe unsubscribe handlers_of
proof
  fix k k' :: u32 and h :: 'h and r :: "u32 \<rightharpoonup> 'h list"
  show "set (handlers_of (subscribe k h r) k') =
      (if k' = k then insert h (set (handlers_of r k)) else set (handlers_of r k'))"
    by (auto simp: handlers_of_def subscribe_def split: option.splits)
  show "distinct (handlers_of r k') \<Longrightarrow> distinct (handlers_of (subscribe k h r) k')"
    by (auto simp: handlers_of_def subscribe_def split: option.splits)
  show "distinct (handlers_of r k) \<Longrightarrow> set (handlers_of (unsubscribe k h r) k') =
      (if k' = k then set (handlers_of r k) - {h} else set (handlers_of r k'))"
    by (auto simp: handlers_of_def unsubscribe_def split: option.splits)
  show "distinct (handlers_of r k') \<Longrightarrow> distinct (handlers_of (unsubscribe k h r) k')"
    by (auto simp: handlers_of_def unsubscribe_def split: option.splits)
qed

text \<open>The constructor and destructor of \<open>UserEventHandler\<close>, at the address \<open>h\<close>.\<close>

definition UserEventHandler_new :: "'h \<Rightarrow> 'h dms \<Rightarrow> 'h dms" where
  "UserEventHandler_new h d = d\<lparr>subscribers :=
     subscribe (eventid EEVENTID_LOGIN_REQ) h
       (subscribe (eventid EEVENTID_GET_MOBILE_CODE_REQ) h (subscribers d))\<rparr>"

definition UserEventHandler_delete :: "'h \<Rightarrow> 'h dms \<Rightarrow> 'h dms" where
  "UserEventHandler_delete h d = d\<lparr>subscribers :=
     unsubscribe (eventid EEVENTID_LOGIN_REQ) h
       (unsubscribe (eventid EEVENTID_GET_MOBILE_CODE_REQ) h (subscribers d))\<rparr>"

subsection \<open>Dispatching an event\<close>

text \<open>
  The loop of \<open>process\<close> over the subscribed handlers: each gets the event, the last response is
  kept. \<open>call\<close> is the virtual call through a handler pointer.
\<close>

fun run_handlers ::
    "('h \<Rightarrow> iEvent option \<Rightarrow> 's \<Rightarrow> (iEvent option \<times> 's) res) \<Rightarrow> 'h list \<Rightarrow> iEvent \<Rightarrow> iEvent option \<Rightarrow> 's \<Rightarrow>
     (iEvent option \<times> 's) res" where
  "run_handlers call [] ev rsp s = Inr (rsp, s)"
| "run_handlers call (h # hs) ev rsp s =
     bindR (call h (Some ev) s) (\<lambda>(r, s'). run_handlers call hs ev r s')"

definition process ::
    "('h \<Rightarrow> iEvent option \<Rightarrow> 's \<Rightarrow> (iEvent option \<times> 's) res) \<Rightarrow> iEvent option \<Rightarrow> 'h dms \<Rightarrow> 's \<Rightarrow>
     (iEvent option \<times> 's) res" where
  "process call evp d s = (case evp of
      None \<Rightarrow> Inr (None, s)
    | Some ev \<Rightarrow>
       (let eid = ev_eid ev in
        if eid = eventid EEVENTID_UNKNOWN then Inr (None, s)
        else (case subscribers d eid of
            None \<Rightarrow> Inr (None, s)
          | Some hs \<Rightarrow> run_handlers call hs ev None s)))"

text \<open>
  The task handler. Pushing the response is one critical section of \<open>queue_mutex\<close>. \<open>segno\<close> is the
  serial-number counter, which \<open>ExitRspEv\<close> advances.
\<close>

definition rsp_push :: "iEvent \<Rightarrow> iEvent list \<Rightarrow> (bool \<times> iEvent list) res" where
  "rsp_push ev q = Inr (True, q @ [ev])"

definition rsp_pop :: "iEvent list \<Rightarrow> (iEvent option \<times> iEvent list) res" where
  "rsp_pop q = (case q of [] \<Rightarrow> Inr (None, []) | ev # q' \<Rightarrow> Inr (Some ev, q'))"

interpretation rq: fifo_total "(=)" rsp_push rsp_pop
  by unfold_locales (auto simp: rsp_push_def rsp_pop_def)

definition svc ::
    "('h \<Rightarrow> iEvent option \<Rightarrow> 'db hstate \<Rightarrow> (iEvent option \<times> 'db hstate) res) \<Rightarrow> iEvent \<Rightarrow> 'h dms \<Rightarrow>
     'db hstate \<Rightarrow> ('h dms \<times> 'db hstate) res" where
  "svc call ev d s = (case svr_exit d of
      None \<Rightarrow> Inl Uninitialised
    | Some True \<Rightarrow> Inr (d, s)
    | Some False \<Rightarrow>
       bindR (process call (Some ev) d s) (\<lambda>(r, s1).
       bindR (case r of
           Some rsp \<Rightarrow> bindR (get_args ev) (\<lambda>a. Inr (set_args a rsp, dump rsp, s1))
         | None \<Rightarrow> (let (rsp, c) = ExitRspEv (segno s1)
                   in bindR (get_args ev) (\<lambda>a. Inr (set_args a rsp, [], s1\<lparr>segno := c\<rparr>))))
         (\<lambda>(rsp, txt, s2).
       bindR (rsp_push rsp (responses d)) (\<lambda>(_, q).
         Inr (d\<lparr>responses := q, printed := printed d @ txt\<rparr>, s2)))))"

subsection \<open>Decoding requests\<close>

text \<open>
  \<open>parseEvent\<close>: reaching the end of the function after a failed \<open>ParseFromArray\<close> returns no value.
  The counter is that of \<open>generateSegNo\<close>.
\<close>

definition parseEvent ::
    "protobuf \<Rightarrow> bytes option \<Rightarrow> u32 \<Rightarrow> u32 \<Rightarrow> u32 \<Rightarrow> (iEvent option \<times> u32) res" where
  "parseEvent P msg len eid c = (case msg of
      None \<Rightarrow> Inr (None, c)
    | Some m \<Rightarrow>
       if eid = eventid EEVENTID_GET_MOBILE_CODE_REQ then
         (if length m < unat len then Inl OutOfBounds
          else (let (ok, mr) = parse_mobile_request P (take (unat len) m)
                in if ok then (let (ev, c') = MobileCodeReqEv (rq_mobile mr) c in Inr (Some ev, c'))
                   else Inl MissingReturn))
       else if eid = eventid EEVENTID_LOGIN_REQ then
         (if length m < unat len then Inl OutOfBounds
          else (let (ok, lr) = parse_login_request P (take (unat len) m)
                in if ok then (let (ev, c') = LoginReqEv (lq_mobile lr) (lq_icode lr) c in Inr (Some ev, c'))
                   else Inl MissingReturn))
       else Inr (None, c))"

text \<open>
  \<open>DispatchMsgService::enqueue\<close> through \<open>tp_\<close>; without a pool the post locks a mutex behind a
  null pointer.
\<close>

definition dms_enqueue ::
    "bool \<Rightarrow> int \<Rightarrow> int \<Rightarrow> iEvent option \<Rightarrow> 'h dms \<Rightarrow> (int \<times> 'h dms) res" where
  "dms_enqueue calloc_ok lock_rc signal_rc evp d = (case dms_tp d of
      None \<Rightarrow> (if evp = None then Inr (-1, d) else Inl NullDeref)
    | Some p \<Rightarrow> bindR (enqueue calloc_ok lock_rc signal_rc evp p) (\<lambda>(rc, p'). Inr (rc, d\<lparr>dms_tp := Some p'\<rparr>)))"

subsection \<open>Encoding responses\<close>

text \<open>
  \<open>assembleResponse\<close>: \<open>new char[n]\<close> gives \<open>n\<close> bytes of any content, here \<open>fill\<close>; the header is
  written through \<open>u16\<close> and \<open>i32\<close> pointers.
\<close>

definition new_chars :: "byte \<Rightarrow> nat \<Rightarrow> bytes" where
  "new_chars fill n = replicate n fill"

definition assemble_buf :: "protobuf \<Rightarrow> byte \<Rightarrow> iEvent \<Rightarrow> EventID \<Rightarrow> bytes res" where
  "assemble_buf P fill ev eid =
     (let len = ByteSize P ev;
          buf0 = new_chars fill (unat (word_of_nat MESSAGE_HEADER_LEN + len))
      in bindR (put_bytes buf0 0 (bytes_of MESSAGE_HEADER)) (\<lambda>buf1.
         bindR (put_bytes buf1 4 (le16 (ucast (eventid eid)))) (\<lambda>buf2.
         bindR (put_bytes buf2 6 (le32 len)) (\<lambda>buf3.
           put_bytes buf3 MESSAGE_HEADER_LEN (snd (SerializeToArray P ev (sint len)))))))"

definition assembleResponse ::
    "'b libevent \<Rightarrow> protobuf \<Rightarrow> byte \<Rightarrow> iEvent \<Rightarrow> EventID \<Rightarrow> 'b net \<Rightarrow> 'b net res" where
  "assembleResponse L P fill ev eid n =
     bindR (get_args ev) (\<lambda>p.
     bindR (upd_session p (\<lambda>cs. cs\<lparr>response := Some ev, msg_len := ByteSize P ev\<rparr>) n) (\<lambda>n1.
     bindR (assemble_buf P fill ev eid) (\<lambda>buf.
     bindR (upd_session p (\<lambda>cs. cs\<lparr>write_buf := Some buf\<rparr>) n1) (\<lambda>n2.
       send_response_msg L p n2))))"

definition handle_response_event ::
    "'b libevent \<Rightarrow> protobuf \<Rightarrow> byte \<Rightarrow> iEvent \<Rightarrow> 'b net \<Rightarrow> 'b net res" where
  "handle_response_event L P fill ev n =
     (if ev_eid ev = eventid EEVENTID_GET_MOBILE_CODE_RSP
      then assembleResponse L P fill ev EEVENTID_GET_MOBILE_CODE_RSP n
      else if ev_eid ev = eventid EEVENTID_LOGIN_RSP
      then assembleResponse L P fill ev EEVENTID_LOGIN_RSP n
      else if ev_eid ev = eventid EEVENTID_EXIT_RSP then
        bindR (get_args ev) (\<lambda>p.
        bindR (upd_session p (\<lambda>cs. cs\<lparr>response := Some ev\<rparr>) n) (\<lambda>n1. send_response_msg L p n1))
      else Inr n)"

text \<open>The loop pops until it finds the queue empty.\<close>

function handleAllResponseEvent ::
    "'b libevent \<Rightarrow> protobuf \<Rightarrow> byte \<Rightarrow> iEvent list \<Rightarrow> 'b net \<Rightarrow> (iEvent list \<times> 'b net) res" where
  "handleAllResponseEvent L P fill q n =
     (case rsp_pop q of
        Inl e \<Rightarrow> Inl e
      | Inr (None, q') \<Rightarrow> Inr (q', n)
      | Inr (Some ev, q') \<Rightarrow>
         bindR (handle_response_event L P fill ev n) (\<lambda>n1. handleAllResponseEvent L P fill q' n1))"
  by pat_completeness auto
termination
  by (relation "measure (\<lambda>(L, P, fill, q, n). length q)") (auto simp: rsp_pop_def split: list.splits)

declare handleAllResponseEvent.simps [simp del]

subsection \<open>The contract of an event handler\<close>

text \<open>
  \<open>handle\<close> answers every event it admits with one response, does not fault and stays ready.
\<close>

locale event_handler =
  fixes hcall :: "iEvent option \<Rightarrow> 'db hstate \<Rightarrow> (iEvent option \<times> 'db hstate) res"
    and ready :: "'db hstate \<Rightarrow> bool"
    and admits :: "iEvent \<Rightarrow> bool"
    and reply :: "iEvent \<Rightarrow> iEvent \<Rightarrow> bool"
  assumes answers: "ready s \<Longrightarrow> admits ev \<Longrightarrow>
      \<exists>rsp s'. hcall (Some ev) s = Inr (Some rsp, s') \<and> ready s' \<and> reply ev rsp"
begin

lemma run_answers:
  assumes "ready s" and "admits ev" and "hs \<noteq> []"
  shows "\<exists>rsp s'. run_handlers (\<lambda>_. hcall) hs ev r s = Inr (Some rsp, s') \<and> ready s' \<and> reply ev rsp"
  using assms
proof (induction hs arbitrary: s r)
  case (Cons h hs)
  obtain rsp s1 where 1: "hcall (Some ev) s = Inr (Some rsp, s1)" "ready s1" "reply ev rsp"
    using answers [OF Cons.prems(1,2)] by blast
  show ?case
  proof (cases "hs = []")
    case True
    with 1 show ?thesis by simp
  next
    case False
    with 1 Cons.IH [OF 1(2) Cons.prems(2) False, of "Some rsp"] show ?thesis by simp
  qed
qed simp

lemma process_answers:
  assumes "ready s" and "admits ev" and "handlers_of (subscribers d) (ev_eid ev) \<noteq> []"
    and "ev_eid ev \<noteq> eventid EEVENTID_UNKNOWN"
  shows "\<exists>rsp s'. process (\<lambda>_. hcall) (Some ev) d s = Inr (Some rsp, s') \<and> ready s' \<and> reply ev rsp"
proof -
  obtain hs where hs: "subscribers d (ev_eid ev) = Some hs" "hs \<noteq> []"
    using assms(3) by (auto simp: handlers_of_def split: option.splits)
  then show ?thesis
    using run_answers [OF assms(1,2) hs(2), of None] assms(4) by (simp add: process_def Let_def)
qed

lemma svc_answers:
  assumes "ready s" and "admits ev" and "handlers_of (subscribers d) (ev_eid ev) \<noteq> []"
    and "ev_eid ev \<noteq> eventid EEVENTID_UNKNOWN" and "svr_exit d = Some False" and "ev_args ev = Some p"
  shows "\<exists>rsp s'. svc (\<lambda>_. hcall) ev d s =
      Inr (d\<lparr>responses := responses d @ [set_args p rsp], printed := printed d @ dump rsp\<rparr>, s') \<and>
      ready s' \<and> reply ev rsp"
proof -
  obtain rsp s' where "process (\<lambda>_. hcall) (Some ev) d s = Inr (Some rsp, s')" "ready s'" "reply ev rsp"
    using process_answers [OF assms(1-4)] by blast
  then show ?thesis
    using assms(5,6) by (intro exI [of _ rsp] exI [of _ s']) (simp add: svc_def rsp_push_def get_args_def)
qed

end

text \<open>
  \<open>UserEventHandler\<close> provides it: it is ready when the configuration is loaded, admits the two
  request events, a login when the mobile fits the statement buffers, and replies with the
  response event of the next identifier.
\<close>

definition uh_ready :: "'db hstate \<Rightarrow> bool" where
  "uh_ready s \<longleftrightarrow> (\<exists>cfg. getconfig (ini s) = Inr cfg)"

definition uh_admits :: "iEvent \<Rightarrow> bool" where
  "uh_admits ev \<longleftrightarrow> ev_wf ev \<and> (case ev_msg ev of
      MobileCodeReqMsg m \<Rightarrow> True
    | LoginReqMsg m \<Rightarrow> length (c_str (lq_mobile m)) \<le> 984
    | _ \<Rightarrow> False)"

definition uh_reply :: "iEvent \<Rightarrow> iEvent \<Rightarrow> bool" where
  "uh_reply ev rsp \<longleftrightarrow> ev_wf rsp \<and> ev_eid rsp = ev_eid ev + 1"

lemma handle_same_msg:
  "ev_eid ev = ev_eid ev' \<Longrightarrow> ev_msg ev = ev_msg ev' \<Longrightarrow> handle E (Some ev) s = handle E (Some ev') s"
proof -
  assume eq: "ev_eid ev = ev_eid ev'" "ev_msg ev = ev_msg ev'"
  have "handle_mobile_code_req E ev s = handle_mobile_code_req E ev' s"
    "handle_login_req E ev s = handle_login_req E ev' s"
    by (simp_all only: handle_mobile_code_req_def handle_login_req_def as_MobileCodeReqEv_def
        as_LoginReqEv_def eq)
  then show ?thesis by (simp only: handle_def eq option.case)
qed

lemma handle_code_any:
  assumes "ev_wf ev" and "ev_msg ev = MobileCodeReqMsg m"
  shows "handle E (Some ev) s = handle E (Some (fst (MobileCodeReqEv (rq_mobile m) 0))) s"
  using assms by (intro handle_same_msg) (simp_all add: ev_wf_def event_ctor_defs)

lemma handle_login_any:
  assumes "ev_wf ev" and "ev_msg ev = LoginReqMsg m"
  shows "handle E (Some ev) s = handle E (Some (fst (LoginReqEv (lq_mobile m) (lq_icode m) 0))) s"
  using assms by (intro handle_same_msg) (simp_all add: ev_wf_def event_ctor_defs)

lemma login_spec_defined:
  assumes "length (c_str mobile) \<le> 984" and "getconfig (ini s) = Inr cfg"
  obtains r d where "login_spec E mobile icode s = Inr (r, d)"
proof -
  obtain r h d where "login_db (my E) cfg mobile (db s) = Inr (r, h, d)"
    using login_db_defined [OF assms(1), of "my E" cfg "db s"] by (auto simp: defined_iff)
  then show thesis using that by (cases "m2c s mobile = Some icode") (simp_all add: login_spec_def assms(2))
qed

lemma uh_answers:
  assumes "uh_ready s" and "uh_admits ev"
  shows "\<exists>rsp s'. handle E (Some ev) s = Inr (Some rsp, s') \<and> uh_ready s' \<and> uh_reply ev rsp"
proof (cases "ev_msg ev")
  case (MobileCodeReqMsg m)
  have wf: "ev_wf ev" using assms(2) by (simp add: uh_admits_def)
  then show ?thesis
    using assms(1) MobileCodeReqMsg
    by (simp add: handle_code_any handle_code_eq uh_reply_def uh_ready_def ev_wf_def)
next
  case (LoginReqMsg m)
  have wf: "ev_wf ev" and len: "length (c_str (lq_mobile m)) \<le> 984"
    using assms(2) LoginReqMsg by (simp_all add: uh_admits_def)
  obtain cfg where cfg: "getconfig (ini s) = Inr cfg" using assms(1) by (auto simp: uh_ready_def)
  obtain r d where "login_spec E (lq_mobile m) (lq_icode m) s = Inr (r, d)"
    using login_spec_defined [OF len cfg] .
  then show ?thesis
    using assms(1) wf LoginReqMsg
    by (simp add: handle_login_any handle_login_eq uh_reply_def uh_ready_def ev_wf_def)
qed (use assms(2) in \<open>simp_all add: uh_admits_def\<close>)

interpretation uh: event_handler "handle E" uh_ready uh_admits uh_reply for E :: "'db env"
  by unfold_locales (rule uh_answers)

subsection \<open>Facts about decoding and encoding\<close>

lemma put_bytes_append:
  "length src \<le> length rest \<Longrightarrow>
   put_bytes (pre @ rest) (length pre) src = Inr (pre @ src @ drop (length src) rest)"
  by (simp add: put_bytes_def)

lemma put_bytes_at:
  "length pre = k \<Longrightarrow> length src \<le> length rest \<Longrightarrow>
   put_bytes (pre @ rest) k src = Inr ((pre @ src) @ drop (length src) rest)"
  using put_bytes_append [of src rest pre] by simp

lemma small_len:
  assumes "n < 2 ^ 31 - 10"
  shows "unat (10 + (word_of_nat n :: u32)) = 10 + n"
    and "sint (word_of_nat n :: u32) = int n" and "unat (word_of_nat n :: u32) = n"
proof -
  have "n < 2 ^ 32" using assms by simp
  then show u: "unat (word_of_nat n :: u32) = n" by (rule unat_word32)
  have "10 + (word_of_nat n :: u32) = word_of_nat (10 + n)" by simp
  moreover have "unat (word_of_nat (10 + n) :: u32) = 10 + n"
    using assms by (intro unat_word32) simp
  ultimately show "unat (10 + (word_of_nat n :: u32)) = 10 + n" by simp
  show "sint (word_of_nat n :: u32) = int n"
    using assms by (simp add: sint_uint take_bit_nat_eq_self signed_take_bit_eq_if_positive
        unsigned_of_nat bit_simps signed_take_bit_int_eq_self)
qed

lemma assemble_buf_ok:
  assumes "length (ev_bytes P ev) < 2 ^ 31 - 10"
  shows "assemble_buf P fill ev eid = Inr (frame (ucast (eventid eid)) (ev_bytes P ev))"
proof -
  let ?pl = "ev_bytes P ev"
  let ?n = "length ?pl"
  note len = small_len [OF assms]
  let ?r = "replicate (10 + ?n) fill"
  have 1: "put_bytes ([] @ ?r) 0 magic = Inr (magic @ drop 4 ?r)"
    by (subst put_bytes_at) simp_all
  have 2: "put_bytes (magic @ drop 4 ?r) 4 (le16 e) = Inr ((magic @ le16 e) @ drop 6 ?r)" for e
    by (subst put_bytes_at) simp_all
  have 3: "put_bytes ((magic @ le16 e) @ drop 6 ?r) 6 (le32 l) = Inr ((magic @ le16 e @ le32 l) @ drop 10 ?r)" for e l
    by (subst put_bytes_at) simp_all
  have 4: "put_bytes ((magic @ le16 e @ le32 l) @ drop 10 ?r) 10 ?pl = Inr ((magic @ le16 e @ le32 l) @ ?pl)" for e l
    by (subst put_bytes_at) simp_all
  show ?thesis
    using 1 2 3 4
    by (simp add: assemble_buf_def ByteSize_def new_chars_def len magic_bytes MESSAGE_HEADER_LEN_def
        SerializeToArray_ByteSize frame_def Let_def)
qed

text \<open>What one response does to a live session and its buffer event.\<close>

lemma handle_response_event_ok:
  assumes "ev_wf ev" and "ev_eid ev = eventid EEVENTID_GET_MOBILE_CODE_RSP \<or> ev_eid ev = eventid EEVENTID_LOGIN_RSP"
    and "ev_args ev = Some (Ptr a)" and "sessions n a = Some cs" and "bev cs = Ptr b" and "bevs n b = Some e"
    and "length (ev_bytes P ev) < 2 ^ 31 - 10"
  shows "handle_response_event L P fill ev n =
    Inr (n\<lparr>bevs := (bevs n)(b \<mapsto> e\<lparr>bev_io := le_write L (frame (ucast (ev_eid ev)) (ev_bytes P ev)) (bev_io e)\<rparr>),
           sessions := (sessions n)(a \<mapsto> (reset_cs cs)\<lparr>response := Some ev\<rparr>)\<rparr>)"
proof -
  have "assembleResponse L P fill ev eid n =
    Inr (n\<lparr>bevs := (bevs n)(b \<mapsto> e\<lparr>bev_io := le_write L (frame (ucast (eventid eid)) (ev_bytes P ev)) (bev_io e)\<rparr>),
           sessions := (sessions n)(a \<mapsto> (reset_cs cs)\<lparr>response := Some ev\<rparr>)\<rparr>)" for eid
  proof -
    let ?fr = "frame (ucast (eventid eid)) (ev_bytes P ev)"
    let ?cs1 = "cs\<lparr>response := Some ev, msg_len := ByteSize P ev\<rparr>"
    let ?cs2 = "?cs1\<lparr>write_buf := Some ?fr\<rparr>"
    let ?n2 = "n\<lparr>sessions := (sessions n)(a \<mapsto> ?cs2)\<rparr>"
    have len: "unat (word_of_nat (length (ev_bytes P ev)) + (10 :: u32)) = length ?fr"
      using small_len(1) [OF assms(7)] by (simp add: frame_length add.commute)
    have reg: "write_region ?cs2 = Inr ?fr"
      by (simp add: write_region_def ByteSize_def MESSAGE_HEADER_LEN_def len)
    have "send_response_msg L (Ptr a) ?n2 =
        Inr (?n2\<lparr>bevs := (bevs n)(b \<mapsto> e\<lparr>bev_io := le_write L ?fr (bev_io e)\<rparr>),
          sessions := (sessions ?n2)(a \<mapsto> reset_cs ?cs2)\<rparr>)"
      using reg assms(5,6) by (simp add: send_response_msg_def bev_write_ok session_reset_def)
    moreover have "reset_cs ?cs2 = (reset_cs cs)\<lparr>response := Some ev\<rparr>"
      by (simp add: reset_cs_def)
    ultimately show ?thesis
      using assms(3,4) by (simp add: assembleResponse_def get_args_def assemble_buf_ok [OF assms(7)])
  qed
  then show ?thesis using assms(2) by (auto simp: handle_response_event_def)
qed

lemma handle_response_gone:
  assumes "ev_eid ev = eventid EEVENTID_GET_MOBILE_CODE_RSP \<or> ev_eid ev = eventid EEVENTID_LOGIN_RSP \<or>
      ev_eid ev = eventid EEVENTID_EXIT_RSP"
    and "ev_args ev = Some (Ptr a)" and "sessions n a = None"
  shows "handle_response_event L P fill ev n = Inl UseAfterFree"
  using assms by (auto simp: handle_response_event_def assembleResponse_def get_args_def)

lemma parse_code_request:
  assumes "parse_mobile_request P m = (ok, mr)" and "length m = unat len"
  shows "parseEvent P (Some m) len (eventid EEVENTID_GET_MOBILE_CODE_REQ) c =
    (if ok then Inr (Some (fst (MobileCodeReqEv (rq_mobile mr) c)), c + 1) else Inl MissingReturn)"
  using assms by (simp add: parseEvent_def MobileCodeReqEv_def generateSegNo_def)

lemma parse_login_request_event:
  assumes "parse_login_request P m = (ok, lr)" and "length m = unat len"
  shows "parseEvent P (Some m) len (eventid EEVENTID_LOGIN_REQ) c =
    (if ok then Inr (Some (fst (LoginReqEv (lq_mobile lr) (lq_icode lr) c)), c + 1) else Inl MissingReturn)"
  using assms by (simp add: parseEvent_def LoginReqEv_def generateSegNo_def)

lemma parse_other:
  "eid \<noteq> eventid EEVENTID_GET_MOBILE_CODE_REQ \<Longrightarrow> eid \<noteq> eventid EEVENTID_LOGIN_REQ \<Longrightarrow>
   parseEvent P (Some m) len eid c = Inr (None, c)"
  by (simp add: parseEvent_def)

subsection \<open>Properties\<close>

text \<open>
  C14. Whatever sequence of \<open>subscribe\<close> and \<open>unsubscribe\<close> calls the registry has seen, a handler is
  called for an event identifier exactly when the last call about the two subscribed it, and then
  once.
\<close>

theorem registry_semantics:
  "distinct (handlers_of (run_reg subscribe unsubscribe ops Map.empty) eid) \<and>
   (h \<in> set (handlers_of (run_reg subscribe unsubscribe ops Map.empty) eid) \<longleftrightarrow> last_op ops eid h False)"
  using subs.registered_iff [of Map.empty ops eid h] by (simp add: handlers_of_def)



text \<open>
  C12. A response is written to its session's connection as one frame: the magic, the event
  identifier and the payload length in little-endian order and the serialised message; the session
  is then ready for the next request, and no other session or connection changes.
\<close>

theorem response_frame:
  assumes "libevent_ok L inp out" and "ev_wf ev"
    and "ev_msg ev = MobileCodeRspMsg r \<or> ev_msg ev = LoginRspMsg q"
    and "ev_args ev = Some (Ptr a)" and "sessions n a = Some cs" and "bev cs = Ptr b" and "bevs n b = Some e"
    and "length (ev_bytes P ev) < 2 ^ 31 - 10"
  shows "\<exists>e' n'. handleAllResponseEvent L P fill [ev] n = Inr ([], n') \<and>
     bevs n' = (bevs n)(b \<mapsto> e') \<and> inp (bev_io e') = inp (bev_io e) \<and>
     out (bev_io e') = out (bev_io e) @ frame (ucast (ev_eid ev)) (ev_bytes P ev) \<and>
     sessions n' = (sessions n)(a \<mapsto> (reset_cs cs)\<lparr>response := Some ev\<rparr>) \<and>
     session_stat (the (sessions n' a)) = SS_REQUEST \<and> req_stat (the (sessions n' a)) = MS_READ_HEADER"
proof -
  have eid: "ev_eid ev = eventid EEVENTID_GET_MOBILE_CODE_RSP \<or> ev_eid ev = eventid EEVENTID_LOGIN_RSP"
    using assms(2,3) by (auto simp: ev_wf_def)
  note ok = handle_response_event_ok [OF assms(2) eid assms(4-8), of L fill]
  let ?e = "e\<lparr>bev_io := le_write L (frame (ucast (ev_eid ev)) (ev_bytes P ev)) (bev_io e)\<rparr>"
  show ?thesis
    using libevent_okD(5,6) [OF assms(1)]
    by (intro exI [of _ ?e]) (simp add: handleAllResponseEvent.simps rsp_pop_def ok reset_cs_def)
qed

definition demo_net :: "(bytes \<times> bytes) net" where
  "demo_net = \<lparr>bevs = [4 \<mapsto> \<lparr>bev_io = ([], []), bev_arg = Ptr 7, bev_reading = True, bev_timeouts = (10, 10)\<rparr>],
     next_bev = 5, sessions = [7 \<mapsto> session_init 3 (Ptr 4)], next_cs = 8\<rparr>"

definition demo_rsp :: iEvent where
  "demo_rsp = \<lparr>ev_eid = 4, ev_sn = 1, ev_args = Some (Ptr 7), ev_msg = LoginRspMsg \<lparr>ls_code = 200, ls_desc = None\<rparr>\<rparr>"

theorem response_frame_witness:
  "\<exists>e' n'. handleAllResponseEvent list_libevent flat_pb 0 [demo_rsp] demo_net = Inr ([], n') \<and>
     bevs n' = (bevs demo_net)(4 \<mapsto> e') \<and> fst (bev_io e') = [] \<and>
     snd (bev_io e') = [] @ frame (ucast (ev_eid demo_rsp)) (ev_bytes flat_pb demo_rsp) \<and>
     sessions n' = (sessions demo_net)(7 \<mapsto> (reset_cs (session_init 3 (Ptr 4)))\<lparr>response := Some demo_rsp\<rparr>) \<and>
     session_stat (the (sessions n' 7)) = SS_REQUEST \<and> req_stat (the (sessions n' 7)) = MS_READ_HEADER"
proof -
  let ?e = "\<lparr>bev_io = ([], []), bev_arg = Ptr 7, bev_reading = True, bev_timeouts = (10, 10)\<rparr> :: (bytes \<times> bytes) bufferevent"
  have "length (ev_bytes flat_pb demo_rsp) < 2 ^ 31 - 10"
    by (simp add: ev_bytes_def demo_rsp_def flat_pb_def flat_opt_def)
  then have "\<exists>e' n'. handleAllResponseEvent list_libevent flat_pb 0 [demo_rsp] demo_net = Inr ([], n') \<and>
     bevs n' = (bevs demo_net)(4 \<mapsto> e') \<and> fst (bev_io e') = fst (bev_io ?e) \<and>
     snd (bev_io e') = snd (bev_io ?e) @ frame (ucast (ev_eid demo_rsp)) (ev_bytes flat_pb demo_rsp) \<and>
     sessions n' = (sessions demo_net)(7 \<mapsto> (reset_cs (session_init 3 (Ptr 4)))\<lparr>response := Some demo_rsp\<rparr>) \<and>
     session_stat (the (sessions n' 7)) = SS_REQUEST \<and> req_stat (the (sessions n' 7)) = MS_READ_HEADER"
    by (intro response_frame [where r = undefined and q = "\<lparr>ls_code = 200, ls_desc = None\<rparr>"])
      (simp_all add: list_libevent_ok demo_rsp_def demo_net_def ev_wf_def session_init_def)
  then show ?thesis by simp
qed



text \<open>
  A request whose payload does not parse makes \<open>parseEvent\<close> run off its end without a return
  value, instead of being rejected as the caller expects.
\<close>

theorem parse_failure_undefined:
  assumes "\<not> fst (parse_mobile_request P m)" and "\<not> fst (parse_login_request P m)" and "length m = unat len"
    and "eid = eventid EEVENTID_GET_MOBILE_CODE_REQ \<or> eid = eventid EEVENTID_LOGIN_REQ"
  shows "parseEvent P (Some m) len eid c = Inl MissingReturn"
  using assms parse_code_request [of P m False "snd (parse_mobile_request P m)" len c]
    parse_login_request_event [of P m False "snd (parse_login_request P m)" len c]
  by (cases "parse_mobile_request P m"; cases "parse_login_request P m") auto

theorem parse_failure_undefined_witness:
  "parseEvent (flat_pb\<lparr>parse_mobile_request := (\<lambda>bs. (False, \<lparr>rq_mobile = []\<rparr>))\<rparr>) (Some [0, 1]) 2
     (eventid EEVENTID_LOGIN_REQ) 0 = Inl MissingReturn"
  by (rule parse_failure_undefined) (simp_all add: flat_pb_def)

end
