(* ===== verification/Network.thy ===== *)
theory Network
  imports Dispatch
begin

text \<open>
  \<^verbatim>\<open>src/src/NetworkInterface.cc\<close>: accepting connections, reassembling request frames from
  whatever pieces libevent delivers, handing requests to the dispatch service and closing
  connections. The callbacks run one at a time on the network thread.
\<close>

subsection \<open>State and parameters\<close>

text \<open>The program as the network thread sees it.\<close>

record ('b, 'h, 'db) srv =
  net :: "'b net"
  dms :: "'h dms"
  hs :: "'db hstate"

text \<open>
  libevent, protobuf, the content of fresh arrays, and the results of the allocation and the
  pthread calls of a post.
\<close>

record 'b netenv =
  nv_le :: "'b libevent"
  nv_pb :: protobuf
  nv_fill :: byte
  nv_calloc :: bool
  nv_lock :: int
  nv_signal :: int

definition bev_read :: "'b libevent \<Rightarrow> ptr \<Rightarrow> nat \<Rightarrow> 'b net \<Rightarrow> (bytes \<times> 'b net) res" where
  "bev_read L p k n = (case p of
      Null \<Rightarrow> Inl NullDeref
    | Ptr a \<Rightarrow> bindR (deref (bevs n) (Ptr a)) (\<lambda>b.
        (let (bs, io) = le_read L k (bev_io b)
         in Inr (bs, n\<lparr>bevs := (bevs n)(a \<mapsto> b\<lparr>bev_io := io\<rparr>)\<rparr>))))"

definition bev_input_length :: "'b libevent \<Rightarrow> ptr \<Rightarrow> 'b net \<Rightarrow> nat res" where
  "bev_input_length L p n = bindR (deref (bevs n) p) (\<lambda>b. Inr (le_input_length L (bev_io b)))"

subsection \<open>Starting, accepting, closing\<close>

text \<open>
  The pointers \<open>base_\<close> and \<open>listener_\<close>, and the calls that release them; what libevent does to
  the listener when its base goes first is not modelled.
\<close>

record nif =
  base :: bool
  listener :: bool

definition NetworkInterface_new :: nif where
  "NetworkInterface_new = \<lparr>base = False, listener = False\<rparr>"

text \<open>\<open>base_ok\<close> and \<open>bind_ok\<close>: whether libevent returned a base and a bound listener.\<close>

definition nif_start :: "bool \<Rightarrow> bool \<Rightarrow> nif \<Rightarrow> bool \<times> nif" where
  "nif_start base_ok bind_ok i = (let i1 = i\<lparr>base := base_ok, listener := bind_ok\<rparr>
     in if bind_ok then (True, i1) else (False, i1))"

datatype nif_call = EventBaseFree | ListenerFree

definition nif_close :: "nif \<Rightarrow> nif_call list \<times> nif" where
  "nif_close i =
     (let (c1, i1) = (if base i then ([EventBaseFree], i\<lparr>base := False\<rparr>) else ([], i));
          (c2, i2) = (if listener i1 then ([ListenerFree], i1\<lparr>listener := False\<rparr>) else ([], i1))
      in (c1 @ c2, i2))"

text \<open>\<open>ip\<close> is the result of \<open>inet_ntoa\<close>; \<open>remote_ip\<close> has 32 bytes.\<close>

definition listener_cb :: "'b libevent \<Rightarrow> i32 \<Rightarrow> string \<Rightarrow> 'b net \<Rightarrow> 'b net res" where
  "listener_cb L fd ip n =
     (let b = next_bev n; a = next_cs n;
          cs = (session_init fd (Ptr b))\<lparr>session_stat := SS_REQUEST, req_stat := MS_READ_HEADER\<rparr>
      in if 32 \<le> length ip then Inl OutOfBounds
         else Inr (n\<lparr>bevs := (bevs n)(b \<mapsto> \<lparr>bev_io = le_new L fd, bev_arg = Ptr a, bev_reading = True,
                 bev_timeouts = (10, 10)\<rparr>),
               next_bev := b + 1, sessions := (sessions n)(a \<mapsto> cs\<lparr>remote_ip := ip\<rparr>), next_cs := a + 1\<rparr>))"

subsection \<open>Reading a request\<close>

text \<open>
  What the two parts of \<open>handle_request\<close> do to the session with the bytes just read: the header
  part also says whether the request is to be rejected.
\<close>

definition header_step :: "byte \<Rightarrow> bytes \<Rightarrow> ConnectSession \<Rightarrow> (ConnectSession \<times> bool) res" where
  "header_step fill data cs =
     bindR (put_bytes (header cs) (unat (read_header_len cs)) data) (\<lambda>h1.
       (let rhl = read_header_len cs + word_of_nat (length data) in
        bindR (put_bytes h1 (unat rhl) [0]) (\<lambda>h2.
          (let cs1 = cs\<lparr>header := h2, read_header_len := rhl\<rparr> in
           if rhl = word_of_nat MESSAGE_HEADER_LEN then
             bindR (strncmp_eq (length MESSAGE_HEADER) h2 (bytes_of MESSAGE_HEADER)) (\<lambda>eq.
               if eq then
                 bindR (rd16 (drop 4 h2)) (\<lambda>e.
                 bindR (rd32 (drop 6 h2)) (\<lambda>l.
                   (let cs2 = cs1\<lparr>cs_eid := e, msg_len := l\<rparr> in
                    if msg_len cs2 < 1 \<or> msg_len cs2 > MAX_MSG_LEN then Inr (cs2, True)
                    else Inr (cs2\<lparr>read_buf := Some (new_chars fill (unat (msg_len cs2))),
                                req_stat := MS_READ_MESSAGE, read_msg_len := 0\<rparr>, False))))
               else Inr (cs1, True))
           else Inr (cs1, False)))))"

definition message_step :: "bytes \<Rightarrow> ConnectSession \<Rightarrow> ConnectSession res" where
  "message_step data cs = (case read_buf cs of
      None \<Rightarrow> (if data = [] then Inr cs else Inl NullDeref)
    | Some buf \<Rightarrow>
        bindR (put_bytes buf (unat (read_msg_len cs)) data) (\<lambda>buf'.
          Inr (cs\<lparr>read_buf := Some buf', read_msg_len := read_msg_len cs + word_of_nat (length data)\<rparr>)))"

text \<open>\<open>bufferevent_free(bev); session_free(cs); return\<close>.\<close>

definition drop_connection :: "ptr \<Rightarrow> ptr \<Rightarrow> ('b, 'h, 'db) srv \<Rightarrow> ('b, 'h, 'db) srv res" where
  "drop_connection p arg s =
     bindR (bufferevent_free p (net s)) (\<lambda>n1.
     bindR (session_free arg n1) (\<lambda>n2. Inr (s\<lparr>net := n2\<rparr>)))"

text \<open>The message is complete: parse it, release the buffer, post the event or reject.\<close>

definition complete_request :: "'b netenv \<Rightarrow> ptr \<Rightarrow> ptr \<Rightarrow> ConnectSession \<Rightarrow> ('b, 'h, 'db) srv \<Rightarrow> ('b, 'h, 'db) srv res" where
  "complete_request V p arg cs s =
     bindR (parseEvent (nv_pb V) (read_buf cs) (read_msg_len cs) (ucast (cs_eid cs)) (segno (hs s))) (\<lambda>(ev, c).
     bindR (upd_session arg (\<lambda>cs. cs\<lparr>read_buf := None, read_msg_len := 0\<rparr>) (net s)) (\<lambda>n1.
       (let s1 = s\<lparr>net := n1, hs := (hs s)\<lparr>segno := c\<rparr>\<rparr> in
        case ev of
          Some e \<Rightarrow>
            bindR (dms_enqueue (nv_calloc V) (nv_lock V) (nv_signal V) (Some (set_args arg e)) (dms s1)) (\<lambda>(rc, d).
              Inr (s1\<lparr>dms := d\<rparr>))
        | None \<Rightarrow> drop_connection p arg s1)))"

text \<open>
  The first \<open>if\<close> of \<open>handle_request\<close>, with whether the function goes on; then the second; then
  the whole callback.
\<close>

definition read_header ::
    "'b netenv \<Rightarrow> ptr \<Rightarrow> ptr \<Rightarrow> ConnectSession \<Rightarrow> ('b, 'h, 'db) srv \<Rightarrow> (bool \<times> ('b, 'h, 'db) srv) res" where
  "read_header V p arg cs s =
     bindR (bev_read (nv_le V) p (unat (word_of_nat MESSAGE_HEADER_LEN - read_header_len cs)) (net s)) (\<lambda>(data, n1).
     bindR (header_step (nv_fill V) data cs) (\<lambda>(cs1, reject).
     bindR (upd_session arg (\<lambda>_. cs1) n1) (\<lambda>n2.
       if reject then bindR (drop_connection p arg (s\<lparr>net := n2\<rparr>)) (\<lambda>s1. Inr (False, s1))
       else Inr (True, s\<lparr>net := n2\<rparr>))))"

definition read_message :: "'b netenv \<Rightarrow> ptr \<Rightarrow> ptr \<Rightarrow> ('b, 'h, 'db) srv \<Rightarrow> ('b, 'h, 'db) srv res" where
  "read_message V p arg s =
     bindR (deref (sessions (net s)) arg) (\<lambda>cs.
       if req_stat cs \<noteq> MS_READ_MESSAGE then Inr s
       else
         bindR (bev_input_length (nv_le V) p (net s)) (\<lambda>avail.
           if \<not> avail > 0 then Inr s
           else
             bindR (bev_read (nv_le V) p (unat (msg_len cs - read_msg_len cs)) (net s)) (\<lambda>(data, n1).
             bindR (message_step data cs) (\<lambda>cs1.
               if msg_len cs1 = read_msg_len cs1 then
                 (let cs2 = cs1\<lparr>session_stat := SS_RESPONSE\<rparr> in
                  bindR (upd_session arg (\<lambda>_. cs2) n1) (\<lambda>n2. complete_request V p arg cs2 (s\<lparr>net := n2\<rparr>)))
               else
                 bindR (upd_session arg (\<lambda>_. cs1) n1) (\<lambda>n2. Inr (s\<lparr>net := n2\<rparr>))))))"

definition handle_request :: "'b netenv \<Rightarrow> ptr \<Rightarrow> ptr \<Rightarrow> ('b, 'h, 'db) srv \<Rightarrow> ('b, 'h, 'db) srv res" where
  "handle_request V p arg s =
     bindR (deref (sessions (net s)) arg) (\<lambda>cs.
       if session_stat cs \<noteq> SS_REQUEST then Inr s
       else
         bindR (if req_stat cs = MS_READ_HEADER then read_header V p arg cs s else Inr (True, s)) (\<lambda>(go_on, s1).
           if \<not> go_on then Inr s1 else read_message V p arg s1))"

subsection \<open>Errors and the event loop\<close>

definition BEV_EVENT_READING :: u16 where "BEV_EVENT_READING = 0x01"
definition BEV_EVENT_WRITING :: u16 where "BEV_EVENT_WRITING = 0x02"
definition BEV_EVENT_EOF :: u16 where "BEV_EVENT_EOF = 0x10"
definition BEV_EVENT_ERROR :: u16 where "BEV_EVENT_ERROR = 0x20"
definition BEV_EVENT_TIMEOUT :: u16 where "BEV_EVENT_TIMEOUT = 0x40"

text \<open>The line \<open>handle_error\<close> logs.\<close>

definition error_report :: "u16 \<Rightarrow> string option" where
  "error_report event =
     (if event AND BEV_EVENT_EOF \<noteq> 0 then Some ''connection closed''
      else if event AND BEV_EVENT_TIMEOUT \<noteq> 0 \<and> event AND BEV_EVENT_READING \<noteq> 0
        then Some ''NetworkInterface::reading timeout ...''
      else if event AND BEV_EVENT_TIMEOUT \<noteq> 0 \<and> event AND BEV_EVENT_WRITING \<noteq> 0
        then Some ''NetworkInterface::writing timeout ...''
      else if event AND BEV_EVENT_ERROR \<noteq> 0 then Some ''NetworkInterface::some other error ...''
      else None)"

text \<open>Whatever the event, the connection is dropped.\<close>

definition handle_error :: "ptr \<Rightarrow> u16 \<Rightarrow> ptr \<Rightarrow> ('b, 'h, 'db) srv \<Rightarrow> (string option \<times> ('b, 'h, 'db) srv) res" where
  "handle_error p event arg s =
     bindR (drop_connection p arg s) (\<lambda>s'. Inr (error_report event, s'))"

definition handle_response :: "ptr \<Rightarrow> ptr \<Rightarrow> ('b, 'h, 'db) srv \<Rightarrow> ('b, 'h, 'db) srv res" where
  "handle_response p arg s = Inr s"

text \<open>
  One round of the main loop: the callbacks \<open>event_base_loop\<close> finds ready, in the order it runs
  them, each with the argument stored in its buffer event, then all queued responses.
\<close>

datatype callback = CbAccept i32 string | CbRead nat | CbWrite nat | CbError nat u16

definition run_callback :: "'b netenv \<Rightarrow> callback \<Rightarrow> ('b, 'h, 'db) srv \<Rightarrow> ('b, 'h, 'db) srv res" where
  "run_callback V cb s = (case cb of
      CbAccept fd ip \<Rightarrow> bindR (listener_cb (nv_le V) fd ip (net s)) (\<lambda>n. Inr (s\<lparr>net := n\<rparr>))
    | CbRead b \<Rightarrow> bindR (deref (bevs (net s)) (Ptr b)) (\<lambda>e. handle_request V (Ptr b) (bev_arg e) s)
    | CbWrite b \<Rightarrow> bindR (deref (bevs (net s)) (Ptr b)) (\<lambda>e. handle_response (Ptr b) (bev_arg e) s)
    | CbError b ev \<Rightarrow> bindR (deref (bevs (net s)) (Ptr b)) (\<lambda>e.
        bindR (handle_error (Ptr b) ev (bev_arg e) s) (\<lambda>(_, s'). Inr s')))"

fun run_callbacks :: "'b netenv \<Rightarrow> callback list \<Rightarrow> ('b, 'h, 'db) srv \<Rightarrow> ('b, 'h, 'db) srv res" where
  "run_callbacks V [] s = Inr s"
| "run_callbacks V (cb # cbs) s = bindR (run_callback V cb s) (\<lambda>s'. run_callbacks V cbs s')"

definition network_event_dispatch :: "'b netenv \<Rightarrow> callback list \<Rightarrow> ('b, 'h, 'db) srv \<Rightarrow> ('b, 'h, 'db) srv res" where
  "network_event_dispatch V cbs s =
     bindR (run_callbacks V cbs s) (\<lambda>s1.
     bindR (handleAllResponseEvent (nv_le V) (nv_pb V) (nv_fill V) (responses (dms s1)) (net s1)) (\<lambda>(q, n).
       Inr (s1\<lparr>net := n, dms := (dms s1)\<lparr>responses := q\<rparr>\<rparr>)))"

subsection \<open>Reassembly\<close>

text \<open>
  The session has received the first \<open>k\<close> bytes of the frame of \<open>pl\<close>; \<open>cs_frame\<close> are the fields
  the reading of a request leaves alone.
\<close>

definition cs_frame :: "ConnectSession \<Rightarrow> ConnectSession \<Rightarrow> bool" where
  "cs_frame cs cs' \<longleftrightarrow> remote_ip cs' = remote_ip cs \<and> request cs' = request cs \<and>
     response cs' = response cs \<and> res_stat cs' = res_stat cs \<and> cs_fd cs' = cs_fd cs \<and>
     bev cs' = bev cs \<and> write_buf cs' = write_buf cs \<and> sent_len cs' = sent_len cs"

lemma cs_frame_refl [simp]: "cs_frame cs cs"
  by (simp add: cs_frame_def)

lemma cs_frame_trans: "cs_frame a b \<Longrightarrow> cs_frame b c \<Longrightarrow> cs_frame a c"
  by (simp add: cs_frame_def)

definition rx :: "u16 \<Rightarrow> bytes \<Rightarrow> nat \<Rightarrow> ConnectSession \<Rightarrow> bool" where
  "rx eid pl k cs \<longleftrightarrow> length (header cs) = 11 \<and> session_stat cs = SS_REQUEST \<and> k < 10 + length pl \<and>
     (if k < 10 then req_stat cs = MS_READ_HEADER \<and> read_header_len cs = word_of_nat k \<and>
        take k (header cs) = take k (frame eid pl)
      else req_stat cs = MS_READ_MESSAGE \<and> cs_eid cs = eid \<and> msg_len cs = word_of_nat (length pl) \<and>
        read_msg_len cs = word_of_nat (k - 10) \<and>
        (\<exists>buf. read_buf cs = Some buf \<and> length buf = length pl \<and> take (k - 10) buf = take (k - 10) pl))"

definition payload_ok :: "bytes \<Rightarrow> bool" where
  "payload_ok pl \<longleftrightarrow> 1 \<le> length pl \<and> length pl \<le> unat MAX_MSG_LEN"

lemma payload_okD:
  assumes "payload_ok pl"
  shows "1 \<le> length pl" and "length pl \<le> 367280" and "unat (word_of_nat (length pl) :: u32) = length pl"
    and "\<not> (word_of_nat (length pl) :: u32) < 1" and "\<not> (word_of_nat (length pl) :: u32) > MAX_MSG_LEN"
proof -
  show l: "1 \<le> length pl" "length pl \<le> 367280"
    using assms by (simp_all add: payload_ok_def MAX_MSG_LEN_def)
  then show u: "unat (word_of_nat (length pl) :: u32) = length pl" by (intro unat_word32) simp
  show "\<not> (word_of_nat (length pl) :: u32) < 1" using l u by (auto simp: word_less_nat_alt)
  show "\<not> (word_of_nat (length pl) :: u32) > MAX_MSG_LEN"
    using assms u by (auto simp: word_less_nat_alt payload_ok_def)
qed

lemma take_add_drop: "take (k + m) xs = take k xs @ take m (drop k xs)"
  by (rule take_add)

text \<open>Writing the next piece at its place.\<close>

lemma put_piece:
  assumes "length buf = n" and "take k buf = take k F" and "d = take m (drop k F)" and "length d = m"
    and "k + m \<le> n" and "k \<le> length F"
  shows "\<exists>buf'. put_bytes buf k d = Inr buf' \<and> length buf' = n \<and> take (k + m) buf' = take (k + m) F"
proof -
  have le: "k + length d \<le> length buf" using assms(1,4,5) by simp
  let ?b = "take k buf @ d @ drop (k + length d) buf"
  have kF: "length (take k F) = k" using assms(6) by simp
  have "take (k + m) (take k F @ d @ drop (k + length d) buf) = take k F @ d"
    using kF assms(4) by simp
  then have "take (k + m) ?b = take k F @ d" using assms(2) by simp
  then show ?thesis
    using le assms(1,3-6) by (intro exI [of _ ?b]) (simp add: put_bytes_ok take_add)
qed

lemma header_piece:
  assumes rx: "rx eid pl k cs" and k: "k < 10" and d: "d = take m (drop k (frame eid pl))" "length d = m"
    and m: "k + m \<le> 10" and pl: "payload_ok pl"
  shows "\<exists>cs'. header_step fill d cs = Inr (cs', False) \<and> rx eid pl (k + m) cs' \<and> cs_frame cs cs'"
proof -
  let ?F = "frame eid pl"
  have R: "length (header cs) = 11" "session_stat cs = SS_REQUEST" "req_stat cs = MS_READ_HEADER"
      "read_header_len cs = word_of_nat k" "take k (header cs) = take k ?F"
    using rx k by (simp_all add: rx_def)
  have un: "unat (word_of_nat k :: u32) = k" "unat (word_of_nat (k + m) :: u32) = k + m"
    using k m by (intro unat_word32; simp)+
  obtain h1 where h1: "put_bytes (header cs) k d = Inr h1" "length h1 = 11" "take (k + m) h1 = take (k + m) ?F"
    using put_piece [OF R(1,5) d] m k by (auto simp: frame_length)
  obtain h2 where put0: "put_bytes h1 (k + m) [0] = Inr h2" and
      h2: "length h2 = 11" "take (k + m) h2 = take (k + m) ?F"
  proof
    show "put_bytes h1 (k + m) [0] = Inr (take (k + m) h1 @ [0] @ drop (k + m + 1) h1)"
      using h1(2) m by (simp add: put_bytes_ok)
    show "length (take (k + m) h1 @ [0] @ drop (k + m + 1) h1) = 11" using h1(2) m by simp
    have "length (take (k + m) h1) = k + m" using h1(2) m by simp
    then show "take (k + m) (take (k + m) h1 @ [0] @ drop (k + m + 1) h1) = take (k + m) ?F"
      using h1(3) by simp
  qed
  have sum: "(word_of_nat k :: u32) + word_of_nat m = word_of_nat (k + m)" by simp
  have step: "header_step fill d cs =
      (let cs1 = cs\<lparr>header := h2, read_header_len := word_of_nat (k + m)\<rparr> in
       if (word_of_nat (k + m) :: u32) = word_of_nat MESSAGE_HEADER_LEN then
         bindR (strncmp_eq (length MESSAGE_HEADER) h2 (bytes_of MESSAGE_HEADER)) (\<lambda>eq.
               if eq then
                 bindR (rd16 (drop 4 h2)) (\<lambda>e.
                 bindR (rd32 (drop 6 h2)) (\<lambda>l.
                   (let cs2 = cs1\<lparr>cs_eid := e, msg_len := l\<rparr> in
                    if msg_len cs2 < 1 \<or> msg_len cs2 > MAX_MSG_LEN then Inr (cs2, True)
                    else Inr (cs2\<lparr>read_buf := Some (new_chars fill (unat (msg_len cs2))),
                                req_stat := MS_READ_MESSAGE, read_msg_len := 0\<rparr>, False))))
               else Inr (cs1, True))
       else Inr (cs1, False))"
    unfolding header_step_def R(4) un(1) h1(1) bindR_Inr d(2) sum Let_def un(2) put0 ..
  show ?thesis
  proof (cases "k + m < 10")
    case True
    have "(word_of_nat (k + m) :: u32) \<noteq> word_of_nat MESSAGE_HEADER_LEN"
    proof
      assume "(word_of_nat (k + m) :: u32) = word_of_nat MESSAGE_HEADER_LEN"
      then have "unat (word_of_nat (k + m) :: u32) = unat (word_of_nat 10 :: u32)"
        by (simp only: MESSAGE_HEADER_LEN_def)
      then show False using un(2) True by simp
    qed
    then have "header_step fill d cs =
        Inr (cs\<lparr>header := h2, read_header_len := word_of_nat (k + m)\<rparr>, False)"
      unfolding step by simp
    moreover have "rx eid pl (k + m) (cs\<lparr>header := h2, read_header_len := word_of_nat (k + m)\<rparr>)"
      unfolding rx_def using R True h2 by (simp del: of_nat_add)
    ultimately show ?thesis
      by (intro exI conjI) (assumption, assumption, simp add: cs_frame_def)
  next
    case False
    then have km: "k + m = 10" using m by simp
    have hd: "take 10 h2 = magic @ le16 eid @ le32 (word_of_nat (length pl))"
      using h2(2) unfolding km frame_header_take .
    have ln: "10 \<le> length h2" using h2(1) by simp
    note F = frame_fields [OF hd ln]
    note P = payload_okD [OF pl]
    let ?cs' = "cs\<lparr>header := h2, read_header_len := word_of_nat (k + m), cs_eid := eid,
      msg_len := word_of_nat (length pl), read_buf := Some (new_chars fill (length pl)),
      req_stat := MS_READ_MESSAGE, read_msg_len := 0\<rparr>"
    have mh: "length MESSAGE_HEADER = 4" by (simp add: MESSAGE_HEADER_def)
    have "header_step fill d cs = Inr (?cs', False)"
      unfolding step Let_def mh magic_bytes F bindR_Inr MESSAGE_HEADER_LEN_def
      using P(3-5) by (simp add: km)
    moreover have "rx eid pl (k + m) ?cs'"
      unfolding rx_def km using R P h2(1) by (auto simp: new_chars_def km)
    ultimately show ?thesis
      by (intro exI conjI) (assumption, assumption, simp add: cs_frame_def)
  qed
qed

text \<open>
  The message part: the buffer takes the next piece; the two lengths are equal exactly at the end.
\<close>

lemma message_piece:
  assumes rx: "rx eid pl k cs" and k: "10 \<le> k" and d: "d = take m (drop k (frame eid pl))" "length d = m"
    and m: "k + m \<le> 10 + length pl" and pl: "payload_ok pl"
  shows "\<exists>cs'. message_step d cs = Inr cs' \<and> cs_frame cs cs' \<and> length (header cs') = 11 \<and> cs_eid cs' = eid \<and>
     session_stat cs' = SS_REQUEST \<and> req_stat cs' = MS_READ_MESSAGE \<and>
     msg_len cs' = word_of_nat (length pl) \<and> header cs' = header cs \<and> read_header_len cs' = read_header_len cs \<and>
     (msg_len cs' = read_msg_len cs' \<longleftrightarrow> k + m = 10 + length pl) \<and>
     (if k + m = 10 + length pl then read_buf cs' = Some pl \<and> read_msg_len cs' = msg_len cs'
      else rx eid pl (k + m) cs')"
proof -
  obtain buf where R: "length (header cs) = 11" "session_stat cs = SS_REQUEST" "req_stat cs = MS_READ_MESSAGE"
      "cs_eid cs = eid" "msg_len cs = word_of_nat (length pl)" "read_msg_len cs = word_of_nat (k - 10)"
      "read_buf cs = Some buf" "length buf = length pl" "take (k - 10) buf = take (k - 10) pl"
      "k < 10 + length pl"
    using rx k by (auto simp: rx_def)
  note P = payload_okD [OF pl]
  have drop: "drop k (frame eid pl) = drop (k - 10) pl"
  proof -
    have "drop k (frame eid pl) = drop (k - 10) (drop 10 (frame eid pl))" using k by simp
    then show ?thesis by (simp only: frame_payload_drop)
  qed
  have un: "unat (word_of_nat (k - 10) :: u32) = k - 10" "unat (word_of_nat (k - 10 + m) :: u32) = k - 10 + m"
    using P(2) R(10) m by (intro unat_word32; simp)+
  have le: "k - 10 + m \<le> length pl" "k - 10 \<le> length pl" using m k by simp_all
  obtain buf' where b: "put_bytes buf (k - 10) d = Inr buf'" "length buf' = length pl"
      "take (k - 10 + m) buf' = take (k - 10 + m) pl"
    using put_piece [OF R(8,9) d(1) [unfolded drop] d(2) le] by blast
  let ?cs' = "cs\<lparr>read_buf := Some buf', read_msg_len := word_of_nat (k - 10 + m)\<rparr>"
  have "message_step d cs = Inr ?cs'"
    using R(6,7) b(1) un(1) d(2) by (simp add: message_step_def)
  moreover have eq: "msg_len ?cs' = read_msg_len ?cs' \<longleftrightarrow> k + m = 10 + length pl"
  proof
    assume "msg_len ?cs' = read_msg_len ?cs'"
    then have "unat (word_of_nat (length pl) :: u32) = unat (word_of_nat (k - 10 + m) :: u32)"
      using R(5) by simp
    then show "k + m = 10 + length pl" using P(3) un(2) k by simp
  next
    assume "k + m = 10 + length pl"
    then have "k - 10 + m = length pl" using k by simp
    then show "msg_len ?cs' = read_msg_len ?cs'" using R(5) by simp
  qed
  moreover have "rx eid pl (k + m) ?cs'" if "k + m \<noteq> 10 + length pl"
    unfolding rx_def using that R k m b(2,3) by (simp del: of_nat_add)
  moreover have "read_buf ?cs' = Some pl" if "k + m = 10 + length pl"
  proof -
    have "k - 10 + m = length pl" using that k by simp
    then show ?thesis using b(2,3) by simp
  qed
  moreover have "read_msg_len ?cs' = msg_len ?cs'" if "k + m = 10 + length pl"
    using eq that by simp
  ultimately show ?thesis
    using R(1-5) by (intro exI [of _ ?cs']) (simp add: cs_frame_def)
qed

text \<open>A state in which the session at \<open>a\<close> and its buffer event at \<open>b\<close> are exchanged.\<close>

definition with_conn :: "nat \<Rightarrow> ConnectSession \<Rightarrow> nat \<Rightarrow> 'b bufferevent \<Rightarrow> ('b, 'h, 'db) srv \<Rightarrow> ('b, 'h, 'db) srv" where
  "with_conn a cs b e s = s\<lparr>net := (net s)\<lparr>bevs := (bevs (net s))(b \<mapsto> e), sessions := (sessions (net s))(a \<mapsto> cs)\<rparr>\<rparr>"

lemma with_conn_sel [simp]:
  "sessions (net (with_conn a cs b e s)) = (sessions (net s))(a \<mapsto> cs)"
  "bevs (net (with_conn a cs b e s)) = (bevs (net s))(b \<mapsto> e)"
  "dms (with_conn a cs b e s) = dms s" "hs (with_conn a cs b e s) = hs s"
  "next_bev (net (with_conn a cs b e s)) = next_bev (net s)"
  "next_cs (net (with_conn a cs b e s)) = next_cs (net s)"
  by (simp_all add: with_conn_def)

lemma with_conn_again [simp]: "with_conn a cs' b e' (with_conn a cs b e s) = with_conn a cs' b e' s"
  by (simp add: with_conn_def)

lemma with_conn_same:
  "sessions (net s) a = Some cs \<Longrightarrow> bevs (net s) b = Some e \<Longrightarrow> with_conn a cs b e s = s"
  by (simp add: with_conn_def fun_upd_idem_iff)

lemma bev_read_ok:
  assumes "bevs n b = Some e"
  shows "bev_read L (Ptr b) k n = Inr (fst (le_read L k (bev_io e)),
     n\<lparr>bevs := (bevs n)(b \<mapsto> e\<lparr>bev_io := snd (le_read L k (bev_io e))\<rparr>)\<rparr>)"
  using assms by (simp add: bev_read_def split: prod.split)

text \<open>The bytes waiting are the next \<open>m\<close> of the frame.\<close>

definition waiting_piece :: "('b \<Rightarrow> bytes) \<Rightarrow> 'b bufferevent \<Rightarrow> bytes \<Rightarrow> nat \<Rightarrow> nat \<Rightarrow> bool" where
  "waiting_piece inp e F k m \<longleftrightarrow> inp (bev_io e) = take m (drop k F) \<and> k + m \<le> length F"

lemma waiting_piece_length: "waiting_piece inp e F k m \<Longrightarrow> length (inp (bev_io e)) = m"
  by (auto simp: waiting_piece_def)

lemma read_header_piece:
  assumes L: "libevent_ok (nv_le V) inp out" and cs: "sessions (net s) a = Some cs"
    and e: "bevs (net s) b = Some e" and rx: "rx eid pl k cs" and k: "k < 10" and pl: "payload_ok pl"
    and w: "waiting_piece inp e (frame eid pl) k m"
  shows "\<exists>cs' e'. read_header V (Ptr b) (Ptr a) cs s = Inr (True, with_conn a cs' b e' s) \<and>
     rx eid pl (k + min m (10 - k)) cs' \<and> cs_frame cs cs' \<and> bev_arg e' = bev_arg e \<and>
     out (bev_io e') = out (bev_io e) \<and> waiting_piece inp e' (frame eid pl) (k + min m (10 - k)) (m - (10 - k))"
proof -
  let ?F = "frame eid pl" and ?L = "nv_le V"
  have "read_header_len cs = word_of_nat k" using rx k by (simp add: rx_def)
  moreover have "word_of_nat MESSAGE_HEADER_LEN - (word_of_nat k :: u32) = word_of_nat (10 - k)"
    using k by (simp add: MESSAGE_HEADER_LEN_def of_nat_diff)
  moreover have "unat (word_of_nat (10 - k) :: u32) = 10 - k" by (rule unat_word32) simp
  ultimately have n: "unat (word_of_nat MESSAGE_HEADER_LEN - read_header_len cs) = 10 - k" by metis
  let ?d = "fst (le_read ?L (10 - k) (bev_io e))"
  let ?e = "e\<lparr>bev_io := snd (le_read ?L (10 - k) (bev_io e))\<rparr>"
  have d: "?d = take (min m (10 - k)) (drop k ?F)"
    using w libevent_okD(1) [OF L] by (simp add: waiting_piece_def min.commute)
  then have ld: "length ?d = min m (10 - k)"
    using w by (auto simp: waiting_piece_def)
  have km: "k + min m (10 - k) \<le> 10" using k by simp
  obtain cs' where cs': "header_step (nv_fill V) ?d cs = Inr (cs', False)"
      "rx eid pl (k + min m (10 - k)) cs'" "cs_frame cs cs'"
    using header_piece [OF rx k d ld km pl] by blast
  have "read_header V (Ptr b) (Ptr a) cs s = Inr (True, with_conn a cs' b ?e s)"
    using cs by (simp add: read_header_def n bev_read_ok [OF e] cs'(1) with_conn_def)
  moreover have "waiting_piece inp ?e ?F (k + min m (10 - k)) (m - (10 - k))"
    using w libevent_okD(2) [OF L] by (auto simp: waiting_piece_def drop_take min_def add.commute)
  moreover have "out (bev_io ?e) = out (bev_io e)" using libevent_okD(3) [OF L] by simp
  ultimately show ?thesis using cs'(2,3) by (intro exI [of _ cs'] exI [of _ ?e]) simp
qed

text \<open>A session whose message is complete.\<close>

definition rx_done :: "u16 \<Rightarrow> bytes \<Rightarrow> ConnectSession \<Rightarrow> bool" where
  "rx_done eid pl cs \<longleftrightarrow> length (header cs) = 11 \<and> session_stat cs = SS_RESPONSE \<and>
     req_stat cs = MS_READ_MESSAGE \<and> cs_eid cs = eid \<and> read_buf cs = Some pl \<and>
     read_msg_len cs = word_of_nat (length pl) \<and> msg_len cs = word_of_nat (length pl)"

lemma read_message_piece:
  assumes L: "libevent_ok (nv_le V) inp out" and cs: "sessions (net s) a = Some cs"
    and e: "bevs (net s) b = Some e" and rx: "rx eid pl k cs" and pl: "payload_ok pl"
    and w: "waiting_piece inp e (frame eid pl) k m" and m: "10 \<le> k \<or> m = 0"
  shows "\<exists>cs' e'. cs_frame cs cs' \<and> bev_arg e' = bev_arg e \<and> out (bev_io e') = out (bev_io e) \<and>
     inp (bev_io e') = [] \<and>
     (if k + m = length (frame eid pl) then rx_done eid pl cs' \<and>
        read_message V (Ptr b) (Ptr a) s = complete_request V (Ptr b) (Ptr a) cs' (with_conn a cs' b e' s)
      else rx eid pl (k + m) cs' \<and> read_message V (Ptr b) (Ptr a) s = Inr (with_conn a cs' b e' s))"
proof (cases "m = 0")
  case True
  have kF: "k < length (frame eid pl)" using rx by (simp add: rx_def frame_length)
  have len: "le_input_length (nv_le V) (bev_io e) = 0" and inp: "inp (bev_io e) = []"
    using w True libevent_okD(4) [OF L] by (simp_all add: waiting_piece_def)
  have "read_message V (Ptr b) (Ptr a) s = Inr s"
    using cs e len by (simp add: read_message_def bev_input_length_def)
  then show ?thesis
    using True rx inp with_conn_same [OF cs e] kF by (intro exI [of _ cs] exI [of _ e]) simp
next
  case False
  then have k: "10 \<le> k" using m by simp
  let ?F = "frame eid pl" and ?L = "nv_le V"
  note P = payload_okD [OF pl]
  have R: "req_stat cs = MS_READ_MESSAGE" "msg_len cs = word_of_nat (length pl)"
      "read_msg_len cs = word_of_nat (k - 10)" "k < 10 + length pl"
    using rx k by (auto simp: rx_def)
  have km: "k + m \<le> 10 + length pl" using w by (simp add: waiting_piece_def frame_length)
  have "(word_of_nat (length pl) :: u32) - word_of_nat (k - 10) = word_of_nat (length pl - (k - 10))"
    using R(4) by (subst of_nat_diff) simp_all
  moreover have "unat (word_of_nat (length pl - (k - 10)) :: u32) = length pl - (k - 10)"
    using P(2) by (intro unat_word32) simp
  ultimately have n: "unat (msg_len cs - read_msg_len cs) = length pl - (k - 10)"
    by (simp only: R(2,3))
  have avail: "0 < le_input_length ?L (bev_io e)"
    using False w waiting_piece_length [OF w] libevent_okD(4) [OF L] by simp
  let ?d = "fst (le_read ?L (length pl - (k - 10)) (bev_io e))"
  let ?e = "e\<lparr>bev_io := snd (le_read ?L (length pl - (k - 10)) (bev_io e))\<rparr>"
  have mle: "m \<le> length pl - (k - 10)" using km k R(4) by simp
  have d: "?d = take m (drop k ?F)" and ie: "inp (bev_io ?e) = []"
    using w libevent_okD(1,2) [OF L] mle by (simp_all add: waiting_piece_def min_def)
  have ld: "length ?d = m" using d w by (auto simp: waiting_piece_def)
  obtain cs' where cs': "message_step ?d cs = Inr cs'" "cs_frame cs cs'" "length (header cs') = 11"
      "cs_eid cs' = eid" "session_stat cs' = SS_REQUEST" "req_stat cs' = MS_READ_MESSAGE"
      "msg_len cs' = word_of_nat (length pl)"
      "msg_len cs' = read_msg_len cs' \<longleftrightarrow> k + m = 10 + length pl"
      "if k + m = 10 + length pl then read_buf cs' = Some pl \<and> read_msg_len cs' = msg_len cs'
      else rx eid pl (k + m) cs'"
    using message_piece [OF rx k d ld km pl] by blast
  have oe: "out (bev_io ?e) = out (bev_io e)" using libevent_okD(3) [OF L] by simp
  show ?thesis
  proof (cases "k + m = 10 + length pl")
    case True
    let ?cs = "cs'\<lparr>session_stat := SS_RESPONSE\<rparr>"
    have "read_message V (Ptr b) (Ptr a) s = complete_request V (Ptr b) (Ptr a) ?cs (with_conn a ?cs b ?e s)"
      using cs e R(1) avail True cs'(8)
      by (simp add: read_message_def bev_input_length_def n bev_read_ok [OF e] cs'(1) with_conn_def Let_def)
    moreover have "rx_done eid pl ?cs" using cs' True by (simp add: rx_done_def)
    moreover have "cs_frame cs ?cs" using cs'(2) by (simp add: cs_frame_def)
    ultimately show ?thesis
      using True ie oe by (intro exI [of _ ?cs] exI [of _ ?e]) (simp add: frame_length)
  next
    case False
    have "read_message V (Ptr b) (Ptr a) s = Inr (with_conn a cs' b ?e s)"
      using cs e R(1) avail False cs'(8)
      by (simp add: read_message_def bev_input_length_def n bev_read_ok [OF e] cs'(1) with_conn_def Let_def)
    then show ?thesis
      using False cs'(2,9) ie oe by (intro exI [of _ cs'] exI [of _ ?e]) (simp add: frame_length)
  qed
qed

lemma request_piece:
  assumes L: "libevent_ok (nv_le V) inp out" and cs: "sessions (net s) a = Some cs"
    and e: "bevs (net s) b = Some e" and rx: "rx eid pl k cs" and pl: "payload_ok pl"
    and w: "waiting_piece inp e (frame eid pl) k m"
  shows "\<exists>cs' e'. cs_frame cs cs' \<and> bev_arg e' = bev_arg e \<and> out (bev_io e') = out (bev_io e) \<and>
     inp (bev_io e') = [] \<and>
     (if k + m = length (frame eid pl) then rx_done eid pl cs' \<and>
        handle_request V (Ptr b) (Ptr a) s = complete_request V (Ptr b) (Ptr a) cs' (with_conn a cs' b e' s)
      else rx eid pl (k + m) cs' \<and> handle_request V (Ptr b) (Ptr a) s = Inr (with_conn a cs' b e' s))"
proof (cases "k < 10")
  case True
  have st: "session_stat cs = SS_REQUEST" "req_stat cs = MS_READ_HEADER"
    using rx True by (simp_all add: rx_def)
  let ?k = "k + min m (10 - k)" and ?m = "m - (10 - k)"
  obtain cs1 e1 where h: "read_header V (Ptr b) (Ptr a) cs s = Inr (True, with_conn a cs1 b e1 s)"
      "rx eid pl ?k cs1" "cs_frame cs cs1" "bev_arg e1 = bev_arg e" "out (bev_io e1) = out (bev_io e)"
      "waiting_piece inp e1 (frame eid pl) ?k ?m"
    using read_header_piece [OF L cs e rx True pl w] by blast
  have hr: "handle_request V (Ptr b) (Ptr a) s = read_message V (Ptr b) (Ptr a) (with_conn a cs1 b e1 s)"
    using cs st by (simp add: handle_request_def h(1))
  have s1: "sessions (net (with_conn a cs1 b e1 s)) a = Some cs1" "bevs (net (with_conn a cs1 b e1 s)) b = Some e1"
    by simp_all
  have km: "10 \<le> ?k \<or> ?m = 0" and sum: "?k + ?m = k + m" using True by auto
  obtain cs' e' where m: "cs_frame cs1 cs'" "bev_arg e' = bev_arg e1" "out (bev_io e') = out (bev_io e1)"
      "inp (bev_io e') = []"
      "if ?k + ?m = length (frame eid pl) then rx_done eid pl cs' \<and>
        read_message V (Ptr b) (Ptr a) (with_conn a cs1 b e1 s) =
          complete_request V (Ptr b) (Ptr a) cs' (with_conn a cs' b e' (with_conn a cs1 b e1 s))
      else rx eid pl (?k + ?m) cs' \<and>
        read_message V (Ptr b) (Ptr a) (with_conn a cs1 b e1 s) = Inr (with_conn a cs' b e' (with_conn a cs1 b e1 s))"
    using read_message_piece [OF L s1 h(2) pl h(6) km] by blast
  then show ?thesis
    using cs_frame_trans [OF h(3) m(1)] h(4,5) unfolding hr sum with_conn_again
    by (intro exI [of _ cs'] exI [of _ e']) simp
next
  case False
  then have st: "session_stat cs = SS_REQUEST" "req_stat cs = MS_READ_MESSAGE"
    using rx by (simp_all add: rx_def)
  have hr: "handle_request V (Ptr b) (Ptr a) s = read_message V (Ptr b) (Ptr a) s"
    using cs st by (simp add: handle_request_def)
  have k: "10 \<le> k \<or> m = 0" using False by simp
  show ?thesis unfolding hr by (rule read_message_piece [OF L cs e rx pl w k])
qed

text \<open>
  Bytes arriving on a connection: libevent appends them to the input buffer (\<open>arr\<close>) and runs the
  read callback.
\<close>

definition arrives_ok :: "(bytes \<Rightarrow> 'b \<Rightarrow> 'b) \<Rightarrow> ('b \<Rightarrow> bytes) \<Rightarrow> ('b \<Rightarrow> bytes) \<Rightarrow> bool" where
  "arrives_ok arr inp out \<longleftrightarrow> (\<forall>c io. inp (arr c io) = inp io @ c \<and> out (arr c io) = out io)"

definition receive :: "'b netenv \<Rightarrow> (bytes \<Rightarrow> 'b \<Rightarrow> 'b) \<Rightarrow> nat \<Rightarrow> bytes \<Rightarrow> ('b, 'h, 'db) srv \<Rightarrow> ('b, 'h, 'db) srv res" where
  "receive V arr b c s =
     bindR (deref (bevs (net s)) (Ptr b)) (\<lambda>e.
       run_callback V (CbRead b)
         (s\<lparr>net := (net s)\<lparr>bevs := (bevs (net s))(b \<mapsto> e\<lparr>bev_io := arr c (bev_io e)\<rparr>)\<rparr>\<rparr>))"

fun receive_all :: "'b netenv \<Rightarrow> (bytes \<Rightarrow> 'b \<Rightarrow> 'b) \<Rightarrow> nat \<Rightarrow> bytes list \<Rightarrow> ('b, 'h, 'db) srv \<Rightarrow> ('b, 'h, 'db) srv res" where
  "receive_all V arr b [] s = Inr s"
| "receive_all V arr b (c # cs) s = bindR (receive V arr b c s) (\<lambda>s'. receive_all V arr b cs s')"

text \<open>The request of a completed session is parsed and posted.\<close>

lemma complete_request_post:
  assumes "rx_done eid pl cs" and "sessions (net s) a = Some cs"
    and "parseEvent (nv_pb V) (Some pl) (word_of_nat (length pl)) (ucast eid) (segno (hs s)) = Inr (Some ev, c)"
    and "dms_enqueue (nv_calloc V) (nv_lock V) (nv_signal V) (Some (set_args (Ptr a) ev)) (dms s) = Inr (rc, d)"
  shows "complete_request V p (Ptr a) cs s =
    Inr (s\<lparr>net := (net s)\<lparr>sessions := (sessions (net s))(a \<mapsto> cs\<lparr>read_buf := None, read_msg_len := 0\<rparr>)\<rparr>,
           hs := (hs s)\<lparr>segno := c\<rparr>, dms := d\<rparr>)"
  using assms by (simp add: complete_request_def rx_done_def)

text \<open>One piece that does not complete the frame, and one that does.\<close>

lemma receive_piece:
  assumes L: "libevent_ok (nv_le V) inp out" and A: "arrives_ok arr inp out"
    and cs: "sessions (net s) a = Some cs" and e: "bevs (net s) b = Some e" "bev_arg e = Ptr a" "inp (bev_io e) = []"
    and rx: "rx eid pl k cs" and pl: "payload_ok pl" and c: "drop k (frame eid pl) = c @ rest"
  shows "\<exists>cs' e'. cs_frame cs cs' \<and> bev_arg e' = Ptr a \<and> out (bev_io e') = out (bev_io e) \<and> inp (bev_io e') = [] \<and>
     (if rest = [] then rx_done eid pl cs' \<and>
        receive V arr b c s = complete_request V (Ptr b) (Ptr a) cs' (with_conn a cs' b e' s)
      else rx eid pl (k + length c) cs' \<and> receive V arr b c s = Inr (with_conn a cs' b e' s))"
proof -
  let ?e = "e\<lparr>bev_io := arr c (bev_io e)\<rparr>"
  let ?s = "s\<lparr>net := (net s)\<lparr>bevs := (bevs (net s))(b \<mapsto> ?e)\<rparr>\<rparr>"
  have ie: "inp (bev_io ?e) = c" "out (bev_io ?e) = out (bev_io e)"
    using A e(3) by (simp_all add: arrives_ok_def)
  have kF: "k < length (frame eid pl)" using rx by (simp add: rx_def frame_length)
  have "length (drop k (frame eid pl)) = length c + length rest" by (simp only: c length_append)
  then have len: "k + length c + length rest = length (frame eid pl)" using kF by simp
  have w: "waiting_piece inp ?e (frame eid pl) k (length c)"
    using c ie len by (simp add: waiting_piece_def)
  have s: "sessions (net ?s) a = Some cs" "bevs (net ?s) b = Some ?e" using cs by simp_all
  have same: "with_conn a cs' b e' ?s = with_conn a cs' b e' s" for cs' e' by (simp add: with_conn_def)
  have rc: "receive V arr b c s = handle_request V (Ptr b) (Ptr a) ?s"
    using e by (simp add: receive_def run_callback_def)
  have last: "k + length c = length (frame eid pl) \<longleftrightarrow> rest = []" using len by auto
  show ?thesis
    using request_piece [OF L s rx pl w] e(2) ie(2) unfolding rc same last by simp
qed

lemma receive_all_Nil: "receive_all V arr b [] = Inr"
  by (rule ext) simp

lemma receive_all_pieces:
  assumes L: "libevent_ok (nv_le V) inp out" and A: "arrives_ok arr inp out" and pl: "payload_ok pl"
  shows "sessions (net s) a = Some cs \<Longrightarrow> bevs (net s) b = Some e \<Longrightarrow> bev_arg e = Ptr a \<Longrightarrow>
     inp (bev_io e) = [] \<Longrightarrow> rx eid pl k cs \<Longrightarrow> concat chunks = drop k (frame eid pl) \<Longrightarrow> [] \<notin> set chunks \<Longrightarrow>
     \<exists>cs' e'. rx_done eid pl cs' \<and> cs_frame cs cs' \<and> bev_arg e' = Ptr a \<and> out (bev_io e') = out (bev_io e) \<and>
       inp (bev_io e') = [] \<and>
       receive_all V arr b chunks s = complete_request V (Ptr b) (Ptr a) cs' (with_conn a cs' b e' s)"
proof (induction chunks arbitrary: s cs e k)
  case Nil
  then have "length (frame eid pl) \<le> k" by simp
  then show ?case using Nil.prems(5) by (simp add: rx_def frame_length)
next
  case (Cons c chunks)
  have c: "drop k (frame eid pl) = c @ concat chunks" using Cons.prems(6) by simp
  obtain cs1 e1 where p: "cs_frame cs cs1" "bev_arg e1 = Ptr a" "out (bev_io e1) = out (bev_io e)"
      "inp (bev_io e1) = []"
      "if concat chunks = [] then rx_done eid pl cs1 \<and>
        receive V arr b c s = complete_request V (Ptr b) (Ptr a) cs1 (with_conn a cs1 b e1 s)
      else rx eid pl (k + length c) cs1 \<and> receive V arr b c s = Inr (with_conn a cs1 b e1 s)"
    using receive_piece [OF L A Cons.prems(1-5) pl c] by blast
  show ?case
  proof (cases "chunks = []")
    case True
    then show ?thesis using p by (intro exI [of _ cs1] exI [of _ e1]) (simp add: receive_all_Nil)
  next
    case False
    then obtain c2 cs2 where "chunks = c2 # cs2" by (cases chunks) auto
    then have "concat chunks \<noteq> []" using Cons.prems(7) by auto
    then have r: "rx eid pl (k + length c) cs1" "receive V arr b c s = Inr (with_conn a cs1 b e1 s)"
      using p(5) by simp_all
    have d: "concat chunks = drop (k + length c) (frame eid pl)"
    proof -
      have "drop (length c) (drop k (frame eid pl)) = concat chunks" by (simp add: c)
      then show ?thesis by (simp add: add.commute)
    qed
    have ne: "[] \<notin> set chunks" using Cons.prems(7) by simp
    have s1: "sessions (net (with_conn a cs1 b e1 s)) a = Some cs1"
        "bevs (net (with_conn a cs1 b e1 s)) b = Some e1" by simp_all
    obtain cs' e' where q: "rx_done eid pl cs'" "cs_frame cs1 cs'" "bev_arg e' = Ptr a"
        "out (bev_io e') = out (bev_io e1)" "inp (bev_io e') = []"
        "receive_all V arr b chunks (with_conn a cs1 b e1 s) =
          complete_request V (Ptr b) (Ptr a) cs' (with_conn a cs' b e' (with_conn a cs1 b e1 s))"
      using Cons.IH [OF s1 p(2,4) r(1) d ne] by blast
    then show ?thesis
      using cs_frame_trans [OF p(1) q(2)] p(3) r(2)
      by (intro exI [of _ cs'] exI [of _ e']) simp
  qed
qed

lemma rx_start:
  "cs_ok cs \<Longrightarrow> session_stat cs = SS_REQUEST \<Longrightarrow> req_stat cs = MS_READ_HEADER \<Longrightarrow> read_header_len cs = 0 \<Longrightarrow>
   rx eid pl 0 cs"
  by (simp add: rx_def cs_ok_def)

lemma strncmp_take:
  "n \<le> length s \<Longrightarrow> n \<le> length t \<Longrightarrow> 0 \<notin> set (take n t) \<Longrightarrow> strncmp_eq n s t = Inr (take n s = take n t)"
  by (induction n s t rule: strncmp_eq.induct) auto

lemma strncmp_magic:
  assumes "4 \<le> length h"
  shows "strncmp_eq 4 h magic = Inr (take 4 h = magic)"
  using strncmp_take [of 4 h magic] assms by (simp add: magic_def)

text \<open>A header that is not acceptable: another magic, or a length of zero or above the limit.\<close>

definition bad_header :: "bytes \<Rightarrow> bool" where
  "bad_header h \<longleftrightarrow> take 4 h \<noteq> magic \<or>
     (case rd32 (drop 6 h) of Inl _ \<Rightarrow> False | Inr l \<Rightarrow> l < 1 \<or> MAX_MSG_LEN < l)"

lemma rd32_take: "rd32 (take 4 xs) = rd32 xs"
  by (cases xs rule: list.exhaust; cases "tl xs"; cases "tl (tl xs)"; cases "tl (tl (tl xs))")
    (auto simp: rd32_def numeral_eq_Suc)

lemma header_step_bad:
  assumes "length (header cs) = 11" and "read_header_len cs = 0" and "length h = 10" and "bad_header h"
  shows "\<exists>cs'. header_step fill h cs = Inr (cs', True)"
proof -
  have ten: "(word_of_nat 10 :: u32) = 10" "unat (10 :: u32) = 10" by simp_all
  let ?h = "h @ [0]"
  have "put_bytes (header cs) 0 h = Inr (h @ drop 10 (header cs))"
    using assms(1,3) by (simp add: put_bytes_def)
  moreover have "put_bytes (h @ drop 10 (header cs)) 10 [0] = Inr ?h"
    using assms(1,3) by (simp add: put_bytes_def)
  moreover have "strncmp_eq 4 ?h magic = Inr (take 4 h = magic)"
    using strncmp_magic [of ?h] assms(3) by simp
  moreover obtain e where "rd16 (drop 4 ?h) = Inr e"
    using rd16_eq_Inr [of "drop 4 ?h"] assms(3) by auto
  moreover obtain l where l: "rd32 (drop 6 h) = Inr l"
    using rd32_eq_Inr [of "drop 6 h"] assms(3) by auto
  moreover have "rd32 (drop 6 ?h) = Inr l"
    using l rd32_take [of "drop 6 ?h"] rd32_take [of "drop 6 h"] assms(3) by simp
  moreover have mh: "length MESSAGE_HEADER = 4" by (simp add: MESSAGE_HEADER_def)
  ultimately show ?thesis
    using assms(2-4) ten unfolding header_step_def mh
    by (simp add: bad_header_def MESSAGE_HEADER_LEN_def magic_bytes Let_def)
qed

subsection \<open>Any bytes at all\<close>

text \<open>The same two steps on arbitrary input: no access outside a buffer, and the invariant kept.\<close>

lemma header_any:
  assumes ok: "cs_ok cs" and st: "session_stat cs = SS_REQUEST" "req_stat cs = MS_READ_HEADER"
    and d: "length d \<le> 10 - unat (read_header_len cs)"
  shows "\<exists>cs' rej. header_step fill d cs = Inr (cs', rej) \<and> cs_frame cs cs' \<and>
    (\<not> rej \<longrightarrow> cs_ok cs' \<and> session_stat cs' = SS_REQUEST)"
proof -
  let ?k = "unat (read_header_len cs)"
  have C: "length (header cs) = 11" "write_buf cs = None" "request cs = None" "bev cs \<noteq> Null"
      "?k < 10" "read_buf cs = None"
    using ok st by (simp_all add: cs_ok_def)
  obtain h1 where p1: "put_bytes (header cs) ?k d = Inr h1"
    using C(1,5) d put_bytes_ok [of ?k d "header cs"] by simp
  let ?r = "read_header_len cs + word_of_nat (length d)"
  have ur: "unat ?r = ?k + length d"
  proof -
    have "?r = word_of_nat (?k + length d)" by simp
    moreover have "?k + length d < 2 ^ 32" using C(5) d by simp
    ultimately show ?thesis by (simp only: unat_word32)
  qed
  have l1: "length h1 = 11" using put_bytes_length [OF p1] C(1) by simp
  have "unat ?r + length [0 :: byte] \<le> length h1" using ur l1 C(5) d by simp
  then obtain h2 where p2: "put_bytes h1 (unat ?r) [0] = Inr h2" using put_bytes_ok by blast
  have l2: "length h2 = 11" using put_bytes_length [OF p2] l1 by simp
  let ?cs1 = "cs\<lparr>header := h2, read_header_len := ?r\<rparr>"
  have mh: "length MESSAGE_HEADER = 4" by (simp add: MESSAGE_HEADER_def)
  have sn: "strncmp_eq 4 h2 magic = Inr (take 4 h2 = magic)" using strncmp_magic [of h2] l2 by simp
  obtain e where e: "rd16 (drop 4 h2) = Inr e" using rd16_eq_Inr [of "drop 4 h2"] l2 by auto
  obtain l where l: "rd32 (drop 6 h2) = Inr l" using rd32_eq_Inr [of "drop 6 h2"] l2 by auto
  have step: "header_step fill d cs =
      (if ?r = word_of_nat MESSAGE_HEADER_LEN then
         (if take 4 h2 = magic then
            (if l < 1 \<or> l > MAX_MSG_LEN then Inr (?cs1\<lparr>cs_eid := e, msg_len := l\<rparr>, True)
             else Inr (?cs1\<lparr>cs_eid := e, msg_len := l, read_buf := Some (new_chars fill (unat l)),
                   req_stat := MS_READ_MESSAGE, read_msg_len := 0\<rparr>, False))
          else Inr (?cs1, True))
       else Inr (?cs1, False))"
    by (simp add: header_step_def p1 p2 Let_def mh magic_bytes sn e l)
  show ?thesis
  proof (cases "?r = word_of_nat MESSAGE_HEADER_LEN")
    case True
    show ?thesis
    proof (cases "take 4 h2 = magic \<and> \<not> (l < 1 \<or> l > MAX_MSG_LEN)")
      case ok': True
      let ?cs2 = "?cs1\<lparr>cs_eid := e, msg_len := l, read_buf := Some (new_chars fill (unat l)),
         req_stat := MS_READ_MESSAGE, read_msg_len := 0\<rparr>"
      have "header_step fill d cs = Inr (?cs2, False)" unfolding step using True ok' by simp
      moreover have "1 \<le> l" "l \<le> MAX_MSG_LEN" "0 < l"
        using ok' by (auto simp: not_less word_le_nat_alt word_less_nat_alt)
      then have "cs_ok ?cs2" using C st l2 by (simp add: cs_ok_def new_chars_def)
      ultimately show ?thesis using st by (intro exI conjI) (assumption | simp add: cs_frame_def)+
    next
      case bad: False
      then have "header_step fill d cs = Inr (?cs1\<lparr>cs_eid := e, msg_len := l\<rparr>, True) \<or>
          header_step fill d cs = Inr (?cs1, True)"
        unfolding step using True by auto
      then show ?thesis by (elim disjE) (auto simp: cs_frame_def)
    qed
  next
    case False
    have "unat ?r \<noteq> 10" using False word_unat_eq_iff [of ?r "10"] by (auto simp: MESSAGE_HEADER_LEN_def)
    then have "unat ?r < 10" using ur C(5) d by simp
    then have "cs_ok ?cs1" using ok st l2 by (simp add: cs_ok_def)
    then show ?thesis using False step st by (intro exI conjI) (assumption | simp add: cs_frame_def)+
  qed
qed

lemma message_any:
  assumes ok: "cs_ok cs" and st: "session_stat cs = SS_REQUEST" "req_stat cs = MS_READ_MESSAGE"
    and d: "length d \<le> unat (msg_len cs - read_msg_len cs)"
  shows "\<exists>cs' buf. message_step d cs = Inr cs' \<and> cs_frame cs cs' \<and> session_stat cs' = SS_REQUEST \<and>
    req_stat cs' = MS_READ_MESSAGE \<and> length (header cs') = 11 \<and> read_buf cs' = Some buf \<and>
    length buf = unat (msg_len cs') \<and> (msg_len cs' \<noteq> read_msg_len cs' \<longrightarrow> cs_ok cs')"
proof -
  obtain buf where C: "length (header cs) = 11" "read_buf cs = Some buf" "length buf = unat (msg_len cs)"
      "1 \<le> msg_len cs" "msg_len cs \<le> MAX_MSG_LEN" "read_msg_len cs < msg_len cs"
    using ok st by (auto simp: cs_ok_def)
  let ?k = "unat (read_msg_len cs)"
  have diff: "unat (msg_len cs - read_msg_len cs) = unat (msg_len cs) - ?k"
    using C(6) by (intro unat_sub) simp
  have k: "?k < unat (msg_len cs)" using C(6) by (simp add: word_less_nat_alt)
  then have le: "?k + length d \<le> length buf" using d diff C(3) by simp
  let ?r = "read_msg_len cs + word_of_nat (length d)"
  have ur: "unat ?r = ?k + length d"
  proof -
    have "?r = word_of_nat (?k + length d)" by simp
    moreover have "?k + length d < 2 ^ 32"
      using le C(3,5) by (simp add: word_le_nat_alt MAX_MSG_LEN_def)
    ultimately show ?thesis by (simp only: unat_word32)
  qed
  let ?b = "take ?k buf @ d @ drop (?k + length d) buf"
  let ?cs = "cs\<lparr>read_buf := Some ?b, read_msg_len := ?r\<rparr>"
  have lb: "length ?b = unat (msg_len cs)" using le C(3) by simp
  have "message_step d cs = Inr ?cs" using C(2) le by (simp add: message_step_def put_bytes_ok)
  moreover have "cs_ok ?cs" if "msg_len cs \<noteq> ?r"
  proof -
    have "unat ?r \<noteq> unat (msg_len cs)" using that by (metis word_unat_eq_iff)
    then have "?r < msg_len cs" using ur le C(3) by (simp add: word_less_nat_alt)
    then show ?thesis using ok st C lb by (simp add: cs_ok_def)
  qed
  ultimately show ?thesis
    using st C lb by (intro exI [of _ ?cs] exI [of _ ?b]) (simp add: cs_frame_def)
qed

text \<open>
  A connection: a session and a buffer event that refer to each other; and the network state
  without it.
\<close>

definition conn :: "('b, 'h, 'db) srv \<Rightarrow> nat \<Rightarrow> ConnectSession \<Rightarrow> nat \<Rightarrow> 'b bufferevent \<Rightarrow> bool" where
  "conn s a cs b e \<longleftrightarrow> sessions (net s) a = Some cs \<and> bevs (net s) b = Some e \<and> bev cs = Ptr b \<and>
     bev_arg e = Ptr a \<and> cs_ok cs"

definition without_conn :: "nat \<Rightarrow> nat \<Rightarrow> ('b, 'h, 'db) srv \<Rightarrow> ('b, 'h, 'db) srv" where
  "without_conn a b s = s\<lparr>net := (net s)\<lparr>bevs := (bevs (net s))(b := None), sessions := (sessions (net s))(a := None)\<rparr>\<rparr>"

lemma without_conn_sel [simp]:
  "sessions (net (without_conn a b s)) = (sessions (net s))(a := None)"
  "bevs (net (without_conn a b s)) = (bevs (net s))(b := None)"
  "dms (without_conn a b s) = dms s" "hs (without_conn a b s) = hs s"
  "next_bev (net (without_conn a b s)) = next_bev (net s)"
  "next_cs (net (without_conn a b s)) = next_cs (net s)"
  by (simp_all add: without_conn_def)

lemma drop_connection_ok:
  "sessions (net s) a = Some cs \<Longrightarrow> bevs (net s) b = Some e \<Longrightarrow>
   drop_connection (Ptr b) (Ptr a) s = Inr (without_conn a b s)"
  by (simp add: drop_connection_def bufferevent_free_ok session_free_ok without_conn_def)

lemma with_conn_upd:
  assumes "bevs (net s) b = Some e"
  shows "with_conn a cs b e s = s\<lparr>net := (net s)\<lparr>sessions := (sessions (net s))(a \<mapsto> cs)\<rparr>\<rparr>"
proof -
  have "(bevs (net s))(b \<mapsto> e) = bevs (net s)" using assms by (rule fun_upd_idem)
  then show ?thesis by (simp add: with_conn_def)
qed

lemma without_with_conn [simp]: "without_conn a b (with_conn a cs b e s) = without_conn a b s"
  by (simp add: without_conn_def with_conn_def)

text \<open>A request event, as \<open>parseEvent\<close> builds it.\<close>

definition req_event :: "iEvent \<Rightarrow> bool" where
  "req_event ev \<longleftrightarrow> ev_wf ev \<and>
     ((\<exists>m. ev_msg ev = MobileCodeReqMsg m) \<or> (\<exists>m. ev_msg ev = LoginReqMsg m))"

lemma req_event_set_args [simp]: "req_event (set_args p ev) = req_event ev"
  by (simp add: req_event_def)

lemma parseEvent_any:
  assumes "length m = unat len"
  obtains "parseEvent P (Some m) len eid c = Inl MissingReturn"
    | "parseEvent P (Some m) len eid c = Inr (None, c)"
    | ev where "parseEvent P (Some m) len eid c = Inr (Some ev, c + 1)" and "req_event ev"
proof (cases "eid = eventid EEVENTID_GET_MOBILE_CODE_REQ")
  case True
  have "req_event (fst (MobileCodeReqEv x c))" for x by (simp add: req_event_def) (simp add: event_ctor_defs)
  then show thesis
    using that parse_code_request [of P m _ _ len c] assms True
    by (cases "parse_mobile_request P m"; cases "fst (parse_mobile_request P m)") auto
next
  case code: False
  show thesis
  proof (cases "eid = eventid EEVENTID_LOGIN_REQ")
    case True
    have "req_event (fst (LoginReqEv x y c))" for x y by (simp add: req_event_def) (simp add: event_ctor_defs)
    then show thesis
      using that parse_login_request_event [of P m _ _ len c] assms True
      by (cases "parse_login_request P m"; cases "fst (parse_login_request P m)") auto
  next
    case False
    then show thesis using that(2) parse_other [OF code False] by simp
  qed
qed

text \<open>
  How a read callback can end, on any bytes: the connection goes on reading; it is dropped; the
  request is complete and its event posted; or the payload did not parse.
\<close>

datatype outcome = Goes_on | Dropped | Posted | No_return

definition request_outcome ::
    "'b netenv \<Rightarrow> nat \<Rightarrow> ConnectSession \<Rightarrow> nat \<Rightarrow> 'b bufferevent \<Rightarrow> ('b, 'h, 'db) srv \<Rightarrow>
     ('b, 'h, 'db) srv res \<Rightarrow> outcome \<Rightarrow> bool" where
  "request_outcome V a cs b e s r k = (case k of
      Goes_on \<Rightarrow> (\<exists>cs' io. r = Inr (with_conn a cs' b (e\<lparr>bev_io := io\<rparr>) s) \<and> cs_ok cs' \<and> cs_frame cs cs' \<and>
         session_stat cs' = session_stat cs)
    | Dropped \<Rightarrow> session_stat cs = SS_REQUEST \<and> r = Inr (without_conn a b s)
    | Posted \<Rightarrow> session_stat cs = SS_REQUEST \<and> (\<exists>cs' io ev c rc d.
         r = Inr ((with_conn a cs' b (e\<lparr>bev_io := io\<rparr>) s)\<lparr>hs := (hs s)\<lparr>segno := c\<rparr>, dms := d\<rparr>) \<and>
         cs_ok cs' \<and> cs_frame cs cs' \<and> session_stat cs' = SS_RESPONSE \<and> req_event ev \<and>
         dms_enqueue (nv_calloc V) (nv_lock V) (nv_signal V) (Some (set_args (Ptr a) ev)) (dms s) = Inr (rc, d))
    | No_return \<Rightarrow> r = Inl MissingReturn)"

lemma complete_any:
  assumes c: "sessions (net s) a = Some cs" "bevs (net s) b = Some e" "cs = cs1\<lparr>session_stat := SS_RESPONSE\<rparr>"
    and frame: "cs_frame cs0 cs1" "cs_ok cs0"
    and buf: "length (header cs1) = 11" "req_stat cs1 = MS_READ_MESSAGE" "read_buf cs1 = Some m"
      "length m = unat (msg_len cs1)" "msg_len cs1 = read_msg_len cs1"
    and enq: "\<And>ev. req_event ev \<Longrightarrow>
      \<exists>rc d. dms_enqueue (nv_calloc V) (nv_lock V) (nv_signal V) (Some (set_args (Ptr a) ev)) (dms s) = Inr (rc, d)"
  obtains "complete_request V (Ptr b) (Ptr a) cs s = Inl MissingReturn"
    | "complete_request V (Ptr b) (Ptr a) cs s = Inr (without_conn a b s)"
    | cs' ev c rc d where "complete_request V (Ptr b) (Ptr a) cs s =
        Inr ((with_conn a cs' b e s)\<lparr>hs := (hs s)\<lparr>segno := c\<rparr>, dms := d\<rparr>)"
      and "cs_ok cs'" and "cs_frame cs0 cs'" and "session_stat cs' = SS_RESPONSE" and "req_event ev"
      and "dms_enqueue (nv_calloc V) (nv_lock V) (nv_signal V) (Some (set_args (Ptr a) ev)) (dms s) = Inr (rc, d)"
proof -
  let ?eid = "ucast (cs_eid cs1) :: u32" and ?c = "segno (hs s)"
  let ?p = "parseEvent (nv_pb V) (Some m) (read_msg_len cs1) ?eid ?c"
  let ?cs = "cs\<lparr>read_buf := None, read_msg_len := 0\<rparr>"
  have len: "length m = unat (read_msg_len cs1)" using buf(4,5) by simp
  have sel: "read_buf cs = Some m" "read_msg_len cs = read_msg_len cs1" "cs_eid cs = cs_eid cs1"
    using c(3) buf(3) by simp_all
  from len show thesis
  proof (cases rule: parseEvent_any [of m "read_msg_len cs1" "nv_pb V" ?eid ?c])
    case 1
    then show thesis using that(1) by (simp add: complete_request_def sel)
  next
    case 2
    have "s\<lparr>net := (net s)\<lparr>sessions := (sessions (net s))(a \<mapsto> ?cs)\<rparr>, hs := (hs s)\<lparr>segno := ?c\<rparr>\<rparr> = with_conn a ?cs b e s"
      using c(2) by (simp add: with_conn_upd)
    moreover have keep: "(with_conn a ?cs b e s)\<lparr>hs := hs s\<rparr> = with_conn a ?cs b e s"
      by (simp add: with_conn_def)
    ultimately have "complete_request V (Ptr b) (Ptr a) cs s = drop_connection (Ptr b) (Ptr a) (with_conn a ?cs b e s)"
      using 2 c(1) by (simp add: complete_request_def sel Let_def keep)
    also have "\<dots> = Inr (without_conn a b s)" by (subst drop_connection_ok) simp_all
    finally show thesis by (rule that(2))
  next
    case (3 ev)
    obtain rc d where d: "dms_enqueue (nv_calloc V) (nv_lock V) (nv_signal V) (Some (set_args (Ptr a) ev)) (dms s) = Inr (rc, d)"
      using enq [OF 3(2)] by blast
    have "complete_request V (Ptr b) (Ptr a) cs s =
        Inr ((with_conn a ?cs b e s)\<lparr>hs := (hs s)\<lparr>segno := ?c + 1\<rparr>, dms := d\<rparr>)"
      using 3(1) c(1,2) d by (simp add: complete_request_def sel Let_def with_conn_upd)
    moreover have "cs_ok ?cs" "cs_frame cs0 ?cs"
      using c(3) buf(1,2) frame by (auto simp: cs_ok_def cs_frame_def)
    ultimately show thesis using that(3) 3(2) d c(3) by simp
  qed
qed

lemma read_message_any:
  assumes L: "libevent_ok (nv_le V) inp out" and c: "conn s a cs b e" "session_stat cs = SS_REQUEST"
    and enq: "\<And>ev. req_event ev \<Longrightarrow>
      \<exists>rc d. dms_enqueue (nv_calloc V) (nv_lock V) (nv_signal V) (Some (set_args (Ptr a) ev)) (dms s) = Inr (rc, d)"
  shows "\<exists>k. request_outcome V a cs b e s (read_message V (Ptr b) (Ptr a) s) k"
proof -
  have C: "sessions (net s) a = Some cs" "bevs (net s) b = Some e" "cs_ok cs"
    using c by (simp_all add: conn_def)
  let ?r = "read_message V (Ptr b) (Ptr a) s"
  show ?thesis
  proof (cases "req_stat cs = MS_READ_MESSAGE \<and> 0 < le_input_length (nv_le V) (bev_io e)")
    case False
    then have "?r = Inr s" using C by (auto simp: read_message_def bev_input_length_def)
    moreover have "e\<lparr>bev_io := bev_io e\<rparr> = e" by simp
    ultimately have "request_outcome V a cs b e s ?r Goes_on"
      using with_conn_same [OF C(1,2)] C(3) unfolding request_outcome_def outcome.case
      by (intro exI [of _ cs] exI [of _ "bev_io e"]) simp
    then show ?thesis ..
  next
    case True
    let ?n = "unat (msg_len cs - read_msg_len cs)"
    let ?d = "fst (le_read (nv_le V) ?n (bev_io e))"
    let ?e = "e\<lparr>bev_io := snd (le_read (nv_le V) ?n (bev_io e))\<rparr>"
    have "length ?d \<le> ?n" using libevent_okD(1) [OF L] by simp
    then obtain cs1 m where m: "message_step ?d cs = Inr cs1" "cs_frame cs cs1" "session_stat cs1 = SS_REQUEST"
        "req_stat cs1 = MS_READ_MESSAGE" "length (header cs1) = 11" "read_buf cs1 = Some m"
        "length m = unat (msg_len cs1)" "msg_len cs1 \<noteq> read_msg_len cs1 \<longrightarrow> cs_ok cs1"
      using message_any [OF C(3) c(2)] True by blast
    show ?thesis
    proof (cases "msg_len cs1 = read_msg_len cs1")
      case False
      then have "?r = Inr (with_conn a cs1 b ?e s)"
        using C True by (simp add: read_message_def bev_input_length_def bev_read_ok [OF C(2)] m(1) with_conn_def)
      then have "request_outcome V a cs b e s ?r Goes_on"
        using m False c(2) unfolding request_outcome_def outcome.case by (intro exI conjI) (assumption | simp)+
      then show ?thesis ..
    next
      case eq: True
      let ?cs = "cs1\<lparr>session_stat := SS_RESPONSE\<rparr>" and ?s = "with_conn a (cs1\<lparr>session_stat := SS_RESPONSE\<rparr>) b ?e s"
      have r: "?r = complete_request V (Ptr b) (Ptr a) ?cs ?s"
        using C True eq by (simp add: read_message_def bev_input_length_def bev_read_ok [OF C(2)] m(1) with_conn_def Let_def)
      have s: "sessions (net ?s) a = Some ?cs" "bevs (net ?s) b = Some ?e" by simp_all
      have enq': "\<exists>rc d. dms_enqueue (nv_calloc V) (nv_lock V) (nv_signal V) (Some (set_args (Ptr a) ev)) (dms ?s) = Inr (rc, d)"
        if "req_event ev" for ev using enq [OF that] by simp
      show ?thesis
      proof (rule complete_any [OF s refl m(2) C(3) m(5,4,6,7) eq, of V])
        assume "complete_request V (Ptr b) (Ptr a) ?cs ?s = Inl MissingReturn"
        then have "request_outcome V a cs b e s ?r No_return" by (simp add: request_outcome_def r)
        then show ?thesis ..
      next
        assume "complete_request V (Ptr b) (Ptr a) ?cs ?s = Inr (without_conn a b ?s)"
        then have "request_outcome V a cs b e s ?r Dropped" using c(2) by (simp add: request_outcome_def r)
        then show ?thesis ..
      next
        fix cs' ev c' rc d
        assume "complete_request V (Ptr b) (Ptr a) ?cs ?s =
            Inr ((with_conn a cs' b ?e ?s)\<lparr>hs := (hs ?s)\<lparr>segno := c'\<rparr>, dms := d\<rparr>)"
          and "cs_ok cs'" and "cs_frame cs cs'" and "session_stat cs' = SS_RESPONSE" and "req_event ev"
          and "dms_enqueue (nv_calloc V) (nv_lock V) (nv_signal V) (Some (set_args (Ptr a) ev)) (dms ?s) = Inr (rc, d)"
        then have "request_outcome V a cs b e s ?r Posted"
          using c(2) unfolding request_outcome_def outcome.case r
          by (intro conjI exI) (assumption | simp)+
        then show ?thesis ..
      qed (rule enq')
    qed
  qed
qed

lemma outcome_after_header:
  assumes "request_outcome V a cs1 b e1 (with_conn a cs1 b e1 s) r k" and "e1 = e\<lparr>bev_io := io\<rparr>"
    and "cs_frame cs cs1" and "session_stat cs1 = session_stat cs"
  shows "request_outcome V a cs b e s r k"
proof -
  have up: "e1\<lparr>bev_io := x\<rparr> = e\<lparr>bev_io := x\<rparr>" for x using assms(2) by simp
  note tr = cs_frame_trans [OF assms(3)]
  show ?thesis
  proof (cases k)
    case Goes_on
    have "\<exists>cs' io. r = Inr (with_conn a cs' b (e\<lparr>bev_io := io\<rparr>) s) \<and> cs_ok cs' \<and> cs_frame cs1 cs' \<and>
         session_stat cs' = session_stat cs"
      using assms(1) unfolding Goes_on request_outcome_def outcome.case with_conn_again up assms(4) .
    then show ?thesis using tr unfolding request_outcome_def Goes_on outcome.case by blast
  next
    case Posted
    have "session_stat cs = SS_REQUEST \<and> (\<exists>cs' io ev c rc d.
         r = Inr ((with_conn a cs' b (e\<lparr>bev_io := io\<rparr>) s)\<lparr>hs := (hs s)\<lparr>segno := c\<rparr>, dms := d\<rparr>) \<and>
         cs_ok cs' \<and> cs_frame cs1 cs' \<and> session_stat cs' = SS_RESPONSE \<and> req_event ev \<and>
         dms_enqueue (nv_calloc V) (nv_lock V) (nv_signal V) (Some (set_args (Ptr a) ev)) (dms s) = Inr (rc, d))"
      using assms(1) unfolding Posted request_outcome_def outcome.case with_conn_again with_conn_sel up assms(4) .
    then show ?thesis using tr unfolding request_outcome_def Posted outcome.case by blast
  next
    case Dropped
    then show ?thesis using assms(1,4) by (simp only: request_outcome_def outcome.case without_with_conn simp_thms)
  next
    case No_return
    then show ?thesis using assms(1) by (simp only: request_outcome_def outcome.case)
  qed
qed

lemma request_any:
  assumes L: "libevent_ok (nv_le V) inp out" and c: "conn s a cs b e"
    and enq: "\<And>ev. req_event ev \<Longrightarrow>
      \<exists>rc d. dms_enqueue (nv_calloc V) (nv_lock V) (nv_signal V) (Some (set_args (Ptr a) ev)) (dms s) = Inr (rc, d)"
  shows "\<exists>k. request_outcome V a cs b e s (handle_request V (Ptr b) (Ptr a) s) k"
proof -
  have C: "sessions (net s) a = Some cs" "bevs (net s) b = Some e" "cs_ok cs"
    using c by (simp_all add: conn_def)
  let ?r = "handle_request V (Ptr b) (Ptr a) s"
  show ?thesis
  proof (cases "session_stat cs")
    case SS_RESPONSE
    then have "?r = Inr s" using C by (simp add: handle_request_def)
    moreover have "e\<lparr>bev_io := bev_io e\<rparr> = e" by simp
    ultimately have "request_outcome V a cs b e s ?r Goes_on"
      using with_conn_same [OF C(1,2)] C(3) unfolding request_outcome_def outcome.case
      by (intro exI [of _ cs] exI [of _ "bev_io e"]) simp
    then show ?thesis ..
  next
    case st: SS_REQUEST
    show ?thesis
    proof (cases "req_stat cs = MS_READ_HEADER")
      case False
      then have "?r = read_message V (Ptr b) (Ptr a) s" using C st by (simp add: handle_request_def)
      then show ?thesis using read_message_any [OF L c st enq] by simp
    next
      case True
      let ?n = "unat (word_of_nat MESSAGE_HEADER_LEN - read_header_len cs)"
      let ?d = "fst (le_read (nv_le V) ?n (bev_io e))"
      let ?e = "e\<lparr>bev_io := snd (le_read (nv_le V) ?n (bev_io e))\<rparr>"
      have "unat (read_header_len cs) < 10" using C(3) st True by (simp add: cs_ok_def)
      then have "read_header_len cs \<le> 10" by (simp add: word_le_nat_alt)
      then have "?n = 10 - unat (read_header_len cs)"
        by (simp add: MESSAGE_HEADER_LEN_def unat_sub)
      then have "length ?d \<le> 10 - unat (read_header_len cs)" using libevent_okD(1) [OF L] by simp
      then obtain cs1 rej where h: "header_step (nv_fill V) ?d cs = Inr (cs1, rej)" "cs_frame cs cs1"
          "\<not> rej \<longrightarrow> cs_ok cs1 \<and> session_stat cs1 = SS_REQUEST"
        using header_any [OF C(3) st True] by blast
      let ?s = "with_conn a cs1 b ?e s"
      have rh: "read_header V (Ptr b) (Ptr a) cs s =
          (if rej then bindR (drop_connection (Ptr b) (Ptr a) ?s) (\<lambda>s1. Inr (False, s1)) else Inr (True, ?s))"
        using C by (simp add: read_header_def bev_read_ok [OF C(2)] h(1) with_conn_def)
      show ?thesis
      proof (cases rej)
        case rej: True
        have "drop_connection (Ptr b) (Ptr a) ?s = Inr (without_conn a b s)"
          by (subst drop_connection_ok) simp_all
        then have "?r = Inr (without_conn a b s)" using C st True rh rej by (simp add: handle_request_def)
        then have "request_outcome V a cs b e s ?r Dropped" using st by (simp add: request_outcome_def)
        then show ?thesis ..
      next
        case rej: False
        then have r: "?r = read_message V (Ptr b) (Ptr a) ?s" using C st True rh by (simp add: handle_request_def)
        have c1: "conn ?s a cs1 b ?e" "session_stat cs1 = SS_REQUEST"
          using c h rej by (simp_all add: conn_def cs_frame_def)
        have enq': "\<exists>rc d. dms_enqueue (nv_calloc V) (nv_lock V) (nv_signal V) (Some (set_args (Ptr a) ev)) (dms ?s) = Inr (rc, d)"
          if "req_event ev" for ev using enq [OF that] by simp
        obtain k where k: "request_outcome V a cs1 b ?e ?s ?r k"
          using read_message_any [OF L c1 enq'] unfolding r by blast
        have same: "session_stat cs1 = session_stat cs" by (simp only: c1(2) st)
        show ?thesis by (rule exI, rule outcome_after_header [OF k refl h(2) same])
      qed
    qed
  qed
qed

lemma dms_enqueue_defined:
  assumes "dms_tp d = Some p" and "holds p evs"
  obtains rc p' where "dms_enqueue True 0 0 (Some ev) d = Inr (rc, d\<lparr>dms_tp := Some p'\<rparr>)"
    and "rc = T_OK \<and> holds p' (evs @ [ev]) \<or> rc = T_ERROR \<and> holds p' evs"
proof (cases "waiting p < max_queue p")
  case True
  obtain p' where "enqueue True 0 0 (Some ev) p = Inr (T_OK, p')" "holds p' (evs @ [ev])"
    using holds_enqueue_ok [OF assms(2) True] .
  then show thesis using that assms(1) by (simp add: dms_enqueue_def)
next
  case False
  then have "max_queue p \<le> waiting p" by simp
  then obtain p' where "enqueue True 0 0 (Some ev) p = Inr (T_ERROR, p')" "holds p' evs"
    using holds_enqueue_full [OF assms(2)] by blast
  then show thesis using that assms(1) by (simp add: dms_enqueue_def)
qed

definition env_up :: "'b netenv \<Rightarrow> bool" where
  "env_up V \<longleftrightarrow> nv_calloc V \<and> nv_lock V = 0 \<and> nv_signal V = 0"

subsection \<open>Properties\<close>

text \<open>
  C4. A request frame is reassembled from any fragmentation: however its bytes are cut into pieces,
  the piece that completes it, and no earlier one, parses the payload and posts exactly one event,
  which carries the session; the session then waits for its response and everything it had to say
  has been read.
\<close>

theorem request_reassembly:
  assumes "libevent_ok (nv_le V) inp out" and "arrives_ok arr inp out" and "payload_ok pl"
    and "sessions (net s) a = Some cs" and "cs_ok cs" and "session_stat cs = SS_REQUEST"
    and "req_stat cs = MS_READ_HEADER" and "read_header_len cs = 0"
    and "bevs (net s) b = Some e" and "bev_arg e = Ptr a" and "inp (bev_io e) = []"
    and "concat chunks = frame eid pl" and "[] \<notin> set chunks"
    and "parseEvent (nv_pb V) (Some pl) (word_of_nat (length pl)) (ucast eid) (segno (hs s)) = Inr (Some ev, c)"
    and "dms_enqueue (nv_calloc V) (nv_lock V) (nv_signal V) (Some (set_args (Ptr a) ev)) (dms s) = Inr (rc, d)"
  shows "\<exists>cs' e'. receive_all V arr b chunks s =
      Inr ((with_conn a cs' b e' s)\<lparr>hs := (hs s)\<lparr>segno := c\<rparr>, dms := d\<rparr>) \<and>
      cs_ok cs' \<and> session_stat cs' = SS_RESPONSE \<and> cs_eid cs' = eid \<and> cs_frame cs cs' \<and>
      inp (bev_io e') = [] \<and> out (bev_io e') = out (bev_io e)"
proof -
  have rx: "rx eid pl 0 cs" using assms(5-8) by (rule rx_start)
  have all: "concat chunks = drop 0 (frame eid pl)" using assms(12) by simp
  obtain cs' e' where r: "rx_done eid pl cs'" "cs_frame cs cs'" "bev_arg e' = Ptr a"
      "out (bev_io e') = out (bev_io e)" "inp (bev_io e') = []"
      "receive_all V arr b chunks s = complete_request V (Ptr b) (Ptr a) cs' (with_conn a cs' b e' s)"
    using receive_all_pieces [OF assms(1-4,9-11) rx all assms(13)] by blast
  let ?cs = "cs'\<lparr>read_buf := None, read_msg_len := 0\<rparr>"
  have "receive_all V arr b chunks s =
      Inr ((with_conn a ?cs b e' s)\<lparr>hs := (hs s)\<lparr>segno := c\<rparr>, dms := d\<rparr>)"
    unfolding r(6) using assms(14,15)
    by (subst complete_request_post [OF r(1)]) (simp_all add: with_conn_def)
  moreover have "cs_ok ?cs"
    using assms(5) r(1,2) by (simp add: cs_ok_def rx_done_def cs_frame_def)
  moreover have "cs_frame cs ?cs" using r(2) by (simp add: cs_frame_def)
  ultimately show ?thesis
    using r by (intro exI [of _ ?cs] exI [of _ e']) (simp add: rx_done_def)
qed

definition demo_V :: "(bytes \<times> bytes) netenv" where
  "demo_V = \<lparr>nv_le = list_libevent, nv_pb = flat_pb, nv_fill = 0xCC, nv_calloc = True, nv_lock = 0, nv_signal = 0\<rparr>"

definition demo_srv :: "(bytes \<times> bytes, nat, string list \<times> nat) srv" where
  "demo_srv = \<lparr>net = demo_net,
     dms = UserEventHandler_new 3 (DispatchMsgService_new\<lparr>svr_exit := Some False, dms_tp := Some fresh_pool\<rparr>),
     hs = demo_state\<rparr>"

definition list_arr :: "bytes \<Rightarrow> bytes \<times> bytes \<Rightarrow> bytes \<times> bytes" where
  "list_arr c io = (fst io @ c, snd io)"

lemma demo_sel [simp]:
  "nv_le demo_V = list_libevent" "nv_pb demo_V = flat_pb" "nv_calloc demo_V = True" "nv_lock demo_V = 0"
  "nv_signal demo_V = 0" "net demo_srv = demo_net" "hs demo_srv = demo_state"
  "sessions demo_net 7 = Some (session_init 3 (Ptr 4))"
  "bevs demo_net 4 = Some \<lparr>bev_io = ([], []), bev_arg = Ptr 7, bev_reading = True, bev_timeouts = (10, 10)\<rparr>"
  by (simp_all add: demo_V_def demo_srv_def demo_net_def)

lemma demo_enqueue:
  obtains rc d where "dms_enqueue True 0 0 (Some ev) (dms demo_srv) = Inr (rc, d)"
proof -
  obtain p where "enqueue True 0 0 (Some ev) fresh_pool = Inr (T_OK, p)"
    using holds_enqueue_ok [OF fresh_pool_holds, of ev] by (auto simp: fresh_pool_eq)
  then show thesis
    using that by (simp add: dms_enqueue_def demo_srv_def UserEventHandler_new_def)
qed

theorem request_reassembly_witness:
  "\<exists>cs' e' c d. receive_all demo_V list_arr 4 [[0x46], [0x42, 0x45], [0x42, 1, 0, 3, 0, 0, 0, 0x31], [0x38], [0x32]] demo_srv =
      Inr ((with_conn 7 cs' 4 e' demo_srv)\<lparr>hs := (hs demo_srv)\<lparr>segno := c\<rparr>, dms := d\<rparr>) \<and>
      cs_ok cs' \<and> session_stat cs' = SS_RESPONSE \<and> cs_eid cs' = 1 \<and> cs_frame (session_init 3 (Ptr 4)) cs' \<and>
      fst (bev_io e') = [] \<and> snd (bev_io e') = []"
proof -
  let ?pl = "[0x31, 0x38, 0x32] :: bytes"
  let ?ev = "fst (MobileCodeReqEv (string_of_bytes ?pl) 0)"
  obtain rc d where enq: "dms_enqueue True 0 0 (Some (set_args (Ptr 7) ?ev)) (dms demo_srv) = Inr (rc, d)"
    by (rule demo_enqueue)
  have parse: "parseEvent flat_pb (Some ?pl) (word_of_nat (length ?pl)) (ucast (1 :: u16)) 0 = Inr (Some ?ev, 0 + 1)"
    by (simp add: parseEvent_def flat_pb_def MobileCodeReqEv_def generateSegNo_def)
  have "\<exists>cs' e'. receive_all demo_V list_arr 4 [[0x46], [0x42, 0x45], [0x42, 1, 0, 3, 0, 0, 0, 0x31], [0x38], [0x32]] demo_srv =
      Inr ((with_conn 7 cs' 4 e' demo_srv)\<lparr>hs := (hs demo_srv)\<lparr>segno := 0 + 1\<rparr>, dms := d\<rparr>) \<and>
      cs_ok cs' \<and> session_stat cs' = SS_RESPONSE \<and> cs_eid cs' = 1 \<and> cs_frame (session_init 3 (Ptr 4)) cs' \<and>
      fst (bev_io e') = [] \<and> snd (bev_io e') = snd (bev_io
        (\<lparr>bev_io = ([], []), bev_arg = Ptr 7, bev_reading = True, bev_timeouts = (10, 10)\<rparr> :: (bytes \<times> bytes) bufferevent))"
    by (rule request_reassembly [where pl = ?pl and ev = ?ev and rc = rc])
      (use parse enq in \<open>simp_all add: list_libevent_ok arrives_ok_def list_arr_def payload_ok_def
        MAX_MSG_LEN_def cs_ok_init, simp_all add: session_init_def frame_def magic_def le16_def le32_def\<close>)
  then show ?thesis by auto
qed

text \<open>
  C15. A frame whose header is unacceptable, another magic or a length of zero or above
  \<open>MAX_MSG_LEN\<close>, closes the connection: buffer event and session are released, nothing is posted,
  and no other connection is touched.
\<close>

theorem bad_request_closes:
  assumes "libevent_ok (nv_le V) inp out" and "sessions (net s) a = Some cs" and "cs_ok cs"
    and "session_stat cs = SS_REQUEST" and "req_stat cs = MS_READ_HEADER" and "read_header_len cs = 0"
    and "bevs (net s) b = Some e" and "10 \<le> length (inp (bev_io e))" and "bad_header (take 10 (inp (bev_io e)))"
  shows "handle_request V (Ptr b) (Ptr a) s =
    Inr (s\<lparr>net := (net s)\<lparr>bevs := (bevs (net s))(b := None), sessions := (sessions (net s))(a := None)\<rparr>\<rparr>)"
proof -
  let ?L = "nv_le V"
  have n: "unat (word_of_nat MESSAGE_HEADER_LEN - read_header_len cs) = 10"
    using assms(6) by (simp add: MESSAGE_HEADER_LEN_def)
  have h: "fst (le_read ?L 10 (bev_io e)) = take 10 (inp (bev_io e))"
    using libevent_okD(1) [OF assms(1)] .
  have "length (header cs) = 11" using assms(3) by (simp add: cs_ok_def)
  then obtain cs' where "header_step (nv_fill V) (take 10 (inp (bev_io e))) cs = Inr (cs', True)"
    using header_step_bad [OF _ assms(6) _ assms(9), of "nv_fill V"] assms(8) by auto
  then show ?thesis
    using assms(2,4,5,7)
    by (simp add: handle_request_def read_header_def n bev_read_ok [OF assms(7)] h drop_connection_def
        bufferevent_free_ok session_free_ok)
qed

definition demo_bad_ev :: "(bytes \<times> bytes) bufferevent" where
  "demo_bad_ev = \<lparr>bev_io = ([0x46, 0x42, 0x45, 0x42, 1, 0, 0, 0, 0, 0], []), bev_arg = Ptr 7,
     bev_reading = True, bev_timeouts = (10, 10)\<rparr>"

definition demo_bad :: "(bytes \<times> bytes, nat, string list \<times> nat) srv" where
  "demo_bad = demo_srv\<lparr>net := demo_net\<lparr>bevs := [4 \<mapsto> demo_bad_ev]\<rparr>\<rparr>"

theorem bad_request_closes_witness:
  "handle_request demo_V (Ptr 4) (Ptr 7) demo_bad =
   Inr (demo_bad\<lparr>net := (net demo_bad)\<lparr>bevs := (bevs (net demo_bad))(4 := None),
     sessions := (sessions (net demo_bad))(7 := None)\<rparr>\<rparr>)"
  by (rule bad_request_closes [where inp = fst and out = snd and cs = "session_init 3 (Ptr 4)" and e = demo_bad_ev])
    (simp_all add: list_libevent_ok cs_ok_init demo_bad_def demo_bad_ev_def,
     simp_all add: session_init_def bad_header_def rd32_def)

text \<open>
  C5. The read callback is memory safe on every input: whatever bytes have arrived, on a connection
  in any state the program can leave it in, no access leaves a buffer, follows a null pointer or
  touches a freed object. The connection is kept in a valid state or released completely, and no
  other connection changes. The one undefined outcome is the missing return of \<open>parseEvent\<close> on a
  payload that does not parse.
\<close>

theorem request_memory_safe:
  assumes "libevent_ok (nv_le V) inp out" and "conn s a cs b e" and "env_up V"
    and "dms_tp (dms s) = Some p" and "holds p evs"
  shows "handle_request V (Ptr b) (Ptr a) s = Inl MissingReturn \<or>
    (\<exists>s'. handle_request V (Ptr b) (Ptr a) s = Inr s' \<and>
      (sessions (net s') a = None \<and> bevs (net s') b = None \<or> (\<exists>cs' e'. conn s' a cs' b e')) \<and>
      (\<forall>x. x \<noteq> a \<longrightarrow> sessions (net s') x = sessions (net s) x) \<and>
      (\<forall>x. x \<noteq> b \<longrightarrow> bevs (net s') x = bevs (net s) x))"
proof -
  have enq: "\<exists>rc d. dms_enqueue (nv_calloc V) (nv_lock V) (nv_signal V) (Some (set_args (Ptr a) ev)) (dms s) = Inr (rc, d)"
    for ev
    using dms_enqueue_defined [OF assms(4,5), of "set_args (Ptr a) ev"] assms(3) unfolding env_up_def by metis
  obtain k where k: "request_outcome V a cs b e s (handle_request V (Ptr b) (Ptr a) s) k"
    using request_any [OF assms(1,2) enq] by blast
  have frame: "cs_ok cs' \<Longrightarrow> cs_frame cs cs' \<Longrightarrow> bev_arg (e\<lparr>bev_io := io\<rparr>) = Ptr a \<and> bev cs' = Ptr b" for cs' io
    using assms(2) by (simp add: conn_def cs_frame_def)
  show ?thesis
  proof (cases k)
    case Goes_on
    then show ?thesis using k frame by (auto simp: request_outcome_def conn_def)
  next
    case Posted
    then show ?thesis using k frame by (auto simp: request_outcome_def conn_def)
  qed (use k in \<open>auto simp: request_outcome_def\<close>)
qed

theorem request_memory_safe_witness:
  "handle_request demo_V (Ptr 4) (Ptr 7) demo_srv = Inl MissingReturn \<or>
    (\<exists>s'. handle_request demo_V (Ptr 4) (Ptr 7) demo_srv = Inr s' \<and>
      (sessions (net s') 7 = None \<and> bevs (net s') 4 = None \<or> (\<exists>cs' e'. conn s' 7 cs' 4 e')) \<and>
      (\<forall>x. x \<noteq> 7 \<longrightarrow> sessions (net s') x = sessions (net demo_srv) x) \<and>
      (\<forall>x. x \<noteq> 4 \<longrightarrow> bevs (net s') x = bevs (net demo_srv) x))"
  by (rule request_memory_safe [where inp = fst and out = snd and p = fresh_pool and evs = "[]" and cs = "session_init 3 (Ptr 4)"
        and e = "\<lparr>bev_io = ([], []), bev_arg = Ptr 7, bev_reading = True, bev_timeouts = (10, 10)\<rparr>"])
    (simp_all add: list_libevent_ok fresh_pool_holds conn_def cs_ok_init env_up_def,
     simp_all add: session_init_def demo_srv_def UserEventHandler_new_def)

end
