(* ===== verification/System.thy ===== *)
theory System
  imports Network
begin

text \<open>
  The whole server as interleaved steps: the network thread accepts, reads, drops connections and
  sends responses; worker threads take posted events and serve them. One step is one callback, one
  round of the response loop, or one critical section of a worker; the network thread's own steps
  come in any order, which covers every order libevent runs the callbacks in. The question is who
  owns a session while its request is being served: a request event, then its response, points to
  it, and nothing keeps \<open>handle_error\<close> from freeing it.
\<close>

subsection \<open>Steps\<close>

text \<open>\<open>running\<close> are the events in the hands of workers.\<close>

record ('b, 'h, 'db) sys =
  srv :: "('b, 'h, 'db) srv"
  running :: "iEvent list"

text \<open>The connection at the buffer event \<open>b\<close> is not waiting for a response.\<close>

definition idle_conn :: "('b, 'h, 'db) srv \<Rightarrow> nat \<Rightarrow> bool" where
  "idle_conn s b \<longleftrightarrow> (\<exists>e a cs. bevs (net s) b = Some e \<and> bev_arg e = Ptr a \<and> sessions (net s) a = Some cs \<and>
     session_stat cs = SS_REQUEST)"

text \<open>
  With \<open>any\<close> a connection may end or time out at any moment; without it only while it is idle.
  \<open>traffic\<close> is whatever the peer and the kernel do to a connection's buffers.
\<close>

inductive sstep ::
    "'b netenv \<Rightarrow> 'db env \<Rightarrow> bool \<Rightarrow> ('b, 'h, 'db) sys \<Rightarrow> ('b, 'h, 'db) sys \<Rightarrow> bool"
  for V :: "'b netenv" and E :: "'db env" and any :: bool where
  accept: "run_callback V (CbAccept fd ip) (srv S) = Inr s \<Longrightarrow> sstep V E any S (S\<lparr>srv := s\<rparr>)"
| traffic: "bevs (net (srv S)) b = Some e \<Longrightarrow>
     sstep V E any S (S\<lparr>srv := (srv S)\<lparr>net := (net (srv S))\<lparr>bevs := (bevs (net (srv S)))(b \<mapsto> e\<lparr>bev_io := io\<rparr>)\<rparr>\<rparr>\<rparr>)"
| read: "run_callback V (CbRead b) (srv S) = Inr s \<Longrightarrow> sstep V E any S (S\<lparr>srv := s\<rparr>)"
| error: "any \<or> idle_conn (srv S) b \<Longrightarrow> run_callback V (CbError b what) (srv S) = Inr s \<Longrightarrow>
     sstep V E any S (S\<lparr>srv := s\<rparr>)"
| respond: "responses (dms (srv S)) = ev # q \<Longrightarrow>
     handle_response_event (nv_le V) (nv_pb V) (nv_fill V) ev (net (srv S)) = Inr n \<Longrightarrow>
     sstep V E any S (S\<lparr>srv := (srv S)\<lparr>net := n, dms := (dms (srv S))\<lparr>responses := q\<rparr>\<rparr>\<rparr>)"
| take: "dms_tp (dms (srv S)) = Some p \<Longrightarrow> take_job p = Inr (Some ev, p') \<Longrightarrow>
     sstep V E any S (S\<lparr>srv := (srv S)\<lparr>dms := (dms (srv S))\<lparr>dms_tp := Some p'\<rparr>\<rparr>, running := running S @ [ev]\<rparr>)"
| serve: "running S = xs @ ev # ys \<Longrightarrow>
     svc (\<lambda>_. handle E) ev (dms (srv S)) (hs (srv S)) = Inr (d, h) \<Longrightarrow>
     sstep V E any S (S\<lparr>srv := (srv S)\<lparr>dms := d, hs := h\<rparr>, running := xs @ ys\<rparr>)"
| tick: "sstep V E any S (S\<lparr>srv := (srv S)\<lparr>hs := (hs (srv S))\<lparr>now := t, db := d\<rparr>\<rparr>\<rparr>)"

text \<open>The server after start-up: no connections, the pool open and empty, the handler subscribed.\<close>

definition handlers_ready :: "'h dms \<Rightarrow> bool" where
  "handlers_ready d \<longleftrightarrow> svr_exit d = Some False \<and>
     handlers_of (subscribers d) (eventid EEVENTID_GET_MOBILE_CODE_REQ) \<noteq> [] \<and>
     handlers_of (subscribers d) (eventid EEVENTID_LOGIN_REQ) \<noteq> []"

definition sinit :: "('b, 'h, 'db) sys \<Rightarrow> bool" where
  "sinit S \<longleftrightarrow> bevs (net (srv S)) = Map.empty \<and> sessions (net (srv S)) = Map.empty \<and>
     handlers_ready (dms (srv S)) \<and> (\<exists>p. dms_tp (dms (srv S)) = Some p \<and> holds p []) \<and>
     responses (dms (srv S)) = [] \<and> running S = []"

inductive sreach :: "'b netenv \<Rightarrow> 'db env \<Rightarrow> bool \<Rightarrow> ('b, 'h, 'db) sys \<Rightarrow> bool"
  for V :: "'b netenv" and E :: "'db env" and any :: bool where
  sreach_init: "sinit S \<Longrightarrow> sreach V E any S"
| sreach_step: "sreach V E any S \<Longrightarrow> sstep V E any S T \<Longrightarrow> sreach V E any T"

subsection \<open>Invariant\<close>

text \<open>Response events as the handlers build them, and messages that fit a frame.\<close>

definition rsp_event :: "iEvent \<Rightarrow> bool" where
  "rsp_event ev \<longleftrightarrow> ev_wf ev \<and>
     ((\<exists>c i. ev_msg ev = MobileCodeRspMsg \<lparr>rs_code = c, rs_icode = i, rs_data = Some (reason_of c)\<rparr>) \<or>
      (\<exists>c. ev_msg ev = LoginRspMsg \<lparr>ls_code = c, ls_desc = Some (reason_of c)\<rparr>))"

definition small_replies :: "protobuf \<Rightarrow> bool" where
  "small_replies P \<longleftrightarrow> (\<forall>ev. rsp_event ev \<longrightarrow> length (ev_bytes P ev) < 2 ^ 31 - 10)"

text \<open>Sessions and buffer events come in pairs below the allocation counters.\<close>

definition paired :: "('b, 'h, 'db) srv \<Rightarrow> bool" where
  "paired s \<longleftrightarrow>
     (\<forall>a cs. sessions (net s) a = Some cs \<longrightarrow> a < next_cs (net s) \<and> (\<exists>b e. conn s a cs b e)) \<and>
     (\<forall>b e. bevs (net s) b = Some e \<longrightarrow> b < next_bev (net s) \<and> (\<exists>a cs. conn s a cs b e))"

text \<open>An event in flight points to a live session that waits for its response.\<close>

definition owned :: "('b, 'h, 'db) srv \<Rightarrow> iEvent \<Rightarrow> bool" where
  "owned s ev \<longleftrightarrow> (\<exists>a cs. ev_args ev = Some (Ptr a) \<and> sessions (net s) a = Some cs \<and> session_stat cs = SS_RESPONSE)"

definition flight_ok :: "('b, 'h, 'db) srv \<Rightarrow> iEvent list \<Rightarrow> bool" where
  "flight_ok s evs \<longleftrightarrow> (\<forall>ev \<in> set evs. owned s ev) \<and> distinct (map ev_args evs)"

definition sys_inv :: "('b, 'h, 'db) sys \<Rightarrow> iEvent list \<Rightarrow> bool" where
  "sys_inv S jobs \<longleftrightarrow> paired (srv S) \<and> handlers_ready (dms (srv S)) \<and>
     (\<exists>p. dms_tp (dms (srv S)) = Some p \<and> holds p jobs) \<and>
     (\<forall>ev \<in> set jobs. req_event ev) \<and> (\<forall>ev \<in> set (running S). req_event ev) \<and>
     (\<forall>ev \<in> set (responses (dms (srv S))). rsp_event ev) \<and>
     flight_ok (srv S) (jobs @ running S @ responses (dms (srv S)))"

lemma sys_invD:
  assumes "sys_inv S jobs"
  shows "paired (srv S)" and "handlers_ready (dms (srv S))"
    and "\<exists>p. dms_tp (dms (srv S)) = Some p \<and> holds p jobs"
    and "\<forall>ev \<in> set jobs. req_event ev" and "\<forall>ev \<in> set (running S). req_event ev"
    and "\<forall>ev \<in> set (responses (dms (srv S))). rsp_event ev"
    and "flight_ok (srv S) (jobs @ running S @ responses (dms (srv S)))"
  using assms unfolding sys_inv_def by blast+

lemma pairedD:
  assumes "paired s"
  shows "sessions (net s) a = Some cs \<Longrightarrow> \<exists>b e. conn s a cs b e" and "sessions (net s) a = Some cs \<Longrightarrow> a < next_cs (net s)"
    and "bevs (net s) b = Some e \<Longrightarrow> \<exists>a cs. conn s a cs b e" and "bevs (net s) b = Some e \<Longrightarrow> b < next_bev (net s)"
  using assms unfolding paired_def by blast+

lemma conn_unique:
  "conn s a cs b e \<Longrightarrow> conn s a' cs' b e' \<Longrightarrow> a' = a \<and> cs' = cs"
  "conn s a cs b e \<Longrightarrow> conn s a cs' b' e' \<Longrightarrow> b' = b \<and> e' = e"
  by (auto simp: conn_def)

text \<open>Exchanging or removing one pair.\<close>

lemma paired_with:
  assumes p: "paired s" and c: "conn s a cs b e" and c': "cs_ok cs'" "bev cs' = Ptr b" "bev_arg e' = Ptr a"
    and n: "sessions n = (sessions (net s))(a \<mapsto> cs')" "bevs n = (bevs (net s))(b \<mapsto> e')"
      "next_cs n = next_cs (net s)" "next_bev n = next_bev (net s)"
  shows "paired (s'\<lparr>net := n\<rparr>)"
proof -
  have new: "conn (s'\<lparr>net := n\<rparr>) a cs' b e'" using c' n by (simp add: conn_def)
  have old: "conn (s'\<lparr>net := n\<rparr>) x y u v" if "conn s x y u v" "x \<noteq> a" for x y u v
  proof -
    have "u \<noteq> b" using that conn_unique(1) [OF c] by (metis conn_def option.inject)
    then show ?thesis using that n by (simp add: conn_def)
  qed
  have neq: "u \<noteq> b \<longleftrightarrow> x \<noteq> a" if "conn s x y u v" for x y u v
    using that c by (auto simp: conn_def)
  show ?thesis
    unfolding paired_def
  proof (intro conjI allI impI)
    fix x y assume x: "sessions (net (s'\<lparr>net := n\<rparr>)) x = Some y"
    show "x < next_cs (net (s'\<lparr>net := n\<rparr>))"
      using x n pairedD(2) [OF p] c by (auto simp: conn_def split: if_splits)
    show "\<exists>u v. conn (s'\<lparr>net := n\<rparr>) x y u v"
    proof (cases "x = a")
      case True
      then show ?thesis using new x n(1) by auto
    next
      case False
      then have "sessions (net s) x = Some y" using x n(1) by simp
      then show ?thesis using pairedD(1) [OF p] old False by blast
    qed
  next
    fix u v assume u: "bevs (net (s'\<lparr>net := n\<rparr>)) u = Some v"
    show "u < next_bev (net (s'\<lparr>net := n\<rparr>))"
      using u n pairedD(4) [OF p] c by (auto simp: conn_def split: if_splits)
    show "\<exists>x y. conn (s'\<lparr>net := n\<rparr>) x y u v"
    proof (cases "u = b")
      case True
      then show ?thesis using new u n(2) by auto
    next
      case False
      then have "bevs (net s) u = Some v" using u n(2) by simp
      then show ?thesis using pairedD(3) [OF p] old neq False by blast
    qed
  qed
qed

lemma paired_without:
  assumes p: "paired s" and c: "conn s a cs b e"
    and n: "sessions n = (sessions (net s))(a := None)" "bevs n = (bevs (net s))(b := None)"
      "next_cs n = next_cs (net s)" "next_bev n = next_bev (net s)"
  shows "paired (s'\<lparr>net := n\<rparr>)"
proof -
  have neq: "u \<noteq> b \<longleftrightarrow> x \<noteq> a" if "conn s x y u v" for x y u v
    using that c by (auto simp: conn_def)
  have old: "conn (s'\<lparr>net := n\<rparr>) x y u v" if "conn s x y u v" "x \<noteq> a" for x y u v
    using that neq [OF that(1)] n by (simp add: conn_def)
  show ?thesis
    unfolding paired_def
  proof (intro conjI allI impI)
    fix x y assume "sessions (net (s'\<lparr>net := n\<rparr>)) x = Some y"
    then have x: "x \<noteq> a" "sessions (net s) x = Some y" using n(1) by (auto split: if_splits)
    then show "x < next_cs (net (s'\<lparr>net := n\<rparr>))" using n(3) pairedD(2) [OF p] by simp
    show "\<exists>u v. conn (s'\<lparr>net := n\<rparr>) x y u v" using pairedD(1) [OF p x(2)] old x(1) by blast
  next
    fix u v assume "bevs (net (s'\<lparr>net := n\<rparr>)) u = Some v"
    then have u: "u \<noteq> b" "bevs (net s) u = Some v" using n(2) by (auto split: if_splits)
    then show "u < next_bev (net (s'\<lparr>net := n\<rparr>))" using n(4) pairedD(4) [OF p] by simp
    show "\<exists>x y. conn (s'\<lparr>net := n\<rparr>) x y u v" using pairedD(3) [OF p u(2)] old neq u(1) by blast
  qed
qed

lemma flight_mono:
  assumes "flight_ok s evs"
    and "\<And>ev a cs. ev \<in> set evs \<Longrightarrow> ev_args ev = Some (Ptr a) \<Longrightarrow> sessions (net s) a = Some cs \<Longrightarrow>
      session_stat cs = SS_RESPONSE \<Longrightarrow> \<exists>cs'. sessions (net s') a = Some cs' \<and> session_stat cs' = SS_RESPONSE"
  shows "flight_ok s' evs"
  using assms unfolding flight_ok_def owned_def by meson

lemma flight_perm:
  assumes "flight_ok s evs" and "set (map ev_args evs') = set (map ev_args evs)" and "length evs' = length evs"
  shows "flight_ok s evs'"
proof -
  have "card (set (map ev_args evs')) = length (map ev_args evs')"
    using assms unfolding flight_ok_def by (metis distinct_card length_map)
  then have "distinct (map ev_args evs')" by (rule card_distinct)
  moreover have "owned s ev" if "ev \<in> set evs'" for ev
  proof -
    have "ev_args ev \<in> set (map ev_args evs)" using that assms(2) by (metis image_eqI list.set_map)
    then obtain ev' where "ev' \<in> set evs" "ev_args ev' = ev_args ev" by auto
    then show ?thesis using assms(1) unfolding flight_ok_def owned_def by metis
  qed
  ultimately show ?thesis unfolding flight_ok_def by blast
qed

subsection \<open>Each step keeps the invariant\<close>

lemma paired_accept:
  assumes p: "paired s" and l: "listener_cb L fd ip (net s) = Inr n"
  shows "paired (s\<lparr>net := n\<rparr>)" and "a < next_cs (net s) \<Longrightarrow> sessions n a = sessions (net s) a"
proof -
  let ?b = "next_bev (net s)" and ?a = "next_cs (net s)"
  let ?e = "\<lparr>bev_io = le_new L fd, bev_arg = Ptr ?a, bev_reading = True, bev_timeouts = (10, 10)\<rparr>"
  let ?cs = "(session_init fd (Ptr ?b))\<lparr>session_stat := SS_REQUEST, req_stat := MS_READ_HEADER, remote_ip := ip\<rparr>"
  have n: "bevs n = (bevs (net s))(?b \<mapsto> ?e)" "sessions n = (sessions (net s))(?a \<mapsto> ?cs)"
      "next_bev n = ?b + 1" "next_cs n = ?a + 1"
    using l by (auto simp: listener_cb_def Let_def split: if_splits)
  show "a < next_cs (net s) \<Longrightarrow> sessions n a = sessions (net s) a" using n(2) by simp
  have new: "conn (s\<lparr>net := n\<rparr>) ?a ?cs ?b ?e"
    using n cs_ok_init [of fd ?b] by (simp add: conn_def cs_ok_def session_init_def)
  have old: "conn (s\<lparr>net := n\<rparr>) x y u v" if c: "conn s x y u v" for x y u v
  proof -
    have "x < ?a" "u < ?b" using c pairedD(2,4) [OF p] by (simp_all add: conn_def)
    then show ?thesis using c n(1,2) by (simp add: conn_def)
  qed
  show "paired (s\<lparr>net := n\<rparr>)"
    unfolding paired_def
  proof (intro conjI allI impI)
    fix x y assume x: "sessions (net (s\<lparr>net := n\<rparr>)) x = Some y"
    show "x < next_cs (net (s\<lparr>net := n\<rparr>))"
      using x n pairedD(2) [OF p, of x y] by (auto split: if_splits)
    show "\<exists>u v. conn (s\<lparr>net := n\<rparr>) x y u v"
    proof (cases "x = ?a")
      case True
      then show ?thesis using new x n(2) by auto
    next
      case False
      then have "sessions (net s) x = Some y" using x n(2) by simp
      then show ?thesis using pairedD(1) [OF p] old by blast
    qed
  next
    fix u v assume u: "bevs (net (s\<lparr>net := n\<rparr>)) u = Some v"
    show "u < next_bev (net (s\<lparr>net := n\<rparr>))"
      using u n pairedD(4) [OF p, of u v] by (auto split: if_splits)
    show "\<exists>x y. conn (s\<lparr>net := n\<rparr>) x y u v"
    proof (cases "u = ?b")
      case True
      then show ?thesis using new u n(1) by auto
    next
      case False
      then have "bevs (net s) u = Some v" using u n(1) by simp
      then show ?thesis using pairedD(3) [OF p] old by blast
    qed
  qed
qed

lemma inv_accept:
  assumes inv: "sys_inv S jobs" and r: "run_callback V (CbAccept fd ip) (srv S) = Inr s"
  shows "sys_inv (S\<lparr>srv := s\<rparr>) jobs"
proof -
  obtain n where n: "listener_cb (nv_le V) fd ip (net (srv S)) = Inr n" "s = (srv S)\<lparr>net := n\<rparr>"
    using r by (auto simp: run_callback_def bindR_eq_Inr)
  note I = sys_invD [OF inv]
  have "flight_ok s (jobs @ running S @ responses (dms (srv S)))"
  proof (rule flight_mono [OF I(7)])
    fix ev a cs assume "sessions (net (srv S)) a = Some cs" "session_stat cs = SS_RESPONSE"
    then show "\<exists>cs'. sessions (net s) a = Some cs' \<and> session_stat cs' = SS_RESPONSE"
      using paired_accept(2) [OF I(1) n(1)] pairedD(2) [OF I(1)] n(2) by simp
  qed
  then show ?thesis
    using I(2-6) paired_accept(1) [OF I(1) n(1)] n(2) by (simp add: sys_inv_def)
qed

lemma inv_traffic:
  assumes inv: "sys_inv S jobs" and e: "bevs (net (srv S)) b = Some e"
  shows "sys_inv (S\<lparr>srv := (srv S)\<lparr>net := (net (srv S))\<lparr>bevs := (bevs (net (srv S)))(b \<mapsto> e\<lparr>bev_io := io\<rparr>)\<rparr>\<rparr>\<rparr>) jobs"
proof -
  note I = sys_invD [OF inv]
  obtain a cs where c: "conn (srv S) a cs b e" using pairedD(3) [OF I(1) e] by blast
  let ?n = "(net (srv S))\<lparr>bevs := (bevs (net (srv S)))(b \<mapsto> e\<lparr>bev_io := io\<rparr>)\<rparr>"
  have "paired ((srv S)\<lparr>net := ?n\<rparr>)"
  proof (rule paired_with [OF I(1) c])
    show "sessions ?n = (sessions (net (srv S)))(a \<mapsto> cs)" using c by (simp add: conn_def fun_upd_idem)
    show "bev_arg (e\<lparr>bev_io := io\<rparr>) = Ptr a" "cs_ok cs" "bev cs = Ptr b" using c by (simp_all add: conn_def)
  qed simp_all
  moreover have "flight_ok ((srv S)\<lparr>net := ?n\<rparr>) (jobs @ running S @ responses (dms (srv S)))"
    by (rule flight_mono [OF I(7)]) simp
  ultimately show ?thesis using I(2-6) by (simp add: sys_inv_def)
qed

text \<open>Removing a connection that is not waiting for a response.\<close>

lemma inv_without:
  assumes inv: "sys_inv S jobs" and c: "conn (srv S) a cs b e" and idle: "session_stat cs = SS_REQUEST"
  shows "sys_inv (S\<lparr>srv := without_conn a b (srv S)\<rparr>) jobs"
proof -
  note I = sys_invD [OF inv]
  have "flight_ok (without_conn a b (srv S)) (jobs @ running S @ responses (dms (srv S)))"
  proof (rule flight_mono [OF I(7)])
    fix ev a' cs' assume "sessions (net (srv S)) a' = Some cs'" "session_stat cs' = SS_RESPONSE"
    moreover from this have "a' \<noteq> a" using c idle by (auto simp: conn_def)
    ultimately show "\<exists>cs''. sessions (net (without_conn a b (srv S))) a' = Some cs'' \<and> session_stat cs'' = SS_RESPONSE"
      by simp
  qed
  moreover have "paired (without_conn a b (srv S))"
    unfolding without_conn_def by (rule paired_without [OF I(1) c]) simp_all
  ultimately show ?thesis using I(2-6) by (simp add: sys_inv_def)
qed

lemma inv_error:
  assumes inv: "sys_inv S jobs" and idle: "idle_conn (srv S) b"
    and r: "run_callback V (CbError b what) (srv S) = Inr s"
  shows "sys_inv (S\<lparr>srv := s\<rparr>) jobs"
proof -
  obtain e a cs where e: "bevs (net (srv S)) b = Some e" "bev_arg e = Ptr a"
      "sessions (net (srv S)) a = Some cs" "session_stat cs = SS_REQUEST"
    using idle unfolding idle_conn_def by blast
  obtain x y where "conn (srv S) x y b e" using pairedD(3) [OF sys_invD(1) [OF inv] e(1)] by blast
  then have c: "conn (srv S) a cs b e" using e by (simp add: conn_def)
  have "s = without_conn a b (srv S)"
    using r e drop_connection_ok [OF e(3,1)] by (simp add: run_callback_def handle_error_def)
  then show ?thesis using inv_without [OF inv c e(4)] by simp
qed

lemma same_net:
  assumes "net s' = net s"
  shows "conn s' = conn s" and "paired s' = paired s" and "flight_ok s' = flight_ok s"
proof -
  show c: "conn s' = conn s" unfolding conn_def [abs_def] assms ..
  show "paired s' = paired s" unfolding paired_def c assms ..
  show "flight_ok s' = flight_ok s" unfolding flight_ok_def [abs_def] owned_def assms ..
qed

lemma read_outcome:
  assumes L: "libevent_ok (nv_le V) inp out" and up: "env_up V" and inv: "sys_inv S jobs"
    and r: "run_callback V (CbRead b) (srv S) = Inr s"
  obtains e a cs k where "conn (srv S) a cs b e"
    and "request_outcome V a cs b e (srv S) (Inr s) k"
proof -
  note I = sys_invD [OF inv]
  obtain e where e: "bevs (net (srv S)) b = Some e" "handle_request V (Ptr b) (bev_arg e) (srv S) = Inr s"
    using r by (auto simp: run_callback_def bindR_eq_Inr deref_eq_Inr)
  obtain a cs where c: "conn (srv S) a cs b e" using pairedD(3) [OF I(1) e(1)] by blast
  obtain p where p: "dms_tp (dms (srv S)) = Some p" "holds p jobs" using I(3) by blast
  have enq: "\<exists>rc d. dms_enqueue (nv_calloc V) (nv_lock V) (nv_signal V) (Some (set_args (Ptr a) ev)) (dms (srv S)) = Inr (rc, d)"
    for ev
    using dms_enqueue_defined [OF p, of "set_args (Ptr a) ev"] up unfolding env_up_def by metis
  have "bev_arg e = Ptr a" using c by (simp add: conn_def)
  then show thesis using that [OF c] request_any [OF L c enq] e(2) by auto
qed

lemma inv_read:
  assumes L: "libevent_ok (nv_le V) inp out" and up: "env_up V" and inv: "sys_inv S jobs"
    and r: "run_callback V (CbRead b) (srv S) = Inr s"
  shows "\<exists>jobs'. sys_inv (S\<lparr>srv := s\<rparr>) jobs'"
proof -
  note I = sys_invD [OF inv]
  obtain e a cs k where c: "conn (srv S) a cs b e" and k: "request_outcome V a cs b e (srv S) (Inr s) k"
    using read_outcome [OF L up inv r] .
  have sa: "sessions (net (srv S)) a = Some cs" and bc: "bev cs = Ptr b" "bev_arg e = Ptr a"
    using c by (simp_all add: conn_def)
  show ?thesis
  proof (cases k)
    case Goes_on
    then obtain cs' io where g: "s = with_conn a cs' b (e\<lparr>bev_io := io\<rparr>) (srv S)" "cs_ok cs'" "cs_frame cs cs'"
        "session_stat cs' = session_stat cs"
      using k by (auto simp: request_outcome_def)
    have "paired s"
      unfolding g(1) with_conn_def
      using g(2,3) bc by (intro paired_with [OF I(1) c]) (simp_all add: cs_frame_def)
    moreover have "flight_ok s (jobs @ running S @ responses (dms (srv S)))"
      by (rule flight_mono [OF I(7)]) (use g(1,4) sa in auto)
    ultimately have "sys_inv (S\<lparr>srv := s\<rparr>) jobs" using I(2-6) g(1) by (simp add: sys_inv_def)
    then show ?thesis ..
  next
    case Dropped
    then have "s = without_conn a b (srv S)" "session_stat cs = SS_REQUEST"
      using k by (simp_all add: request_outcome_def)
    then show ?thesis using inv_without [OF inv c] by blast
  next
    case No_return
    then show ?thesis using k by (simp add: request_outcome_def)
  next
    case Posted
    then obtain cs' io ev c' rc d where g:
        "s = (with_conn a cs' b (e\<lparr>bev_io := io\<rparr>) (srv S))\<lparr>hs := (hs (srv S))\<lparr>segno := c'\<rparr>, dms := d\<rparr>"
        "cs_ok cs'" "cs_frame cs cs'" "session_stat cs' = SS_RESPONSE" "req_event ev"
        "dms_enqueue (nv_calloc V) (nv_lock V) (nv_signal V) (Some (set_args (Ptr a) ev)) (dms (srv S)) = Inr (rc, d)"
        "session_stat cs = SS_REQUEST"
      using k by (auto simp: request_outcome_def)
    obtain p where p: "dms_tp (dms (srv S)) = Some p" "holds p jobs" using I(3) by blast
    obtain rc' p' where "dms_enqueue True 0 0 (Some (set_args (Ptr a) ev)) (dms (srv S)) = Inr (rc', (dms (srv S))\<lparr>dms_tp := Some p'\<rparr>)"
        "holds p' (jobs @ [set_args (Ptr a) ev]) \<or> holds p' jobs"
      using dms_enqueue_defined [OF p, of "set_args (Ptr a) ev"] by metis
    then have d: "d = (dms (srv S))\<lparr>dms_tp := Some p'\<rparr>"
      and h: "holds p' (jobs @ [set_args (Ptr a) ev]) \<or> holds p' jobs"
      using g(6) up by (simp_all add: env_up_def)
    have net: "net s = net (with_conn a cs' b (e\<lparr>bev_io := io\<rparr>) (srv S))" using g(1) by simp
    have "paired (with_conn a cs' b (e\<lparr>bev_io := io\<rparr>) (srv S))"
      unfolding with_conn_def
      using g(2,3) bc by (intro paired_with [OF I(1) c]) (simp_all add: cs_frame_def)
    then have P: "paired s" using same_net(2) [OF net] by simp
    let ?evs = "jobs @ running S @ responses (dms (srv S))"
    have F: "flight_ok s ?evs"
      by (rule flight_mono [OF I(7)]) (use g(4,7) net sa in auto)
    have new: "Some (Ptr a) \<notin> set (map ev_args ?evs)"
    proof
      assume "Some (Ptr a) \<in> set (map ev_args ?evs)"
      then obtain ev' where ev': "ev' \<in> set ?evs" "ev_args ev' = Some (Ptr a)"
        unfolding set_map by (metis imageE)
      then have "owned (srv S) ev'" using I(7) unfolding flight_ok_def by blast
      then show False using ev'(2) sa g(7) by (auto simp: owned_def)
    qed
    have own: "owned s (set_args (Ptr a) ev)" using g(4) net by (simp add: owned_def)
    have F2: "flight_ok s ((jobs @ [set_args (Ptr a) ev]) @ running S @ responses (dms (srv S)))"
    proof (rule flight_perm)
      show "flight_ok s (set_args (Ptr a) ev # ?evs)"
        using F new own by (simp add: flight_ok_def)
    qed auto
    from h show ?thesis
    proof
      assume "holds p' (jobs @ [set_args (Ptr a) ev])"
      then have "sys_inv (S\<lparr>srv := s\<rparr>) (jobs @ [set_args (Ptr a) ev])"
        using I(2,4-6) P F2 g(1,5) d by (auto simp: sys_inv_def handlers_ready_def)
      then show ?thesis ..
    next
      assume "holds p' jobs"
      then have "sys_inv (S\<lparr>srv := s\<rparr>) jobs"
        using I(2,4-6) P F g(1) d by (auto simp: sys_inv_def handlers_ready_def)
      then show ?thesis ..
    qed
  qed
qed

lemma respond_ok:
  assumes inv: "sys_inv S jobs" and small: "small_replies (nv_pb V)"
    and q: "responses (dms (srv S)) = ev # q"
  obtains a cs b e n where "conn (srv S) a cs b e" and "ev_args ev = Some (Ptr a)"
    and "handle_response_event (nv_le V) (nv_pb V) (nv_fill V) ev (net (srv S)) = Inr n"
    and "n = (net (srv S))\<lparr>bevs := (bevs (net (srv S)))(b \<mapsto> e\<lparr>bev_io := le_write (nv_le V)
           (frame (ucast (ev_eid ev)) (ev_bytes (nv_pb V) ev)) (bev_io e)\<rparr>),
         sessions := (sessions (net (srv S)))(a \<mapsto> (reset_cs cs)\<lparr>response := Some ev\<rparr>)\<rparr>"
proof -
  note I = sys_invD [OF inv]
  have rsp: "rsp_event ev" using I(6) q by simp
  have "owned (srv S) ev" using I(7) q by (simp add: flight_ok_def)
  then obtain a cs where a: "ev_args ev = Some (Ptr a)" "sessions (net (srv S)) a = Some cs"
    by (auto simp: owned_def)
  obtain b e where c: "conn (srv S) a cs b e" using pairedD(1) [OF I(1) a(2)] by blast
  have "ev_wf ev" "ev_eid ev = eventid EEVENTID_GET_MOBILE_CODE_RSP \<or> ev_eid ev = eventid EEVENTID_LOGIN_RSP"
    using rsp by (auto simp: rsp_event_def ev_wf_def)
  moreover have "length (ev_bytes (nv_pb V) ev) < 2 ^ 31 - 10"
    using small rsp unfolding small_replies_def by blast
  ultimately show thesis
    using that [OF c a(1)] a c by (simp add: conn_def handle_response_event_ok)
qed

lemma inv_respond:
  assumes inv: "sys_inv S jobs" and small: "small_replies (nv_pb V)"
    and q: "responses (dms (srv S)) = ev # q"
    and r: "handle_response_event (nv_le V) (nv_pb V) (nv_fill V) ev (net (srv S)) = Inr n"
  shows "sys_inv (S\<lparr>srv := (srv S)\<lparr>net := n, dms := (dms (srv S))\<lparr>responses := q\<rparr>\<rparr>\<rparr>) jobs"
proof -
  note I = sys_invD [OF inv]
  obtain a cs b e where c: "conn (srv S) a cs b e" and a: "ev_args ev = Some (Ptr a)"
    and n: "n = (net (srv S))\<lparr>bevs := (bevs (net (srv S)))(b \<mapsto> e\<lparr>bev_io := le_write (nv_le V)
           (frame (ucast (ev_eid ev)) (ev_bytes (nv_pb V) ev)) (bev_io e)\<rparr>),
         sessions := (sessions (net (srv S)))(a \<mapsto> (reset_cs cs)\<lparr>response := Some ev\<rparr>)\<rparr>"
    using respond_ok [OF inv small q] r by (metis sum.inject(2))
  let ?s = "(srv S)\<lparr>net := n\<rparr>"
  let ?rest = "jobs @ running S @ q"
  have "cs_ok ((reset_cs cs)\<lparr>response := Some ev\<rparr>)" "bev ((reset_cs cs)\<lparr>response := Some ev\<rparr>) = Ptr b"
    using c by (auto simp: conn_def cs_ok_def reset_cs_def)
  then have P: "paired ?s"
    using c n by (intro paired_with [OF I(1) c]) (simp_all add: conn_def)
  have "flight_ok (srv S) (ev # ?rest)"
    by (rule flight_perm [OF I(7)]) (auto simp: q)
  then have rest: "flight_ok (srv S) ?rest" and notin: "Some (Ptr a) \<notin> set (map ev_args ?rest)"
    using a by (auto simp: flight_ok_def)
  have F: "flight_ok ?s ?rest"
  proof (rule flight_mono [OF rest])
    fix ev' a' cs' assume e': "ev' \<in> set ?rest" "ev_args ev' = Some (Ptr a')"
      "sessions (net (srv S)) a' = Some cs'" "session_stat cs' = SS_RESPONSE"
    have "a' \<noteq> a"
    proof
      assume "a' = a"
      then have "Some (Ptr a) \<in> set (map ev_args ?rest)" using e'(1,2) by (metis image_eqI list.set_map)
      then show False using notin by blast
    qed
    then show "\<exists>cs''. sessions (net ?s) a' = Some cs'' \<and> session_stat cs'' = SS_RESPONSE"
      using e'(3,4) n by simp
  qed
  let ?t = "(srv S)\<lparr>net := n, dms := (dms (srv S))\<lparr>responses := q\<rparr>\<rparr>"
  have nt: "net ?t = net ?s" by simp
  show ?thesis
    using I(2-6) P F q unfolding sys_inv_def by (simp add: same_net [OF nt] handlers_ready_def)
qed

lemma inv_take:
  assumes inv: "sys_inv S jobs" and p: "dms_tp (dms (srv S)) = Some p" and t: "take_job p = Inr (Some ev, p')"
  shows "\<exists>jobs'. sys_inv (S\<lparr>srv := (srv S)\<lparr>dms := (dms (srv S))\<lparr>dms_tp := Some p'\<rparr>\<rparr>, running := running S @ [ev]\<rparr>) jobs'"
proof -
  note I = sys_invD [OF inv]
  have h: "holds p jobs" using I(3) p by simp
  then obtain jobs' where j: "jobs = ev # jobs'" "holds p' jobs'"
  proof (cases jobs)
    case Nil
    then show thesis using h t holds_take_nil [of p] by simp
  next
    case (Cons ev' js)
    then show thesis using that h t holds_take_cons [of p ev' js] by auto
  qed
  let ?s = "(srv S)\<lparr>dms := (dms (srv S))\<lparr>dms_tp := Some p'\<rparr>\<rparr>"
  have "flight_ok (srv S) (jobs' @ (running S @ [ev]) @ responses (dms (srv S)))"
    by (rule flight_perm [OF I(7)]) (auto simp: j(1))
  moreover have ns: "net ?s = net (srv S)" by simp
  ultimately have "sys_inv (S\<lparr>srv := ?s, running := running S @ [ev]\<rparr>) jobs'"
    using I(1,2,4-6) j unfolding sys_inv_def by (simp add: same_net [OF ns] handlers_ready_def)
  then show ?thesis ..
qed

text \<open>What the user handler's chain answers to a request.\<close>

lemma handle_reply:
  assumes "req_event ev" and "handle E (Some ev) s = Inr (r, s')"
  shows "\<exists>rsp. r = Some rsp \<and> rsp_event rsp"
proof -
  have wf: "ev_wf ev" using assms(1) by (simp add: req_event_def)
  from assms(1) consider m where "ev_msg ev = MobileCodeReqMsg m" | m where "ev_msg ev = LoginReqMsg m"
    by (auto simp: req_event_def)
  then show ?thesis
  proof cases
    case 1
    then show ?thesis
      using assms(2) reason_of_codes(1)
      by (auto simp: handle_code_any [OF wf] handle_code_eq rsp_event_def ev_wf_def)
  next
    case 2
    then show ?thesis
      using assms(2)
      by (auto simp: handle_login_any [OF wf] handle_login_eq rsp_event_def ev_wf_def bindR_eq_Inr)
  qed
qed

lemma run_handlers_reply:
  "req_event ev \<Longrightarrow> hds \<noteq> [] \<Longrightarrow> run_handlers (\<lambda>_. handle E) hds ev r0 s = Inr (r, s') \<Longrightarrow>
   \<exists>rsp. r = Some rsp \<and> rsp_event rsp"
proof (induction hds arbitrary: s r0)
  case (Cons h hds)
  obtain r1 s1 where 1: "handle E (Some ev) s = Inr (r1, s1)" "run_handlers (\<lambda>_. handle E) hds ev r1 s1 = Inr (r, s')"
    using Cons.prems(3) by (auto simp: bindR_eq_Inr)
  show ?case
  proof (cases "hds = []")
    case True
    then show ?thesis using 1 handle_reply [OF Cons.prems(1)] by auto
  next
    case False
    show ?thesis by (rule Cons.IH [OF Cons.prems(1) False 1(2)])
  qed
qed simp

lemma svc_reply:
  assumes "req_event ev" and "handlers_ready d" and "ev_args ev = Some p"
    and "svc (\<lambda>_. handle E) ev d s = Inr (d', s')"
  obtains rsp str where "d' = d\<lparr>responses := responses d @ [rsp], printed := printed d @ str\<rparr>"
    and "rsp_event rsp" and "ev_args rsp = Some p"
proof -
  have eid: "ev_eid ev = eventid EEVENTID_GET_MOBILE_CODE_REQ \<or> ev_eid ev = eventid EEVENTID_LOGIN_REQ"
    using assms(1) by (auto simp: req_event_def ev_wf_def)
  then have "handlers_of (subscribers d) (ev_eid ev) \<noteq> []" using assms(2) by (auto simp: handlers_ready_def)
  then obtain hds where hds: "subscribers d (ev_eid ev) = Some hds" "hds \<noteq> []"
    by (auto simp: handlers_of_def split: option.splits)
  have known: "ev_eid ev \<noteq> eventid EEVENTID_UNKNOWN" using eid by auto
  have open_: "svr_exit d = Some False" using assms(2) by (simp add: handlers_ready_def)
  have "process (\<lambda>_. handle E) (Some ev) d s = run_handlers (\<lambda>_. handle E) hds ev None s"
    using hds known by (simp add: process_def Let_def)
  then obtain r s1 where r: "run_handlers (\<lambda>_. handle E) hds ev None s = Inr (r, s1)"
      "process (\<lambda>_. handle E) (Some ev) d s = Inr (r, s1)"
    using assms(4) open_ by (auto simp: svc_def bindR_eq_Inr)
  obtain rsp where rsp: "r = Some rsp" "rsp_event rsp"
    using run_handlers_reply [OF assms(1) hds(2) r(1)] by blast
  have "d' = d\<lparr>responses := responses d @ [set_args p rsp], printed := printed d @ dump rsp\<rparr>"
    using assms(3,4) open_ r(2) rsp(1) by (simp add: svc_def get_args_def rsp_push_def)
  moreover have "rsp_event (set_args p rsp)" using rsp(2) by (simp add: rsp_event_def)
  ultimately show thesis using that by simp
qed

lemma inv_serve:
  assumes inv: "sys_inv S jobs" and run: "running S = xs @ ev # ys"
    and s: "svc (\<lambda>_. handle E) ev (dms (srv S)) (hs (srv S)) = Inr (d, h)"
  shows "sys_inv (S\<lparr>srv := (srv S)\<lparr>dms := d, hs := h\<rparr>, running := xs @ ys\<rparr>) jobs"
proof -
  note I = sys_invD [OF inv]
  have req: "req_event ev" using I(5) run by simp
  have "owned (srv S) ev" using I(7) run by (simp add: flight_ok_def)
  then obtain a where a: "ev_args ev = Some (Ptr a)" by (auto simp: owned_def)
  obtain rsp str where rsp: "d = (dms (srv S))\<lparr>responses := responses (dms (srv S)) @ [rsp],
      printed := printed (dms (srv S)) @ str\<rparr>" "rsp_event rsp" "ev_args rsp = Some (Ptr a)"
    using svc_reply [OF req I(2) a s] .
  let ?s = "(srv S)\<lparr>dms := d, hs := h\<rparr>"
  have ns: "net ?s = net (srv S)" by simp
  have "flight_ok (srv S) (jobs @ (xs @ ys) @ responses (dms (srv S)) @ [rsp])"
    by (rule flight_perm [OF I(7)]) (auto simp: run a rsp(3))
  then have F: "flight_ok ?s (jobs @ (xs @ ys) @ responses (dms (srv S)) @ [rsp])"
    by (simp only: same_net(3) [OF ns])
  have P: "paired ?s" using I(1) by (simp only: same_net(2) [OF ns])
  show ?thesis
    using I(2-6) F P rsp(1,2) run by (simp add: sys_inv_def handlers_ready_def)
qed

lemma inv_tick:
  assumes "sys_inv S jobs"
  shows "sys_inv (S\<lparr>srv := (srv S)\<lparr>hs := h\<rparr>\<rparr>) jobs"
proof -
  have ns: "net ((srv S)\<lparr>hs := h\<rparr>) = net (srv S)" by simp
  show ?thesis using assms unfolding sys_inv_def by (simp add: same_net [OF ns])
qed

lemma sstep_inv:
  assumes "sstep V E False S T" and "sys_inv S jobs"
    and "libevent_ok (nv_le V) inp out" and "env_up V" and "small_replies (nv_pb V)"
  shows "\<exists>jobs'. sys_inv T jobs'"
  using assms(1)
proof cases
  case (accept fd ip s)
  then show ?thesis using inv_accept [OF assms(2)] by blast
next
  case (traffic b e io)
  then show ?thesis using inv_traffic [OF assms(2)] by blast
next
  case (read b s)
  then show ?thesis using inv_read [OF assms(3,4,2)] by blast
next
  case (error b what s)
  then show ?thesis using inv_error [OF assms(2)] by blast
next
  case (respond ev q n)
  then show ?thesis using inv_respond [OF assms(2,5)] by blast
next
  case (take p ev p')
  then show ?thesis using inv_take [OF assms(2)] by blast
next
  case (serve xs ev ys d h)
  then show ?thesis using inv_serve [OF assms(2)] by blast
next
  case (tick t d)
  then show ?thesis using inv_tick [OF assms(2)] by blast
qed

lemma sinit_inv:
  assumes "sinit S"
  shows "sys_inv S []"
  using assms unfolding sinit_def sys_inv_def by (simp add: paired_def flight_ok_def)

lemma sreach_inv:
  assumes "sreach V E False S" and "libevent_ok (nv_le V) inp out" and "env_up V" and "small_replies (nv_pb V)"
  shows "\<exists>jobs. sys_inv S jobs"
  using assms(1)
proof (induction rule: sreach.induct)
  case (sreach_init S)
  then show ?case using sinit_inv by blast
next
  case (sreach_step S T)
  then show ?case using sstep_inv [OF _ _ assms(2-4)] by blast
qed

subsection \<open>A run, for the witnesses\<close>

definition sys0 :: "(bytes \<times> bytes, nat, string list \<times> nat) sys" where
  "sys0 = \<lparr>srv = demo_srv\<lparr>net := demo_net\<lparr>bevs := Map.empty, sessions := Map.empty, next_bev := 4, next_cs := 7\<rparr>\<rparr>,
     running = []\<rparr>"

lemma sys0_init: "sinit sys0"
  using fresh_pool_holds [where 'a = iEvent]
  by (simp add: sinit_def sys0_def demo_srv_def handlers_ready_def UserEventHandler_new_def
      DispatchMsgService_new_def subscribe_def handlers_of_def)

lemma length_reason: "length (reason_of c) \<le> 20"
  by (auto simp: reason_of_def EER_def)

lemma flat_small_replies: "small_replies flat_pb"
proof -
  have "length (ev_bytes flat_pb ev) < 2 ^ 31 - 10" if rsp: "rsp_event ev" for ev
  proof -
    from rsp consider
        c i where "ev_msg ev = MobileCodeRspMsg \<lparr>rs_code = c, rs_icode = i, rs_data = Some (reason_of c)\<rparr>"
      | c where "ev_msg ev = LoginRspMsg \<lparr>ls_code = c, ls_desc = Some (reason_of c)\<rparr>"
      unfolding rsp_event_def by blast
    then show ?thesis
    proof cases
      case 1
      then show ?thesis using length_reason [of c] by (simp add: ev_bytes_def flat_pb_def flat_opt_def)
    next
      case 2
      then show ?thesis using length_reason [of c] by (simp add: ev_bytes_def flat_pb_def flat_opt_def)
    qed
  qed
  then show ?thesis unfolding small_replies_def by blast
qed

text \<open>One connection, one request for a code, read, posted, taken and served.\<close>

definition demo_frame :: bytes where
  "demo_frame = frame 1 [0x31, 0x38, 0x32]"

lemma demo_step_read:
  assumes "sessions (net s) a = Some cs" and "bevs (net s) b = Some e" and "bev_arg e = Ptr a"
    and "fst (bev_io e) = demo_frame" and "rx 1 [0x31, 0x38, 0x32] 0 cs"
    and "dms_tp (dms s) = Some p" and "holds p []"
  obtains s' p' ev where "run_callback demo_V (CbRead b) s = Inr s'" and "dms s' = (dms s)\<lparr>dms_tp := Some p'\<rparr>"
    and "hs s' = (hs s)\<lparr>segno := segno (hs s) + 1\<rparr>" and "holds p' [ev] \<or> max_queue p \<le> waiting p"
    and "req_event ev" and "uh_admits ev" and "ev_args ev = Some (Ptr a)"
proof -
  let ?pl = "[0x31, 0x38, 0x32] :: bytes"
  have w: "waiting_piece fst e (frame 1 ?pl) 0 (length (frame 1 ?pl))"
    using assms(4) by (simp add: waiting_piece_def demo_frame_def)
  have pl: "payload_ok ?pl" by (simp add: payload_ok_def MAX_MSG_LEN_def)
  have L: "libevent_ok (nv_le demo_V) fst snd" by (simp add: list_libevent_ok)
  obtain cs' e' where r: "rx_done 1 ?pl cs'"
      "handle_request demo_V (Ptr b) (Ptr a) s = complete_request demo_V (Ptr b) (Ptr a) cs' (with_conn a cs' b e' s)"
    using request_piece [OF L assms(1,2,5) pl w] by auto
  let ?ev = "fst (MobileCodeReqEv (string_of_bytes ?pl) (segno (hs s)))"
  let ?ev' = "set_args (Ptr a) ?ev"
  have parse: "parseEvent (nv_pb demo_V) (Some ?pl) (word_of_nat (length ?pl)) (ucast (1 :: u16)) (segno (hs (with_conn a cs' b e' s))) =
      Inr (Some ?ev, segno (hs s) + 1)"
    by (simp add: parseEvent_def flat_pb_def MobileCodeReqEv_def generateSegNo_def)
  obtain rc p' where q: "dms_enqueue True 0 0 (Some ?ev') (dms s) = Inr (rc, (dms s)\<lparr>dms_tp := Some p'\<rparr>)"
      "rc = T_OK \<and> holds p' ([] @ [?ev']) \<or> rc = T_ERROR \<and> holds p' []"
    using dms_enqueue_defined [OF assms(6,7)] by blast
  have full: "holds p' [?ev'] \<or> max_queue p \<le> waiting p"
  proof (cases "waiting p < max_queue p")
    case True
    obtain tp' where "enqueue True 0 0 (Some ?ev') p = Inr (T_OK, tp')" "holds tp' ([] @ [?ev'])"
      using holds_enqueue_ok [OF assms(7) True] .
    moreover from this have eq: "(dms s)\<lparr>dms_tp := Some tp'\<rparr> = (dms s)\<lparr>dms_tp := Some p'\<rparr>"
      using q(1) assms(6) by (simp add: dms_enqueue_def)
    have "tp' = p'" using arg_cong [OF eq, of dms_tp] by simp
    ultimately show ?thesis by simp
  qed simp
  have sel: "sessions (net (with_conn a cs' b e' s)) a = Some cs'" by simp
  have enq: "dms_enqueue (nv_calloc demo_V) (nv_lock demo_V) (nv_signal demo_V) (Some ?ev') (dms (with_conn a cs' b e' s)) =
      Inr (rc, (dms s)\<lparr>dms_tp := Some p'\<rparr>)" using q(1) by simp
  note done_ = complete_request_post [OF r(1) sel parse enq, of "Ptr b"]
  have "req_event ?ev'" "uh_admits ?ev'" "ev_args ?ev' = Some (Ptr a)"
    by (simp_all add: req_event_def uh_admits_def) (simp_all add: event_ctor_defs)
  then show thesis
    using that full assms(2,3) done_ r(2) by (simp add: run_callback_def)
qed

lemma sstep_any: "sstep V E False S T \<Longrightarrow> sstep V E any S T"
  by (induction rule: sstep.induct) (auto intro: sstep.intros)

lemma sreach_any: "sreach V E False S \<Longrightarrow> sreach V E any S"
  by (induction rule: sreach.induct) (auto intro: sreach.intros sstep_any)

lemma responding_reach:
  obtains S :: "(bytes \<times> bytes, nat, string list \<times> nat) sys" and ev where "sreach demo_V demo_env False S" and "responses (dms (srv S)) = [ev]"
    and "running S = []"
proof -
  let ?s0 = "srv sys0"
  obtain n1 where n1: "listener_cb (nv_le demo_V) 3 ''127.0.0.1'' (net ?s0) = Inr n1"
    by (simp add: listener_cb_def Let_def)
  let ?S1 = "sys0\<lparr>srv := ?s0\<lparr>net := n1\<rparr>\<rparr>"
  let ?cs = "(session_init 3 (Ptr 4))\<lparr>session_stat := SS_REQUEST, req_stat := MS_READ_HEADER, remote_ip := ''127.0.0.1''\<rparr>"
  let ?e = "\<lparr>bev_io = le_new list_libevent 3, bev_arg = Ptr 7, bev_reading = True, bev_timeouts = (10, 10)\<rparr>"
  have c1: "sessions n1 7 = Some ?cs" "bevs n1 4 = Some ?e"
    using n1 by (auto simp: listener_cb_def Let_def sys0_def)
  have r1: "sreach demo_V demo_env False ?S1"
    using n1 by (intro sreach_step [OF sreach_init [OF sys0_init]] accept [where fd = 3 and ip = "''127.0.0.1''"])
      (simp add: run_callback_def)
  let ?n2 = "n1\<lparr>bevs := (bevs n1)(4 \<mapsto> ?e\<lparr>bev_io := (demo_frame, [])\<rparr>)\<rparr>"
  let ?S2 = "sys0\<lparr>srv := ?s0\<lparr>net := ?n2\<rparr>\<rparr>"
  have "sstep demo_V demo_env False ?S1 ?S2"
    using traffic [where S = ?S1 and b = 4 and e = ?e and io = "(demo_frame, [])"] c1(2) by simp
  then have r2: "sreach demo_V demo_env False ?S2" by (rule sreach_step [OF r1])
  let ?s2 = "srv ?S2"
  have d2: "dms ?s2 = dms demo_srv" "hs ?s2 = demo_state" by (simp_all add: sys0_def)
  have "rx 1 [0x31, 0x38, 0x32] 0 ?cs"
    using cs_ok_init [of 3 4] by (intro rx_start) (simp_all add: cs_ok_def session_init_def)
  then obtain s3 p' ev where s3: "run_callback demo_V (CbRead 4) ?s2 = Inr s3" "dms s3 = (dms ?s2)\<lparr>dms_tp := Some p'\<rparr>"
      "hs s3 = (hs ?s2)\<lparr>segno := segno (hs ?s2) + 1\<rparr>"
      "holds p' [ev] \<or> max_queue (fresh_pool :: iEvent thread_pool) \<le> waiting (fresh_pool :: iEvent thread_pool)"
      "req_event ev" "uh_admits ev" "ev_args ev = Some (Ptr 7)"
    using demo_step_read [of ?s2 7 ?cs 4 "?e\<lparr>bev_io := (demo_frame, [])\<rparr>" fresh_pool] c1(1) fresh_pool_holds
    by (auto simp: sys0_def demo_srv_def UserEventHandler_new_def)
  have r3: "sreach demo_V demo_env False (?S2\<lparr>srv := s3\<rparr>)"
    by (rule sreach_step [OF r2], rule read) (rule s3(1))
  have h: "holds p' (ev # [])" using s3(4) by (simp add: fresh_pool_eq)
  obtain p4 where p4: "take_job p' = Inr (Some ev, p4)" using holds_take_cons [OF h] by blast
  let ?d4 = "(dms s3)\<lparr>dms_tp := Some p4\<rparr>"
  let ?S4 = "?S2\<lparr>srv := s3\<lparr>dms := ?d4\<rparr>, running := [ev]\<rparr>"
  have "sstep demo_V demo_env False (?S2\<lparr>srv := s3\<rparr>) ?S4"
    using take [where S = "?S2\<lparr>srv := s3\<rparr>" and p = p' and p' = p4 and ev = ev] p4 s3(2)
    by (simp add: sys0_def)
  then have r4: "sreach demo_V demo_env False ?S4" by (rule sreach_step [OF r3])
  have d4: "svr_exit ?d4 = Some False" "responses ?d4 = []" "subscribers ?d4 = subscribers (dms demo_srv)"
    using s3(2) d2 by (simp_all add: demo_srv_def UserEventHandler_new_def DispatchMsgService_new_def)
  have eid: "ev_eid ev = eventid EEVENTID_GET_MOBILE_CODE_REQ \<or> ev_eid ev = eventid EEVENTID_LOGIN_REQ"
    using s3(5) by (auto simp: req_event_def ev_wf_def)
  then have ne: "handlers_of (subscribers ?d4) (ev_eid ev) \<noteq> []"
    unfolding d4(3)
    by (auto simp: demo_srv_def UserEventHandler_new_def DispatchMsgService_new_def subscribe_def handlers_of_def)
  have known: "ev_eid ev \<noteq> eventid EEVENTID_UNKNOWN" using eid by auto
  have ready: "uh_ready (hs s3)" using s3(3) d2(2) by (simp add: uh_ready_def demo_state_def getconfig_def)
  obtain rsp h5 where s5: "svc (\<lambda>_. handle demo_env) ev ?d4 (hs s3) =
      Inr (?d4\<lparr>responses := responses ?d4 @ [set_args (Ptr 7) rsp], printed := printed ?d4 @ dump rsp\<rparr>, h5)"
    using uh.svc_answers [OF ready s3(6) ne known d4(1) s3(7)] by blast
  let ?d5 = "?d4\<lparr>responses := responses ?d4 @ [set_args (Ptr 7) rsp], printed := printed ?d4 @ dump rsp\<rparr>"
  have "sstep demo_V demo_env False ?S4 (?S4\<lparr>srv := (srv ?S4)\<lparr>dms := ?d5, hs := h5\<rparr>, running := [] @ []\<rparr>)"
    using s5 by (intro serve) simp_all
  then have "sreach demo_V demo_env False (?S4\<lparr>srv := (srv ?S4)\<lparr>dms := ?d5, hs := h5\<rparr>, running := [] @ []\<rparr>)"
    by (rule sreach_step [OF r4])
  then show thesis
    by (rule that [of _ "set_args (Ptr 7) rsp"]) (simp_all add: sys0_def s3(2) d2 demo_srv_def UserEventHandler_new_def DispatchMsgService_new_def)
qed

subsection \<open>Properties\<close>

text \<open>
  C2. As long as connections end only while idle, every event in flight, posted, being served or
  waiting as a response, points to its own live session: the session waits for exactly this
  response, and its connection is still there.
\<close>

theorem flight_owned:
  assumes "sreach V E False S" and "libevent_ok (nv_le V) inp out" and "env_up V" and "small_replies (nv_pb V)"
  shows "\<exists>p jobs. dms_tp (dms (srv S)) = Some p \<and> holds p jobs \<and>
     distinct (map ev_args (jobs @ running S @ responses (dms (srv S)))) \<and>
     (\<forall>ev \<in> set (jobs @ running S @ responses (dms (srv S))). \<exists>a cs b.
        ev_args ev = Some (Ptr a) \<and> sessions (net (srv S)) a = Some cs \<and> session_stat cs = SS_RESPONSE \<and>
        bev cs = Ptr b \<and> bevs (net (srv S)) b \<noteq> None)"
proof -
  obtain jobs where inv: "sys_inv S jobs" using sreach_inv [OF assms] by blast
  note I = sys_invD [OF inv]
  obtain p where p: "dms_tp (dms (srv S)) = Some p" "holds p jobs" using I(3) by blast
  have "\<exists>a cs b. ev_args ev = Some (Ptr a) \<and> sessions (net (srv S)) a = Some cs \<and> session_stat cs = SS_RESPONSE \<and>
        bev cs = Ptr b \<and> bevs (net (srv S)) b \<noteq> None"
    if ev: "ev \<in> set (jobs @ running S @ responses (dms (srv S)))" for ev
  proof -
    have "owned (srv S) ev" using I(7) ev unfolding flight_ok_def by blast
    then obtain a cs where a: "ev_args ev = Some (Ptr a)" "sessions (net (srv S)) a = Some cs"
        "session_stat cs = SS_RESPONSE" unfolding owned_def by blast
    obtain b e where "conn (srv S) a cs b e" using pairedD(1) [OF I(1) a(2)] by blast
    then show ?thesis using a by (auto simp: conn_def)
  qed
  then show ?thesis using p I(7) unfolding flight_ok_def by blast
qed

theorem flight_owned_witness:
  "\<exists>S. responses (dms (srv S)) \<noteq> [] \<and>
     (\<exists>p jobs. dms_tp (dms (srv (S :: (bytes \<times> bytes, nat, string list \<times> nat) sys))) = Some p \<and> holds p jobs \<and>
     distinct (map ev_args (jobs @ running S @ responses (dms (srv S)))) \<and>
     (\<forall>ev \<in> set (jobs @ running S @ responses (dms (srv S))). \<exists>a cs b.
        ev_args ev = Some (Ptr a) \<and> sessions (net (srv S)) a = Some cs \<and> session_stat cs = SS_RESPONSE \<and>
        bev cs = Ptr b \<and> bevs (net (srv S)) b \<noteq> None))"
proof -
  obtain S :: "(bytes \<times> bytes, nat, string list \<times> nat) sys" and ev where S: "sreach demo_V demo_env False S" "responses (dms (srv S)) = [ev]"
    by (rule responding_reach)
  have L: "libevent_ok (nv_le demo_V) fst snd" by (simp add: list_libevent_ok)
  have U: "env_up demo_V" by (simp add: env_up_def)
  have P: "small_replies (nv_pb demo_V)" by (simp add: flat_small_replies)
  have "responses (dms (srv S)) \<noteq> []" using S(2) by simp
  then show ?thesis using flight_owned [OF S(1) L U P] by (intro exI [of _ S] conjI)
qed

text \<open>
  C3. Under the same condition every response is delivered: handling the head of the response queue
  does not fault, it appends one frame with that response to the connection of the session that
  asked, and leaves that session ready for its next request.
\<close>

theorem response_delivered:
  assumes "sreach V E False S" and "libevent_ok (nv_le V) inp out" and "env_up V" and "small_replies (nv_pb V)"
    and "responses (dms (srv S)) = ev # q"
  shows "\<exists>a cs b e e' n. ev_args ev = Some (Ptr a) \<and> conn (srv S) a cs b e \<and>
     handle_response_event (nv_le V) (nv_pb V) (nv_fill V) ev (net (srv S)) = Inr n \<and>
     bevs n = (bevs (net (srv S)))(b \<mapsto> e') \<and>
     out (bev_io e') = out (bev_io e) @ frame (ucast (ev_eid ev)) (ev_bytes (nv_pb V) ev) \<and>
     sessions n = (sessions (net (srv S)))(a \<mapsto> (reset_cs cs)\<lparr>response := Some ev\<rparr>)"
proof -
  obtain jobs where inv: "sys_inv S jobs" using sreach_inv [OF assms(1-4)] by blast
  obtain a cs b e n where r: "conn (srv S) a cs b e" "ev_args ev = Some (Ptr a)"
    "handle_response_event (nv_le V) (nv_pb V) (nv_fill V) ev (net (srv S)) = Inr n"
    "n = (net (srv S))\<lparr>bevs := (bevs (net (srv S)))(b \<mapsto> e\<lparr>bev_io := le_write (nv_le V)
           (frame (ucast (ev_eid ev)) (ev_bytes (nv_pb V) ev)) (bev_io e)\<rparr>),
         sessions := (sessions (net (srv S)))(a \<mapsto> (reset_cs cs)\<lparr>response := Some ev\<rparr>)\<rparr>"
    using respond_ok [OF inv assms(4,5)] .
  let ?e = "e\<lparr>bev_io := le_write (nv_le V) (frame (ucast (ev_eid ev)) (ev_bytes (nv_pb V) ev)) (bev_io e)\<rparr>"
  have "bevs n = (bevs (net (srv S)))(b \<mapsto> ?e)"
      "sessions n = (sessions (net (srv S)))(a \<mapsto> (reset_cs cs)\<lparr>response := Some ev\<rparr>)" using r(4) by simp_all
  moreover have "out (bev_io ?e) = out (bev_io e) @ frame (ucast (ev_eid ev)) (ev_bytes (nv_pb V) ev)"
    using libevent_okD(5) [OF assms(2)] by simp
  ultimately show ?thesis using r(1-3) by blast
qed

theorem response_delivered_witness:
  "\<exists>(S :: (bytes \<times> bytes, nat, string list \<times> nat) sys) ev a cs b e e' n. ev_args ev = Some (Ptr a) \<and> conn (srv S) a cs b e \<and>
     handle_response_event list_libevent flat_pb (nv_fill demo_V) ev (net (srv S)) = Inr n \<and>
     bevs n = (bevs (net (srv S)))(b \<mapsto> e') \<and>
     snd (bev_io e') = snd (bev_io e) @ frame (ucast (ev_eid ev)) (ev_bytes flat_pb ev) \<and>
     sessions n = (sessions (net (srv S)))(a \<mapsto> (reset_cs cs)\<lparr>response := Some ev\<rparr>)"
proof -
  obtain S :: "(bytes \<times> bytes, nat, string list \<times> nat) sys" and ev where S: "sreach demo_V demo_env False S" "responses (dms (srv S)) = [ev]"
    by (rule responding_reach)
  have L: "libevent_ok (nv_le demo_V) fst snd" by (simp add: list_libevent_ok)
  have U: "env_up demo_V" by (simp add: env_up_def)
  have P: "small_replies (nv_pb demo_V)" by (simp add: flat_small_replies)
  show ?thesis
    using response_delivered [OF S(1) L U P S(2)] unfolding demo_sel by blast
qed

text \<open>
  C16. Nothing protects a busy session: from every reachable state in which a response is pending for
  a live connection, the end of that connection leads to a state in which sending the response uses
  the freed session.
\<close>

theorem error_then_use_after_free:
  fixes S :: "('b, 'h, 'db) sys"
  assumes "sreach V E True S" and "responses (dms (srv S)) = ev # q" and "rsp_event ev"
    and "ev_args ev = Some (Ptr a)" and "conn (srv S) a cs b e"
  shows "\<exists>T :: ('b, 'h, 'db) sys. sreach V E True T \<and> responses (dms (srv T)) = ev # q \<and>
     handle_response_event (nv_le V) (nv_pb V) (nv_fill V) ev (net (srv T)) = Inl UseAfterFree"
proof -
  have c: "sessions (net (srv S)) a = Some cs" "bevs (net (srv S)) b = Some e" "bev_arg e = Ptr a"
    using assms(5) by (simp_all add: conn_def)
  let ?s = "without_conn a b (srv S)"
  have "run_callback V (CbError b BEV_EVENT_EOF) (srv S) = Inr ?s"
    using c drop_connection_ok [OF c(1,2)] by (simp add: run_callback_def handle_error_def)
  then have "sreach V E True (S\<lparr>srv := ?s\<rparr>)"
    by (intro sreach_step [OF assms(1)] error) simp_all
  moreover have "handle_response_event (nv_le V) (nv_pb V) (nv_fill V) ev (net ?s) = Inl UseAfterFree"
    using assms(3,4) by (intro handle_response_gone) (auto simp: rsp_event_def ev_wf_def)
  ultimately show ?thesis using assms(2) by (intro exI [of _ "S\<lparr>srv := ?s\<rparr>"]) simp
qed

theorem error_then_use_after_free_witness:
  "\<exists>(T :: (bytes \<times> bytes, nat, string list \<times> nat) sys) ev. sreach demo_V demo_env True T \<and> responses (dms (srv T)) = [ev] \<and>
     handle_response_event (nv_le demo_V) (nv_pb demo_V) (nv_fill demo_V) ev (net (srv T)) = Inl UseAfterFree"
proof -
  obtain S :: "(bytes \<times> bytes, nat, string list \<times> nat) sys" and ev where S: "sreach demo_V demo_env False S" "responses (dms (srv S)) = [ev]"
    by (rule responding_reach)
  have L: "libevent_ok (nv_le demo_V) fst snd" by (simp add: list_libevent_ok)
  have U: "env_up demo_V" by (simp add: env_up_def)
  have P: "small_replies (nv_pb demo_V)" by (simp add: flat_small_replies)
  obtain jobs where inv: "sys_inv S jobs" using sreach_inv [OF S(1) L U P] by blast
  obtain a cs b e where c: "conn (srv S) a cs b e" "ev_args ev = Some (Ptr a)"
    using respond_ok [OF inv P S(2)] by metis
  have "rsp_event ev" using sys_invD(6) [OF inv] S(2) by simp
  from error_then_use_after_free [OF sreach_any [OF S(1)] S(2) this c(2,1)] show ?thesis by blast
qed

end
