(* ===== verification/Client.thy ===== *)
theory Client
  imports Network
begin

text \<open>
  \<^verbatim>\<open>src/src/client/client.cc\<close>: the test client. It sends a request for each command typed on its
  terminal and reads the responses of the server; the code it received is kept in the global
  \<open>icode\<close> and sent with the next login.
\<close>

subsection \<open>State\<close>

text \<open>
  \<open>sent\<close> is what was written to the connection, \<open>shown\<close> what was printed, \<open>exit_code\<close> the
  argument of \<open>exit\<close> once it was called, \<open>freed\<close> the libevent objects released: 0 the event of
  the terminal, 1 the connection.
\<close>

record client =
  icode :: i32
  sent :: bytes
  shown :: string
  exit_code :: "int option"
  freed :: "nat list"

definition client0 :: client where
  "client0 = \<lparr>icode = 0, sent = [], shown = [], exit_code = None, freed = []\<rparr>"

definition say :: "string \<Rightarrow> client \<Rightarrow> client" where
  "say s c = c\<lparr>shown := shown c @ s\<rparr>"

definition stop :: "int \<Rightarrow> client \<Rightarrow> client" where
  "stop k c = c\<lparr>exit_code := Some k\<rparr>"

definition client_mobile :: string where
  "client_mobile = ''18266666666''"

subsection \<open>Sending\<close>

text \<open>
  Assembling a request in the array \<open>msg\<close> of 1024 bytes, whose content is arbitrary before, and
  writing its first \<open>len + 10\<close> bytes.
\<close>

definition client_msg :: "bytes \<Rightarrow> u16 \<Rightarrow> bytes \<Rightarrow> bytes res" where
  "client_msg msg eid pl =
     bindR (put_bytes msg 0 (bytes_of ''FBEB'')) (\<lambda>m1.
     bindR (put_bytes m1 4 (le16 eid)) (\<lambda>m2.
     bindR (put_bytes m2 6 (le32 (word_of_nat (length pl)))) (\<lambda>m3.
     bindR (put_bytes m3 10 pl) (\<lambda>m4. Inr (take (length pl + 10) m4)))))"

definition send_request :: "bytes \<Rightarrow> u16 \<Rightarrow> bytes \<Rightarrow> client \<Rightarrow> client res" where
  "send_request msg eid pl c = bindR (client_msg msg eid pl) (\<lambda>bs. Inr (c\<lparr>sent := sent c @ bs\<rparr>))"

text \<open>
  A read from the terminal: \<open>None\<close> for a negative result, else the bytes read. \<open>cmd[ret - 1]\<close> is
  overwritten with a zero.
\<close>

definition command_of :: "bytes \<Rightarrow> string res" where
  "command_of data = (if data = [] then Inl OutOfBounds
     else Inr (c_str (string_of_bytes (butlast data @ [0]))))"

definition cmd_msg_cb :: "protobuf \<Rightarrow> bytes \<Rightarrow> bytes option \<Rightarrow> client \<Rightarrow> client res" where
  "cmd_msg_cb P msg rd c = (case rd of
      None \<Rightarrow> Inr (stop 1 c)
    | Some data \<Rightarrow>
        bindR (command_of data) (\<lambda>cmd.
          (let c0 = say (''read cmd: ['' @ cmd @ '']'' @ endl) c in
           bindR (if cmd = ''send_mr'' then
                    send_request msg 1 (serialize_mobile_request P \<lparr>rq_mobile = client_mobile\<rparr>) c0
                  else Inr c0) (\<lambda>c1.
             if cmd = ''send_lr'' then
               send_request msg 3 (serialize_login_request P \<lparr>lq_mobile = client_mobile, lq_icode = icode c1\<rparr>) c1
             else Inr c1))))"

subsection \<open>Receiving\<close>

text \<open>
  \<open>data\<close> are the bytes \<open>bufferevent_read\<close> gave, at most 1024; \<open>junk\<close> what the rest of the array
  \<open>msg\<close> held before. The test \<open>len < 0\<close> on a \<open>size_t\<close> is never true. \<open>parse_region\<close> are the
  bytes \<open>ParseFromArray(msg + 10, len)\<close> reads.
\<close>

definition parse_region :: "bytes \<Rightarrow> i32 \<Rightarrow> bytes res" where
  "parse_region msg len =
     (if sint len < 0 \<or> int (length msg) < 10 + sint len then Inl OutOfBounds
      else Inr (take (nat (sint len)) (drop 10 msg)))"

definition server_msg_cb :: "protobuf \<Rightarrow> bytes \<Rightarrow> bytes \<Rightarrow> client \<Rightarrow> client res" where
  "server_msg_cb P junk data c =
     (if data = [] then Inr (stop 1 (say (''connection close. exit~'' @ endl) c))
      else
        (let msg0 = data @ drop (length data) junk in
         bindR (put_bytes msg0 (length data) [0]) (\<lambda>msg.
           (let c0 = say (''recv from server<<<<< ['' @ c_str (string_of_bytes msg) @ ''] '' @ endl) c in
            bindR (strncmp_eq 4 msg (bytes_of ''FBEB'')) (\<lambda>eq.
              if \<not> eq then Inr c0
              else
                bindR (rd16 (drop 4 msg)) (\<lambda>event_id.
                bindR (rd32 (drop 6 msg)) (\<lambda>len.
                  if event_id = 2 then
                    bindR (parse_region msg len) (\<lambda>bs.
                      (let mr = snd (parse_mobile_response P bs); c1 = c0\<lparr>icode := rs_icode mr\<rparr> in
                       Inr (say (''mobile_response: code: '' @ show_u32 (ucast event_id) @ '', icode: '' @
                         show_i32 (icode c1) @ '', data: '' @ c_str (opt_text (rs_data mr)) @ endl) c1)))
                  else if event_id = 4 then
                    bindR (parse_region msg len) (\<lambda>bs.
                      (let lr = snd (parse_login_response P bs) in
                       Inr (say (''login_response: code: '' @ show_i32 (ls_code lr) @ endl) c0)))
                  else Inr c0)))))))"

subsection \<open>Connecting and closing\<close>

text \<open>
  The results of \<open>inet_aton\<close>, \<open>socket\<close> and \<open>connect\<close>; the value returned and the descriptors
  closed on the way.
\<close>

definition tcp_connect_server :: "int \<Rightarrow> int \<Rightarrow> int \<Rightarrow> int \<times> int list" where
  "tcp_connect_server aton sock conn_rc =
     (if aton = 0 then (-1, [])
      else if sock = -1 then (sock, [])
      else if conn_rc = -1 then (-1, [sock])
      else (sock, []))"

definition client_main :: "nat \<Rightarrow> int \<Rightarrow> int" where
  "client_main argc sockfd = (if argc < 3 then -1 else if sockfd = -1 then -1 else 0)"

definition event_cb :: "u16 \<Rightarrow> client \<Rightarrow> client" where
  "event_cb event c =
     (let c1 = (if event AND BEV_EVENT_EOF \<noteq> 0 then say (''connection closed'' @ endl) c
                else if event AND BEV_EVENT_ERROR \<noteq> 0 then say (''some other error'' @ endl) c
                else c)
      in c1\<lparr>freed := freed c1 @ [0, 1]\<rparr>)"

subsection \<open>What the client sends and understands\<close>

lemma FBEB_magic: "bytes_of ''FBEB'' = magic"
  using magic_bytes by (simp add: MESSAGE_HEADER_def)

lemma client_msg_ok:
  assumes "length msg = 1024" and "length pl \<le> 1014"
  shows "client_msg msg eid pl = Inr (frame eid pl)"
proof -
  have 1: "put_bytes ([] @ msg) 0 magic = Inr (magic @ drop 4 msg)"
    using assms by (subst put_bytes_at) simp_all
  have 2: "put_bytes (magic @ drop 4 msg) 4 (le16 e) = Inr ((magic @ le16 e) @ drop 6 msg)" for e
    using assms by (subst put_bytes_at) simp_all
  have 3: "put_bytes ((magic @ le16 e) @ drop 6 msg) 6 (le32 l) = Inr ((magic @ le16 e @ le32 l) @ drop 10 msg)" for e l
    using assms by (subst put_bytes_at) simp_all
  have 4: "put_bytes ((magic @ le16 e @ le32 l) @ drop 10 msg) 10 pl =
      Inr (((magic @ le16 e @ le32 l) @ pl) @ drop (length pl + 10) msg)" for e l
    using assms by (subst put_bytes_at) (simp_all add: add.commute)
  have 5: "take (length pl + 10) (((magic @ le16 e @ le32 l) @ pl) @ r) = magic @ le16 e @ le32 l @ pl" for e l r
  proof -
    have "length ((magic @ le16 e @ le32 l) @ pl) = length pl + 10" by simp
    then show ?thesis by (metis append_assoc append_eq_conv_conj)
  qed
  show ?thesis
    using 1 2 3 4 unfolding client_msg_def FBEB_magic
    by (simp only: append_Nil bindR_Inr 5 frame_def)
qed

lemma send_request_ok:
  "length msg = 1024 \<Longrightarrow> length pl \<le> 1014 \<Longrightarrow>
   send_request msg eid pl c = Inr (c\<lparr>sent := sent c @ frame eid pl\<rparr>)"
  by (simp add: send_request_def client_msg_ok)

lemma command_line:
  assumes "CHR 0x00 \<notin> set cmd"
  shows "command_of (bytes_of cmd @ [nl]) = Inr cmd"
proof -
  have "string_of_bytes (bytes_of cmd @ [0]) = cmd @ [CHR 0x00]"
    using string_of_bytes_inverse [of cmd] by (simp add: string_of_bytes_def char_of_byte_def char_of_def)
  moreover have "c_str (cmd @ [CHR 0x00]) = cmd"
    using assms by (induction cmd) (auto simp: c_str_def)
  ultimately show ?thesis by (simp add: command_of_def)
qed

lemma cmd_send_mr:
  assumes "length msg = 1024" and "length (serialize_mobile_request P \<lparr>rq_mobile = client_mobile\<rparr>) \<le> 1014"
  shows "\<exists>c'. cmd_msg_cb P msg (Some (bytes_of ''send_mr'' @ [10])) c = Inr c' \<and>
    sent c' = sent c @ frame 1 (serialize_mobile_request P \<lparr>rq_mobile = client_mobile\<rparr>) \<and>
    icode c' = icode c \<and> exit_code c' = exit_code c"
proof -
  have "command_of (bytes_of ''send_mr'' @ [10]) = Inr ''send_mr''" by (rule command_line) simp
  then show ?thesis
    by (simp add: cmd_msg_cb_def Let_def send_request_ok [OF assms]) (simp add: say_def)
qed

lemma cmd_send_lr:
  assumes "length msg = 1024"
    and "length (serialize_login_request P \<lparr>lq_mobile = client_mobile, lq_icode = icode c\<rparr>) \<le> 1014"
  shows "\<exists>c'. cmd_msg_cb P msg (Some (bytes_of ''send_lr'' @ [10])) c = Inr c' \<and>
    sent c' = sent c @ frame 3 (serialize_login_request P \<lparr>lq_mobile = client_mobile, lq_icode = icode c\<rparr>) \<and>
    icode c' = icode c \<and> exit_code c' = exit_code c"
proof -
  have "command_of (bytes_of ''send_lr'' @ [10]) = Inr ''send_lr''" by (rule command_line) simp
  moreover have "icode (say s c) = icode c" for s by (simp add: say_def)
  ultimately show ?thesis
    using assms by (simp add: cmd_msg_cb_def Let_def send_request_ok) (simp add: say_def)
qed

text \<open>A response frame that arrives in one piece and fits the array.\<close>

lemma received_frame:
  assumes "length junk = 1024" and "length pl \<le> 1013" and "msg = frame eid pl @ [0] @ drop (length pl + 11) junk"
  shows "put_bytes (frame eid pl @ drop (length (frame eid pl)) junk) (length (frame eid pl)) [0] = Inr msg"
    and "strncmp_eq 4 msg magic = Inr True" and "rd16 (drop 4 msg) = Inr eid"
    and "rd32 (drop 6 msg) = Inr (word_of_nat (length pl))"
    and "parse_region msg (word_of_nat (length pl)) = Inr pl"
proof -
  have "drop (11 + length pl) junk = drop (length pl + 11) junk" by (simp add: add.commute)
  then show "put_bytes (frame eid pl @ drop (length (frame eid pl)) junk) (length (frame eid pl)) [0] = Inr msg"
    using assms by (subst put_bytes_append) (simp_all add: frame_length add.commute)
  have t: "take 10 msg = magic @ le16 eid @ le32 (word_of_nat (length pl))" and l: "10 \<le> length msg"
    by (simp_all add: assms(3) frame_def)
  show "strncmp_eq 4 msg magic = Inr True" "rd16 (drop 4 msg) = Inr eid"
    "rd32 (drop 6 msg) = Inr (word_of_nat (length pl))" using frame_fields [OF t l] by simp_all
  have d: "drop 10 msg = pl @ [0] @ drop (length pl + 11) junk"
    by (simp add: assms(3) frame_def)
  have "length msg = 1024" using assms by (simp add: frame_length)
  moreover have "sint (word_of_nat (length pl) :: i32) = int (length pl)"
    using assms(2) by (intro small_len(2)) simp
  ultimately show "parse_region msg (word_of_nat (length pl)) = Inr pl"
    using assms(2) d by (simp add: parse_region_def)
qed

lemma frame_not_Nil [simp]: "frame eid pl \<noteq> []"
  by (simp add: frame_def magic_def)

lemma read_code_response:
  assumes "length junk = 1024" and "length pl \<le> 1013" and "snd (parse_mobile_response P pl) = mr"
  shows "\<exists>c'. server_msg_cb P junk (frame 2 pl) c = Inr c' \<and> icode c' = rs_icode mr \<and> sent c' = sent c \<and>
    exit_code c' = exit_code c"
proof -
  note R = received_frame [OF assms(1,2) refl, of 2]
  show ?thesis
    using R assms(3) by (simp add: server_msg_cb_def FBEB_magic Let_def) (simp add: say_def)
qed

lemma read_login_response:
  assumes "length junk = 1024" and "length pl \<le> 1013" and "snd (parse_login_response P pl) = lr"
  shows "\<exists>c' pre. server_msg_cb P junk (frame 4 pl) c = Inr c' \<and> sent c' = sent c \<and> icode c' = icode c \<and>
    shown c' = pre @ ''login_response: code: '' @ show_i32 (ls_code lr) @ endl"
proof -
  note R = received_frame [OF assms(1,2) refl, of 4]
  show ?thesis
    using R assms(3) by (simp add: server_msg_cb_def FBEB_magic Let_def) (auto simp: say_def)
qed

subsection \<open>A whole session\<close>

text \<open>
  The server's side of one request, from the bytes of its payload to the frame of its response:
  what \<open>handle_request\<close>, the user handler and \<open>assembleResponse\<close> do in turn.
\<close>

definition serve_one :: "protobuf \<Rightarrow> 'db env \<Rightarrow> u16 \<Rightarrow> bytes \<Rightarrow> 'db hstate \<Rightarrow> (bytes option \<times> 'db hstate) res" where
  "serve_one P E eid pl s =
     bindR (parseEvent P (Some pl) (word_of_nat (length pl)) (ucast eid) (segno s)) (\<lambda>(ev, k).
     bindR (handle E ev (s\<lparr>segno := k\<rparr>)) (\<lambda>(rsp, s').
       Inr (map_option (\<lambda>r. frame (ucast (ev_eid r)) (ev_bytes P r)) rsp, s')))"

definition code_rsp :: "i32 \<Rightarrow> mobile_response" where
  "code_rsp k = \<lparr>rs_code = errcode ERRC_SUCCESS, rs_icode = k, rs_data = Some ''T_OK.''\<rparr>"

definition login_rsp :: login_response where
  "login_rsp = \<lparr>ls_code = errcode ERRC_SUCCESS, ls_desc = Some ''T_OK.''\<rparr>"

definition code_req :: mobile_request where
  "code_req = \<lparr>rq_mobile = client_mobile\<rparr>"

definition login_req :: "i32 \<Rightarrow> login_request" where
  "login_req k = \<lparr>lq_mobile = client_mobile, lq_icode = k\<rparr>"

text \<open>Every message of the session fits the client's arrays.\<close>

definition session_sizes :: "protobuf \<Rightarrow> bool" where
  "session_sizes P \<longleftrightarrow> length (serialize_mobile_request P code_req) \<le> 1013 \<and>
     (\<forall>k. length (serialize_login_request P (login_req k)) \<le> 1013) \<and>
     (\<forall>k. length (serialize_mobile_response P (code_rsp k)) \<le> 1013) \<and>
     length (serialize_login_response P login_rsp) \<le> 1013"

lemma unat_small_len: "length pl \<le> 1013 \<Longrightarrow> length pl = unat (word_of_nat (length pl) :: u32)"
  using unat_word32 [of "length pl"] by simp

lemma serve_code:
  assumes "protobuf_roundtrip P" and "length (serialize_mobile_request P code_req) \<le> 1013"
  shows "\<exists>k s'. serve_one P E 1 (serialize_mobile_request P code_req) s =
      Inr (Some (frame 2 (serialize_mobile_response P (code_rsp k))), s') \<and>
    s' = s\<lparr>m2c := (m2c s)(client_mobile \<mapsto> k), segno := segno s + 1 + 1\<rparr>"
proof -
  have "parseEvent P (Some (serialize_mobile_request P code_req))
      (word_of_nat (length (serialize_mobile_request P code_req))) 1 (segno s) =
      Inr (Some (fst (MobileCodeReqEv client_mobile (segno s))), segno s + 1)"
    using parse_code_request [OF protobuf_roundtripD(1) [OF assms(1)] unat_small_len [OF assms(2)], of "segno s"]
    by (simp add: code_req_def)
  then show ?thesis
    by (intro exI [of _ "code_gen E (s\<lparr>segno := segno s + 1\<rparr>)"])
      (simp add: serve_one_def handle_code_eq ev_bytes_def code_rsp_def)
qed

lemma serve_login:
  assumes "protobuf_roundtrip P" and "length (serialize_login_request P (login_req k)) \<le> 1013"
    and "sql_users (my E) rows" and "plain_mobile client_mobile" and "getconfig (ini s) = Inr cfg"
    and "rows (db s) client_mobile < 2 ^ 32" and "m2c s client_mobile = Some k"
  shows "\<exists>s'. serve_one P E 3 (serialize_login_request P (login_req k)) s =
      Inr (Some (frame 4 (serialize_login_response P login_rsp)), s') \<and>
    rows (db s') = (rows (db s))(client_mobile := max 1 (rows (db s) client_mobile))"
proof -
  obtain d' where d': "login_db (my E) cfg client_mobile (db s) = Inr (ERRC_SUCCESS, HConnected, d')"
      "rows d' = (rows (db s))(client_mobile := max 1 (rows (db s) client_mobile))"
    using login_db_rows [OF assms(3,4,6)] .
  have "parseEvent P (Some (serialize_login_request P (login_req k)))
      (word_of_nat (length (serialize_login_request P (login_req k)))) 3 (segno s) =
      Inr (Some (fst (LoginReqEv client_mobile k (segno s))), segno s + 1)"
    using parse_login_request_event [OF protobuf_roundtripD(3) [OF assms(1)] unat_small_len [OF assms(2)], of "segno s"]
    by (simp add: login_req_def)
  then show ?thesis
    using d' assms(5,7) reason_of_codes(1)
    by (simp add: serve_one_def handle_login_eq login_spec_def ev_bytes_def login_rsp_def)
qed


lemma flat_sizes: "session_sizes flat_pb"
  by (simp add: session_sizes_def flat_pb_def code_req_def login_req_def code_rsp_def login_rsp_def
      client_mobile_def flat_opt_def)


subsection \<open>What breaks the client\<close>

text \<open>
  Three inputs make the client access its arrays out of bounds: the end of the terminal's input
  (\<open>cmd[-1]\<close>), a server that sends 1024 bytes or more (\<open>msg[1024]\<close>), and a response whose header
  announces more bytes than the array holds or a negative number of them.
\<close>

theorem client_faults:
  assumes "length junk = 1024" and "length full = 1024" and "eid = 2 \<or> eid = 4"
    and "sint l < 0 \<or> 1014 < sint l"
  shows "cmd_msg_cb P msg (Some []) c = Inl OutOfBounds \<and>
    server_msg_cb P junk full c = Inl OutOfBounds \<and>
    server_msg_cb P junk (magic @ le16 eid @ le32 l) c = Inl OutOfBounds"
proof (intro conjI)
  show "cmd_msg_cb P msg (Some []) c = Inl OutOfBounds" by (simp add: cmd_msg_cb_def command_of_def)
  have "full \<noteq> []" using assms(2) by auto
  then show "server_msg_cb P junk full c = Inl OutOfBounds"
    using assms(1,2) by (simp add: server_msg_cb_def put_bytes_def)
  let ?msg = "magic @ le16 eid @ le32 l @ [0] @ drop 11 junk"
  have put: "put_bytes ((magic @ le16 eid @ le32 l) @ drop 10 junk) 10 [0] = Inr ?msg"
    using assms(1) by (subst put_bytes_at) simp_all
  have t: "take 10 ?msg = magic @ le16 eid @ le32 l" and n: "10 \<le> length ?msg" by simp_all
  have "parse_region ?msg l = Inl OutOfBounds"
    using assms(1,4) by (auto simp: parse_region_def)
  then show "server_msg_cb P junk (magic @ le16 eid @ le32 l) c = Inl OutOfBounds"
    using frame_fields [OF t n] put assms(3) by (auto simp: server_msg_cb_def FBEB_magic Let_def magic_def)
qed

theorem client_faults_witness:
  "cmd_msg_cb flat_pb [] (Some []) client0 = Inl OutOfBounds \<and>
    server_msg_cb flat_pb (replicate 1024 0) (replicate 1024 1) client0 = Inl OutOfBounds \<and>
    server_msg_cb flat_pb (replicate 1024 0) (magic @ le16 2 @ le32 2000) client0 = Inl OutOfBounds"
  by (rule client_faults) simp_all

end
