(* ===== verification/MainLoop.thy ===== *)
theory MainLoop
  imports System
begin

text \<open>
  \<^verbatim>\<open>src/src/main.cc\<close>: the start of the server, with its exit codes, and its loop; and
  \<^verbatim>\<open>src/src/util/logger.cc\<close>, the logger that is configured first.
\<close>

subsection \<open>Logger\<close>

text \<open>
  \<open>conf\<close> is \<open>PropertyConfigurator::configure\<close>, with the text of the \<open>ConfigureFailure\<close> it throws.
  The logger is ready once \<open>root_category_\<close> points to the root category.
\<close>

record logger =
  root_category :: bool
  cerr :: string

definition Logger_instance :: logger where
  "Logger_instance = \<lparr>root_category = False, cerr = []\<rparr>"

definition Logger_init :: "(string \<Rightarrow> string option) \<Rightarrow> string \<Rightarrow> logger \<Rightarrow> bool \<times> logger" where
  "Logger_init conf file l = (case conf file of
      Some what \<Rightarrow> (False, l\<lparr>cerr := cerr l @ ''load log config file'' @ c_str file @
        ''failed with result : '' @ what @ endl\<rparr>)
    | None \<Rightarrow> (True, l\<lparr>root_category := True\<rparr>))"

text \<open>\<open>LOG_INFO\<close> and its like dereference the category.\<close>

definition GetLogger :: "logger \<Rightarrow> unit res" where
  "GetLogger l = (if root_category l then Inr () else Inl NullDeref)"

subsection \<open>Starting up\<close>

text \<open>
  What the calls of \<open>main\<close> outside the program give: the logging configuration, the ini file, the
  database and the services of the handlers, the results of the pthread calls of \<open>open\<close>, whether
  libevent has a base and binds the port, and the address of the \<open>UserEventHandler\<close>.
\<close>

record ('h, 'db, 'd) world =
  w_conf :: "string \<Rightarrow> string option"
  w_ini :: "'d iniparser"
  w_env :: "'db env"
  w_mutex :: int
  w_pool :: init_rc
  w_base :: bool
  w_bind :: bool
  w_handler :: 'h

datatype ('b, 'h, 'db) started =
    Exit int
  | Serving logger nif "('b, 'h, 'db) srv"

definition empty_net :: "'b net" where
  "empty_net = \<lparr>bevs = Map.empty, next_bev = 0, sessions = Map.empty, next_cs = 0\<rparr>"

text \<open>The part after the configuration is loaded: database, tables, handler, pool, network.\<close>

definition bring_up ::
    "('h, 'db, 'd) world \<Rightarrow> logger \<Rightarrow> Iniconfig \<Rightarrow> u32 \<Rightarrow> u32 \<Rightarrow> 'db \<Rightarrow> ('b, 'h, 'db) started res" where
  "bring_up W l conf sn t d =
     bindR (getconfig conf) (\<lambda>args.
     bindR (GetLogger l) (\<lambda>_.
       (let (res, h, d1) = MySqlConnection_Init (my (w_env W)) (c_str (db_ip args)) (db_port args)
              (c_str (db_user args)) (c_str (db_pwd args)) (c_str (db_name args)) d
        in if \<not> res then Inr (Exit (-4))
           else
             (let D = UserEventHandler_new (w_handler W) (getInstance None) in
              bindR (QueryProcessor_init (my (w_env W)) h d1) (\<lambda>(_, d2).
              bindR (dms_open (w_mutex W) (w_pool W) Map.empty 0 0 D) (\<lambda>(_, D1).
                (let (_, i) = nif_start (w_base W) (w_bind W) NetworkInterface_new in
                 Inr (Serving l i \<lparr>net = empty_net, dms = D1,
                   hs = \<lparr>m2c = Map.empty, ini = conf, segno = sn, now = t, db = d2\<rparr>\<rparr>))))))))"

text \<open>
  \<open>argv\<close> without the terminating null; \<open>sn\<close> and \<open>t\<close> are the counter of sequence numbers and the
  time. The results of \<open>DMS->open()\<close> and \<open>NTIF->start\<close> decide nothing: the statement \<open>exit;\<close>
  names the function without calling it.
\<close>

definition main_start ::
    "('h, 'db, 'd) world \<Rightarrow> string list \<Rightarrow> u32 \<Rightarrow> u32 \<Rightarrow> 'db \<Rightarrow> ('b, 'h, 'db) started res" where
  "main_start W argv sn t d =
     (if length argv < 3 then Inr (Exit (-1))
      else
        (let (ok, l) = Logger_init (w_conf W) (argv ! 2) Logger_instance in
         if \<not> ok then Inr (Exit (-2))
         else
           (let (ok, conf) = loadfile (w_ini W) (argv ! 1) (Iniconfig_getInstance None) in
            if \<not> ok then bindR (GetLogger l) (\<lambda>_. Inr (Exit (-3)))
            else bring_up W l conf sn t d)))"

text \<open>
  The loop, one list of ready callbacks for each round; a null \<open>base_\<close> is passed on to libevent.
  \<open>DMS->close()\<close> after the loop is never reached.
\<close>

fun main_loop :: "'b netenv \<Rightarrow> nif \<Rightarrow> callback list list \<Rightarrow> ('b, 'h, 'db) srv \<Rightarrow> ('b, 'h, 'db) srv res" where
  "main_loop V i [] s = Inr s"
| "main_loop V i (cbs # rounds) s =
     (if \<not> base i then Inl NullDeref
      else bindR (network_event_dispatch V cbs s) (\<lambda>s'. main_loop V i rounds s'))"

subsection \<open>What the start establishes\<close>

lemma QueryProcessor_init_connected:
  "\<exists>d'. QueryProcessor_init M HConnected d = Inr (True, d')"
  by (auto simp: QueryProcessor_init_def CreateUserInfoTable_def CreateBikeInfoTable_def Execute_def
      query_handle_def split: prod.split)

lemma MySqlConnection_Init_cases:
  obtains h d' where "MySqlConnection_Init M host port user pwd name d = (False, h, d')"
  | d' where "MySqlConnection_Init M host port user pwd name d = (True, HConnected, d')"
  by (cases "my_connect M host user pwd name port d"; cases "my_init M d"; cases "fst (my_connect M host user pwd name port d)")
    (auto simp: MySqlConnection_Init_def)

lemma dms_open_ok:
  assumes "rc_calloc rc"
  shows "\<exists>p k. thread_pool_init rc Map.empty 0 0 = Inr (p, k) \<and>
    dms_open m rc Map.empty 0 0 D = Inr (p \<noteq> None, D\<lparr>svr_exit := Some False, dms_tp := p\<rparr>)"
  using assms by (auto simp: dms_open_def thread_pool_init_def Let_def split: prod.split)

lemma bring_up_eq:
  fixes W :: "('h, 'db, 'd) world"
  assumes "rc_calloc (w_pool W)" and "getconfig conf = Inr args" and "root_category l"
    and "MySqlConnection_Init (my (w_env W)) (c_str (db_ip args)) (db_port args)
      (c_str (db_user args)) (c_str (db_pwd args)) (c_str (db_name args)) d = (True, HConnected, d1)"
  shows "\<exists>p k d2. thread_pool_init (w_pool W) Map.empty 0 0 = Inr (p, k) \<and>
    bring_up W l conf sn t d = Inr (Serving l \<lparr>base = w_base W, listener = w_bind W\<rparr>
      \<lparr>net = (empty_net :: 'b net), dms = (UserEventHandler_new (w_handler W) DispatchMsgService_new)\<lparr>svr_exit := Some False, dms_tp := p\<rparr>,
       hs = \<lparr>m2c = Map.empty, ini = conf, segno = sn, now = t, db = d2\<rparr>\<rparr>)"
proof -
  obtain p :: "iEvent thread_pool option" and k where p: "thread_pool_init (w_pool W) Map.empty 0 0 = Inr (p, k)"
    using dms_open_ok [OF assms(1)] by blast
  obtain d2 where "QueryProcessor_init (my (w_env W)) HConnected d1 = Inr (True, d2)"
    using QueryProcessor_init_connected [of "my (w_env W)" d1] by blast
  then show ?thesis
    using p assms(2-4)
    by (simp add: bring_up_def GetLogger_def getInstance_def dms_open_def nif_start_def NetworkInterface_new_def Let_def split_beta)
qed

text \<open>A start in which the configuration is read and the database answers.\<close>

definition configured :: "('h, 'db, 'd) world \<Rightarrow> string list \<Rightarrow> 'db \<Rightarrow> bool" where
  "configured W argv d \<longleftrightarrow> 3 \<le> length argv \<and> w_conf W (argv ! 2) = None \<and>
     (\<exists>ini args d1. ini_load (w_ini W) (c_str (argv ! 1)) = Some ini \<and>
        getconfig (snd (loadfile (w_ini W) (argv ! 1) Iniconfig_new)) = Inr args \<and>
        MySqlConnection_Init (my (w_env W)) (c_str (db_ip args)) (db_port args)
          (c_str (db_user args)) (c_str (db_pwd args)) (c_str (db_name args)) d = (True, HConnected, d1))"

lemma main_start_configured:
  fixes W :: "('h, 'db, 'd) world"
  assumes "configured W argv d" and "rc_calloc (w_pool W)"
  obtains p k l conf args d2 where "thread_pool_init (w_pool W) Map.empty 0 0 = Inr (p, k)"
    and "getconfig conf = Inr args"
    and "main_start W argv sn t d = Inr (Serving l \<lparr>base = w_base W, listener = w_bind W\<rparr>
      \<lparr>net = (empty_net :: 'b net), dms = (UserEventHandler_new (w_handler W) DispatchMsgService_new)\<lparr>svr_exit := Some False, dms_tp := p\<rparr>,
       hs = \<lparr>m2c = Map.empty, ini = conf, segno = sn, now = t, db = d2\<rparr>\<rparr>)"
proof -
  obtain ini args d1 where c: "3 \<le> length argv" "w_conf W (argv ! 2) = None"
    "ini_load (w_ini W) (c_str (argv ! 1)) = Some ini"
    "getconfig (snd (loadfile (w_ini W) (argv ! 1) Iniconfig_new)) = Inr args"
    "MySqlConnection_Init (my (w_env W)) (c_str (db_ip args)) (db_port args)
          (c_str (db_user args)) (c_str (db_pwd args)) (c_str (db_name args)) d = (True, HConnected, d1)"
    using assms(1) unfolding configured_def by blast
  let ?conf = "snd (loadfile (w_ini W) (argv ! 1) Iniconfig_new)"
  let ?l = "Logger_instance\<lparr>root_category := True\<rparr>"
  let ?start = "main_start W argv sn t d :: ('b, 'h, 'db) started res"
  have lf: "fst (loadfile (w_ini W) (argv ! 1) Iniconfig_new)"
    using loadfile_success [of "w_ini W" "argv ! 1" Iniconfig_new] c(3) by simp
  have li: "Logger_init (w_conf W) (argv ! 2) Logger_instance = (True, ?l)"
    using c(2) by (simp add: Logger_init_def)
  have m: "?start = bring_up W ?l ?conf sn t d"
    unfolding main_start_def Iniconfig_getInstance_def option.case li Let_def prod.case
    using c(1) lf by (simp add: split_beta)
  show thesis
    using bring_up_eq [where 'b = 'b, OF assms(2) c(4) _ c(5), where l = ?l and sn = sn and t = t] m that [OF _ c(4)]
    by auto
qed

text \<open>
  C17. The start of the server in full: a missing argument, a logging configuration or an ini file
  that cannot be loaded and a database that cannot be reached end it with -1, -2, -3 and -4, in
  this order; otherwise it serves, whether or not the pool was created and the port bound.
\<close>

theorem main_outcome:
  fixes W :: "('h, 'db, 'd) world"
  assumes "rc_calloc (w_pool W)"
  shows "\<exists>r :: ('b, 'h, 'db) started. main_start W argv sn t d = Inr r \<and>
    (case r of
      Exit k \<Rightarrow> \<not> configured W argv d \<and> k =
        (if length argv < 3 then -1 else if w_conf W (argv ! 2) \<noteq> None then -2
         else if ini_load (w_ini W) (c_str (argv ! 1)) = None then -3 else -4)
    | Serving l i s \<Rightarrow> configured W argv d \<and> listener i = w_bind W \<and>
        (\<exists>k. thread_pool_init (w_pool W) Map.empty 0 0 = Inr (dms_tp (dms s), k)))"
proof (cases "configured W argv d")
  case True
  obtain p k l conf args d2 where m: "thread_pool_init (w_pool W) Map.empty 0 0 = Inr (p, k)"
    "main_start W argv sn t d = Inr (Serving l \<lparr>base = w_base W, listener = w_bind W\<rparr>
      \<lparr>net = (empty_net :: 'b net), dms = (UserEventHandler_new (w_handler W) DispatchMsgService_new)\<lparr>svr_exit := Some False, dms_tp := p\<rparr>,
       hs = \<lparr>m2c = Map.empty, ini = conf, segno = sn, now = t, db = d2\<rparr>\<rparr>)"
    by (rule main_start_configured [where 'b = 'b, OF True assms, of sn t]) metis
  then show ?thesis using True by simp
next
  case False
  show ?thesis
  proof (cases "length argv < 3 \<or> w_conf W (argv ! 2) \<noteq> None \<or> ini_load (w_ini W) (c_str (argv ! 1)) = None")
    case True
    have "ini_load (w_ini W) (c_str (argv ! 1)) = None \<Longrightarrow> fst (loadfile (w_ini W) (argv ! 1) Iniconfig_new) = False"
      using loadfile_success by blast
    then show ?thesis
      using True False
      by (auto simp: main_start_def Logger_init_def Let_def Iniconfig_getInstance_def GetLogger_def split_beta
          split: option.splits)
  next
    case ok: False
    then obtain ini where i: "ini_load (w_ini W) (c_str (argv ! 1)) = Some ini" by auto
    obtain args where a: "getconfig (snd (loadfile (w_ini W) (argv ! 1) Iniconfig_new)) = Inr args"
      using getconfig_loadfile [OF i] by blast
    let ?init = "MySqlConnection_Init (my (w_env W)) (c_str (db_ip args)) (db_port args)
          (c_str (db_user args)) (c_str (db_pwd args)) (c_str (db_name args)) d"
    have "\<not> (\<exists>d1. ?init = (True, HConnected, d1))"
      using False ok i a unfolding configured_def by auto
    then obtain h d' where n: "?init = (False, h, d')"
      by (metis MySqlConnection_Init_cases)
    have lf: "fst (loadfile (w_ini W) (argv ! 1) Iniconfig_new)"
      using loadfile_success i by blast
    have "main_start W argv sn t d = (Inr (Exit (-4)) :: ('b, 'h, 'db) started res)"
      using ok lf a n
      by (simp add: main_start_def bring_up_def Logger_init_def Let_def Iniconfig_getInstance_def GetLogger_def split_beta)
    then show ?thesis using ok False by simp
  qed
qed

text \<open>
  A start in which every call succeeds reaches the initial states of the server: the pool is
  open and empty, the user handler subscribed to both requests, the configuration loaded.
\<close>

theorem main_serves:
  fixes W :: "('h, 'db, 'd) world"
  assumes "configured W argv d" and "rc_calloc (w_pool W)"
    and "thread_pool_init (w_pool W) Map.empty 0 0 = Inr (Some p :: iEvent thread_pool option, k)"
  shows "\<exists>l (s :: ('b, 'h, 'db) srv). main_start W argv sn t d = Inr (Serving l \<lparr>base = w_base W, listener = w_bind W\<rparr> s) \<and>
    sinit \<lparr>srv = s, running = []\<rparr> \<and> uh_ready (hs s) \<and> sreach V E any \<lparr>srv = s, running = []\<rparr>"
proof -
  obtain l conf args d2 where m: "getconfig conf = Inr args"
    "main_start W argv sn t d = Inr (Serving l \<lparr>base = w_base W, listener = w_bind W\<rparr>
      \<lparr>net = (empty_net :: 'b net), dms = (UserEventHandler_new (w_handler W) DispatchMsgService_new)\<lparr>svr_exit := Some False, dms_tp := Some p\<rparr>,
       hs = \<lparr>m2c = Map.empty, ini = conf, segno = sn, now = t, db = d2\<rparr>\<rparr>)"
    by (rule main_start_configured [where 'b = 'b, OF assms(1,2), of sn t]) (use assms(3) in auto)
  have "p = fresh_pool" using thread_pool_init_fresh [OF assms(3)] by simp
  then have "sinit \<lparr>srv = \<lparr>net = empty_net, dms = (UserEventHandler_new (w_handler W) DispatchMsgService_new)
       \<lparr>svr_exit := Some False, dms_tp := Some p\<rparr>,
       hs = \<lparr>m2c = Map.empty, ini = conf, segno = sn, now = t, db = d2\<rparr>\<rparr>, running = []\<rparr>"
    using fresh_pool_holds [where 'a = iEvent]
    by (simp add: sinit_def empty_net_def handlers_ready_def UserEventHandler_new_def DispatchMsgService_new_def
        subscribe_def handlers_of_def)
  then show ?thesis
    using m by (auto simp: uh_ready_def intro: sreach_init)
qed

text \<open>
  A failed thread pool or a port that cannot be bound is not noticed: the server goes into its
  loop without workers, or without a listener, and without a pool the first request that is posted
  goes through the null pointer.
\<close>

theorem startup_failures_ignored:
  fixes W :: "('h, 'db, 'd) world"
  assumes "configured W argv d" and "rc_calloc (w_pool W)"
    and "thread_pool_init (w_pool W) Map.empty 0 0 = Inr (None :: iEvent thread_pool option, k)" and "\<not> w_bind W"
  shows "\<exists>l i (s :: ('b, 'h, 'db) srv). main_start W argv sn t d = Inr (Serving l i s) \<and> \<not> listener i \<and> dms_tp (dms s) = None \<and>
    (\<forall>ev. dms_enqueue c lk sg (Some ev) (dms s) = Inl NullDeref)"
proof -
  obtain l conf args d2 where m:
    "main_start W argv sn t d = Inr (Serving l \<lparr>base = w_base W, listener = w_bind W\<rparr>
      \<lparr>net = (empty_net :: 'b net), dms = (UserEventHandler_new (w_handler W) DispatchMsgService_new)\<lparr>svr_exit := Some False, dms_tp := None\<rparr>,
       hs = \<lparr>m2c = Map.empty, ini = conf, segno = sn, now = t, db = d2\<rparr>\<rparr>)"
    by (rule main_start_configured [where 'b = 'b, OF assms(1,2), of sn t]) (use assms(3) in auto)
  then show ?thesis
    using assms(4) by (simp add: dms_enqueue_def)
qed

subsection \<open>Witnesses\<close>

definition demo_world :: "init_rc \<Rightarrow> bool \<Rightarrow> (nat, string list \<times> nat, (string \<times> i32) list) world" where
  "demo_world rc bind = \<lparr>w_conf = (\<lambda>_. None), w_ini = alist_ini [], w_env = demo_env, w_mutex = 0,
     w_pool = rc, w_base = True, w_bind = bind, w_handler = 3\<rparr>"

lemma demo_world_configured: "configured (demo_world rc bind) [''shbk'', ''a.ini'', ''b.conf''] d"
proof -
  have "ini_load (alist_ini []) (c_str ''a.ini'') = Some []" by (simp add: alist_ini_def)
  from getconfig_loadfile [OF this, of Iniconfig_new] show ?thesis
    by (simp add: configured_def demo_world_def MySqlConnection_Init_def alist_ini_def)
qed

theorem main_outcome_witness:
  "\<exists>r. main_start (demo_world rc_success True) [''shbk''] 0 0 ([], 0) = Inr r \<and>
    (case r of
      Exit k \<Rightarrow> \<not> configured (demo_world rc_success True) [''shbk''] ([], 0) \<and> k =
        (if length [''shbk''] < 3 then -1 else if w_conf (demo_world rc_success True) ([''shbk''] ! 2) \<noteq> None then -2
         else if ini_load (w_ini (demo_world rc_success True)) (c_str ([''shbk''] ! 1)) = None then -3 else -4)
    | Serving l i s \<Rightarrow> configured (demo_world rc_success True) [''shbk''] ([], 0) \<and>
        listener i = w_bind (demo_world rc_success True) \<and>
        (\<exists>k. thread_pool_init (w_pool (demo_world rc_success True)) Map.empty 0 0 = Inr (dms_tp (dms s), k)))"
  by (rule main_outcome) (simp add: demo_world_def rc_success_def)

theorem main_serves_witness:
  "\<exists>l s. main_start (demo_world rc_success True) [''shbk'', ''a.ini'', ''b.conf''] 0 0 ([], 0) =
      Inr (Serving l \<lparr>base = w_base (demo_world rc_success True), listener = w_bind (demo_world rc_success True)\<rparr> s) \<and>
    sinit \<lparr>srv = s, running = []\<rparr> \<and> uh_ready (hs s) \<and> sreach demo_V demo_env False \<lparr>srv = s, running = []\<rparr>"
  by (rule main_serves [where p = fresh_pool and k = 4])
    (simp_all add: demo_world_configured, simp_all add: demo_world_def rc_success_pool, simp add: rc_success_def)

theorem startup_failures_ignored_witness:
  "\<exists>l i (s :: (bytes \<times> bytes, nat, string list \<times> nat) srv).
    main_start (demo_world (rc_success\<lparr>rc_attr_init := 12\<rparr>) False) [''shbk'', ''a.ini'', ''b.conf''] 0 0 ([], 0) =
      Inr (Serving l i s) \<and> \<not> listener i \<and> dms_tp (dms s) = None \<and>
    (\<forall>ev. dms_enqueue True 0 0 (Some ev) (dms s) = Inl NullDeref)"
  by (rule startup_failures_ignored [where k = 0])
    (simp_all add: demo_world_configured, simp_all add: demo_world_def rc_success_def thread_pool_init_def Let_def
      thread_mutex_create_def thread_cond_create_def)

end
