(* ===== verification/StringUtil.thy ===== *)
theory StringUtil
  imports Prelude
begin

text \<open>
  \<^verbatim>\<open>src/git/log4cpp/src/StringUtil.cpp\<close> and \<^verbatim>\<open>StringUtil.hh\<close>: formatting into a growing buffer,
  trimming and splitting, over the searches of \<open>std::string\<close> they use; positions are \<open>nat\<close> and
  \<open>npos\<close> is \<open>None\<close>.
\<close>

subsection \<open>Searches of std::string\<close>

fun find_char :: "char \<Rightarrow> string \<Rightarrow> nat option" where
  "find_char c [] = None"
| "find_char c (x # xs) = (if x = c then Some 0 else map_option Suc (find_char c xs))"

definition find_from :: "char \<Rightarrow> nat \<Rightarrow> string \<Rightarrow> nat option" where
  "find_from c left s = map_option ((+) left) (find_char c (drop left s))"

fun find_str :: "string \<Rightarrow> string \<Rightarrow> nat option" where
  "find_str pat [] = (if pat = [] then Some 0 else None)"
| "find_str pat (x # xs) =
     (if take (length pat) (x # xs) = pat then Some 0 else map_option Suc (find_str pat xs))"

definition find_str_from :: "string \<Rightarrow> nat \<Rightarrow> string \<Rightarrow> nat option" where
  "find_str_from pat left s = map_option ((+) left) (find_str pat (drop left s))"

text \<open>\<open>find_last_of\<close> and \<open>rfind\<close> of one character; \<open>rfind\<close> looks at the positions up to \<open>pos\<close>.\<close>

definition find_last :: "char \<Rightarrow> string \<Rightarrow> nat option" where
  "find_last c s = map_option (\<lambda>k. length s - 1 - k) (find_char c (rev s))"

definition rfind :: "char \<Rightarrow> nat \<Rightarrow> string \<Rightarrow> nat option" where
  "rfind c pos s = find_last c (take (pos + 1) s)"

lemma find_char_Some:
  "find_char c s = Some k \<Longrightarrow> k < length s \<and> s ! k = c \<and> c \<notin> set (take k s)"
  by (induction c s arbitrary: k rule: find_char.induct) (auto split: if_splits)

lemma find_char_None: "find_char c s = None \<longleftrightarrow> c \<notin> set s"
  by (induction c s rule: find_char.induct) auto

lemma find_char_split:
  assumes "find_char c s = Some k"
  shows "s = take k s @ c # drop (Suc k) s"
  using find_char_Some [OF assms] id_take_nth_drop by metis

lemma find_char_append: "c \<notin> set xs \<Longrightarrow> find_char c (xs @ c # ys) = Some (length xs)"
  by (induction xs) auto

lemma find_last_None: "find_last c s = None \<longleftrightarrow> c \<notin> set s"
  by (simp add: find_last_def find_char_None)

lemma find_last_Some:
  assumes "find_last c s = Some k"
  shows "k < length s" and "s ! k = c" and "c \<notin> set (drop (Suc k) s)"
proof -
  obtain j where j: "find_char c (rev s) = Some j" "k = length s - 1 - j"
    using assms by (auto simp: find_last_def)
  note F = find_char_Some [OF j(1)]
  show k: "k < length s" using F j(2) by auto
  show "s ! k = c" using F j(2) rev_nth [of j s] by simp
  have "take j (rev s) = rev (drop (Suc k) s)"
    using F j(2) by (simp add: rev_drop)
  then show "c \<notin> set (drop (Suc k) s)" using F by (metis set_rev)
qed

lemma find_last_append: "c \<notin> set ys \<Longrightarrow> find_last c (xs @ c # ys) = Some (length xs)"
  by (simp add: find_last_def find_char_append)

lemma find_from_ge: "find_from c left s = Some r \<Longrightarrow> left \<le> r \<and> r < length s"
  using find_char_Some [of c "drop left s" "r - left"] by (auto simp: find_from_def)

lemma find_str_Some: "find_str pat s = Some k \<Longrightarrow> k + length pat \<le> length s \<and> take (length pat) (drop k s) = pat"
proof (induction pat s arbitrary: k rule: find_str.induct)
  case (2 pat x xs)
  show ?case
  proof (cases "take (length pat) (x # xs) = pat")
    case True
    then have "length pat \<le> length (x # xs)" by (metis length_take min.cobounded1 linorder_not_le min.absorb4 order_less_imp_le)
    then show ?thesis using 2(2) True by simp
  next
    case False
    then show ?thesis using 2 by auto
  qed
qed (auto split: if_splits)

lemma find_str_from_bound:
  assumes "find_str_from pat left s = Some r"
  shows "left \<le> r" and "r + length pat \<le> length s \<or> pat = []"
proof -
  obtain k where k: "find_str pat (drop left s) = Some k" "r = left + k"
    using assms by (auto simp: find_str_from_def)
  show "left \<le> r" using k by simp
  show "r + length pat \<le> length s \<or> pat = []"
    using find_str_Some [OF k(1)] k(2) by (cases pat) auto
qed

subsection \<open>Formatting\<close>

text \<open>
  \<open>vsn sz\<close> is \<open>VSNPRINTF\<close> on a buffer of \<open>sz\<close> bytes: its result and the C string it leaves. The
  loop of \<open>vform\<close> may not end; the doubled sz is a \<open>size_t\<close>.
\<close>

partial_function (option) vform_loop :: "(nat \<Rightarrow> int \<times> string) \<Rightarrow> nat \<Rightarrow> string option" where
  "vform_loop vsn sz =
     (let n = fst (vsn sz) in
      if n > -1 \<and> n < int sz then Some (snd (vsn sz))
      else vform_loop vsn (if n > -1 then nat n + 1 else sz * 2 mod 2 ^ 64))"

definition vform :: "(nat \<Rightarrow> int \<times> string) \<Rightarrow> string option" where
  "vform vsn = vform_loop vsn 1024"

subsection \<open>Trimming and splitting\<close>

definition whiteSpace :: "char set" where
  "whiteSpace = {CHR '' '', CHR 0x09, CHR 0x0D, CHR 0x0A}"

lemma whiteSpace_code [simp]: "c \<in> whiteSpace \<longleftrightarrow> c = CHR '' '' \<or> c = CHR 0x09 \<or> c = CHR 0x0D \<or> c = CHR 0x0A"
  by (simp add: whiteSpace_def)

fun find_first_not_of :: "char set \<Rightarrow> string \<Rightarrow> nat option" where
  "find_first_not_of W [] = None"
| "find_first_not_of W (x # xs) = (if x \<notin> W then Some 0 else map_option Suc (find_first_not_of W xs))"

definition find_last_not_of :: "char set \<Rightarrow> string \<Rightarrow> nat option" where
  "find_last_not_of W s = map_option (\<lambda>k. length s - 1 - k) (find_first_not_of W (rev s))"

definition trim :: "string \<Rightarrow> string" where
  "trim s = (if s = [] then s
     else case find_first_not_of whiteSpace s of
       None \<Rightarrow> []
     | Some b \<Rightarrow> (case find_last_not_of whiteSpace s of
         None \<Rightarrow> drop b s
       | Some e \<Rightarrow> take (e - b + 1) (drop b s)))"

text \<open>
  The segments and the returned count. The last segment is what is left when the count reaches
  \<open>maxSegments\<close> or no delimiter follows.
\<close>

function split_loop :: "string \<Rightarrow> char \<Rightarrow> nat \<Rightarrow> nat \<Rightarrow> nat \<Rightarrow> string list \<times> nat" where
  "split_loop s d maxSegments i left =
     (if i < maxSegments then
        (case find_from d left s of
           None \<Rightarrow> ([drop left s], i)
         | Some right \<Rightarrow>
             (let (v, n) = split_loop s d maxSegments (i + 1) (right + 1)
              in (take (right - left) (drop left s) # v, n)))
      else ([drop left s], i))"
  by pat_completeness auto
termination
  by (relation "measure (\<lambda>(s, d, m, i, left). m - i)") auto

declare split_loop.simps [simp del]

definition split :: "string \<Rightarrow> char \<Rightarrow> nat \<Rightarrow> string list \<times> nat" where
  "split s delimiter maxSegments = split_loop s delimiter maxSegments 1 0"

definition INT_MAX :: nat where
  "INT_MAX = 2147483647"

subsection \<open>Specifications\<close>

text \<open>
  What \<open>VSNPRINTF\<close> documents: the text if it fits, otherwise its length (ISO C99) or -1 (older C
  libraries).
\<close>

definition vsn_ok :: "(nat \<Rightarrow> int \<times> string) \<Rightarrow> string \<Rightarrow> bool" where
  "vsn_ok vsn s \<longleftrightarrow> (\<forall>sz. if length s < sz then vsn sz = (int (length s), s)
      else fst (vsn sz) = int (length s) \<or> fst (vsn sz) = -1)"

lemma vform_loop_fits:
  assumes "vsn_ok vsn s" and "length s < sz"
  shows "vform_loop vsn sz = Some s"
proof -
  have "vsn sz = (int (length s), s)" using assms unfolding vsn_ok_def by metis
  then show ?thesis using assms(2) by (subst vform_loop.simps) simp
qed

lemma vform_loop_grows:
  assumes "vsn_ok vsn s" and "length s < 2 ^ k * sz" and "length s < 2 ^ 62" and "0 < sz"
  shows "vform_loop vsn sz = Some s"
  using assms(2,4)
proof (induction k arbitrary: sz)
  case 0
  then show ?case using vform_loop_fits [OF assms(1)] by simp
next
  case (Suc k)
  show ?case
  proof (cases "length s < sz")
    case True
    then show ?thesis by (rule vform_loop_fits [OF assms(1)])
  next
    case False
    then have n: "fst (vsn sz) = int (length s) \<or> fst (vsn sz) = -1"
      using assms(1) unfolding vsn_ok_def by metis
    have m: "sz * 2 mod 2 ^ 64 = sz * 2" using False assms(3) by (intro mod_less) simp
    from n show ?thesis
    proof
      assume "fst (vsn sz) = int (length s)"
      then have "vform_loop vsn sz = vform_loop vsn (length s + 1)"
        using False by (subst vform_loop.simps) simp
      then show ?thesis using vform_loop_fits [OF assms(1), of "length s + 1"] by simp
    next
      assume "fst (vsn sz) = -1"
      then have "vform_loop vsn sz = vform_loop vsn (sz * 2)"
        using m by (subst vform_loop.simps) simp
      moreover have "vform_loop vsn (sz * 2) = Some s" using Suc.prems by (intro Suc.IH) simp_all
      ultimately show ?thesis by simp
    qed
  qed
qed

text \<open>
  The formatting loop ends and gives the whole text, whether the C library reports the space it
  needs or only that it failed.
\<close>

theorem vform_complete:
  assumes "vsn_ok vsn s" and "length s < 2 ^ 62"
  shows "vform vsn = Some s"
  unfolding vform_def
proof (rule vform_loop_grows [OF assms(1) _ assms(2)])
  show "length s < 2 ^ 62 * 1024" using assms(2) by simp
qed simp

text \<open>A library of the old kind, on a text of 5000 characters.\<close>

theorem vform_complete_witness:
  "vform (\<lambda>sz. if 5000 < sz then (5000, replicate 5000 CHR ''x'') else (-1, [])) = Some (replicate 5000 CHR ''x'')"
  by (rule vform_complete) (simp_all add: vsn_ok_def)

text \<open>Joining segments with the delimiter between them.\<close>

fun join_with :: "char \<Rightarrow> string list \<Rightarrow> string" where
  "join_with d [] = []"
| "join_with d [x] = x"
| "join_with d (x # y # xs) = x @ d # join_with d (y # xs)"

lemma join_with_Cons: "v \<noteq> [] \<Longrightarrow> join_with d (x # v) = x @ d # join_with d v"
  by (cases v) simp_all

lemma split_loop_spec:
  assumes "split_loop s d m i left = (v, n)" and "1 \<le> i"
  shows "join_with d v = drop left s \<and> v \<noteq> [] \<and> n + 1 = i + length v \<and> n \<le> max i m \<and>
    (\<forall>x \<in> set (butlast v). d \<notin> set x) \<and> (n < m \<longrightarrow> d \<notin> set (last v))"
  using assms
proof (induction s d m i left arbitrary: v n rule: split_loop.induct)
  case (1 s d m i left)
  show ?case
  proof (cases "i < m")
    case False
    then have "v = [drop left s]" "n = i" using 1(2) by (simp_all add: split_loop.simps [of s d m i left])
    then show ?thesis using False by simp
  next
    case True
    show ?thesis
    proof (cases "find_from d left s")
      case None
      then have "v = [drop left s]" "n = i" using 1(2) True by (simp_all add: split_loop.simps [of s d m i left])
      then show ?thesis using None by (simp add: find_from_def find_char_None)
    next
      case (Some right)
      obtain w k where w: "split_loop s d m (i + 1) (right + 1) = (w, k)" by force
      have v: "v = take (right - left) (drop left s) # w" "n = k"
        using 1(2) True Some w by (simp_all add: split_loop.simps [of s d m i left])
      note IH = 1(1) [OF True Some w]
      obtain j where j: "find_char d (drop left s) = Some j" "right = left + j"
        using Some by (auto simp: find_from_def)
      have s: "drop left s = take j (drop left s) @ d # drop (right + 1) s" and nd: "d \<notin> set (take j (drop left s))"
        using find_char_split [OF j(1)] find_char_Some [OF j(1)] j(2) by (simp_all add: add.commute)
      have "join_with d v = drop left s"
        using IH s v(1) j(2) by (simp add: join_with_Cons)
      then show ?thesis using IH v nd j(2) True by simp
    qed
  qed
qed

text \<open>
  Splitting loses nothing: joining the segments with the delimiter gives the string back, the
  returned number is that of the segments and at most the given maximum (if that is not 0), only the
  last segment can contain the delimiter, and only when the maximum was reached.
\<close>

theorem split_join:
  assumes "split s d m = (v, n)"
  shows "join_with d v = s \<and> length v = n \<and> (0 < m \<longrightarrow> n \<le> m) \<and>
    (\<forall>x \<in> set (butlast v). d \<notin> set x) \<and> (n < m \<longrightarrow> d \<notin> set (last v))"
  using split_loop_spec [OF assms [unfolded split_def]] by (auto simp: max_def)

theorem split_join_witness:
  "join_with CHR ''.'' [''a'', ''b'', ''c''] = ''a.b.c'' \<and> length [''a'', ''b'', ''c''] = (3 :: nat) \<and>
    (0 < INT_MAX \<longrightarrow> 3 \<le> INT_MAX) \<and>
    (\<forall>x \<in> set (butlast [''a'', ''b'', ''c'']). CHR ''.'' \<notin> set x) \<and>
    (3 < INT_MAX \<longrightarrow> CHR ''.'' \<notin> set (last [''a'', ''b'', ''c'']))"
  by (rule split_join) (simp add: split_def split_loop.simps find_from_def INT_MAX_def)

lemma find_first_not_of_Some:
  "find_first_not_of W s = Some k \<Longrightarrow> k < length s \<and> s ! k \<notin> W \<and> set (take k s) \<subseteq> W"
  by (induction W s arbitrary: k rule: find_first_not_of.induct) (auto split: if_splits)

lemma find_first_not_of_None: "find_first_not_of W s = None \<longleftrightarrow> set s \<subseteq> W"
  by (induction W s rule: find_first_not_of.induct) auto

text \<open>\<open>trim\<close> removes exactly the white space at both ends.\<close>

lemma dropWhile_first: "find_first_not_of W s = Some k \<Longrightarrow> drop k s = dropWhile (\<lambda>c. c \<in> W) s"
  by (induction W s arbitrary: k rule: find_first_not_of.induct) (auto split: if_splits)

lemma trim_eq:
  "trim s = rev (dropWhile (\<lambda>c. c \<in> whiteSpace) (rev (dropWhile (\<lambda>c. c \<in> whiteSpace) s)))"
proof (cases "find_first_not_of whiteSpace s")
  case None
  then have "set s \<subseteq> whiteSpace" by (simp only: find_first_not_of_None)
  then have "dropWhile (\<lambda>c. c \<in> whiteSpace) s = []" by (simp only: dropWhile_eq_Nil_conv) blast
  then show ?thesis using None unfolding trim_def by (simp only: rev.simps dropWhile.simps) simp
next
  case (Some b)
  have b: "b < length s" "s ! b \<notin> whiteSpace" using find_first_not_of_Some [OF Some] by simp_all
  have "\<not> set (rev s) \<subseteq> whiteSpace" using b by (metis nth_mem set_rev subsetD)
  then obtain j where j: "find_first_not_of whiteSpace (rev s) = Some j"
    using find_first_not_of_None [of whiteSpace "rev s"] by (cases "find_first_not_of whiteSpace (rev s)") simp_all
  have j1: "j < length s" "rev s ! j \<notin> whiteSpace" "set (take j (rev s)) \<subseteq> whiteSpace"
    using find_first_not_of_Some [OF j] by simp_all
  have le: "b \<le> length s - 1 - j"
  proof (rule ccontr)
    assume "\<not> b \<le> length s - 1 - j"
    then have "length s - 1 - b < j" using b(1) j1(1) by linarith
    then have "rev s ! (length s - 1 - b) \<in> set (take j (rev s))"
      using j1(1) by (metis in_set_conv_nth length_rev length_take min.absorb4 nth_take)
    moreover have "rev s ! (length s - 1 - b) = s ! b" using b(1) by (simp add: rev_nth)
    ultimately show False using j1(3) b(2) by (metis subsetD)
  qed
  have "find_first_not_of whiteSpace (rev (drop b s)) = Some j"
  proof -
    have r: "rev (drop b s) = take (length s - b) (rev s)" by (simp add: rev_drop)
    have jb: "j < length s - b" using le b(1) j1(1) by linarith
    have "find_first_not_of W xs = Some k \<Longrightarrow> k < n \<Longrightarrow> find_first_not_of W (take n xs) = Some k" for W xs k n
      by (induction W xs arbitrary: k n rule: find_first_not_of.induct)
        (auto simp: take_Cons' split: if_splits)
    from this [OF j jb] show ?thesis by (simp only: r)
  qed
  from dropWhile_first [OF this]
  have "dropWhile (\<lambda>c. c \<in> whiteSpace) (rev (drop b s)) = drop j (rev (drop b s))" by simp
  moreover have "rev (drop j (rev (drop b s))) = take (length s - 1 - j - b + 1) (drop b s)"
  proof -
    have "length s - b - j = length s - 1 - j - b + 1" using le b(1) j1(1) by linarith
    then show ?thesis by (simp add: drop_rev)
  qed
  ultimately show ?thesis
    using Some j b(1) dropWhile_first [OF Some] by (auto simp: trim_def find_last_not_of_def)
qed

end
