(* ===== verification/CNumbers.thy ===== *)
theory CNumbers
  imports Prelude
begin

text \<open>
  The number readers of the C and C++ libraries that the logging code calls: \<open>strtoul\<close>, \<open>atoi\<close> and
  \<open>operator>>\<close> on integers.
\<close>

subsection \<open>Digits\<close>

definition is_digit :: "char \<Rightarrow> bool" where
  "is_digit c \<longleftrightarrow> 48 \<le> (of_char c :: nat) \<and> (of_char c :: nat) \<le> 57"

definition digit_val :: "char \<Rightarrow> nat" where
  "digit_val c = of_char c - 48"

definition is_space :: "char \<Rightarrow> bool" where
  "is_space c \<longleftrightarrow> c = CHR '' '' \<or> (9 \<le> (of_char c :: nat) \<and> (of_char c :: nat) \<le> 13)"

fun read_digits :: "string \<Rightarrow> nat \<Rightarrow> nat \<times> string" where
  "read_digits [] acc = (acc, [])"
| "read_digits (c # cs) acc = (if is_digit c then read_digits cs (10 * acc + digit_val c) else (acc, c # cs))"

lemma read_digits_length: "length (snd (read_digits s acc)) \<le> length s"
  by (induction s acc rule: read_digits.induct) auto

lemma digit_char: "n < 10 \<Longrightarrow> is_digit (char_of (48 + n :: nat)) \<and> digit_val (char_of (48 + n :: nat)) = n"
  by (simp add: is_digit_def digit_val_def)

lemma digits_of_ne [simp]: "digits_of n \<noteq> []"
  by (subst digits_of.simps) simp

lemma digits_of_digit: "c \<in> set (digits_of n) \<Longrightarrow> is_digit c"
proof (induction n rule: digits_of.induct)
  case (1 n)
  show ?case
  proof (cases "n < 10")
    case True
    then show ?thesis using 1(2) digit_char [of n] by (subst (asm) digits_of.simps) simp
  next
    case False
    then show ?thesis
      using 1 digit_char [of "n mod 10"] by (subst (asm) (2) digits_of.simps) auto
  qed
qed

lemma read_digits_append:
  "read_digits (digits_of n @ s) acc = read_digits s (acc * 10 ^ length (digits_of n) + n)"
proof (induction n arbitrary: s acc rule: digits_of.induct)
  case (1 n)
  show ?case
  proof (cases "n < 10")
    case True
    then have "digits_of n = [char_of (48 + n)]" by (subst digits_of.simps) simp
    then show ?thesis using digit_char [OF True] by (simp add: mult.commute)
  next
    case False
    then have d: "digits_of n = digits_of (n div 10) @ [char_of (48 + n mod 10)]" by (subst digits_of.simps) simp
    have "read_digits (digits_of n @ s) acc = read_digits (char_of (48 + n mod 10) # s) (acc * 10 ^ length (digits_of (n div 10)) + n div 10)"
      using 1 [OF False] by (simp add: d)
    also have "\<dots> = read_digits s (10 * (acc * 10 ^ length (digits_of (n div 10)) + n div 10) + n mod 10)"
      using digit_char [of "n mod 10"] by simp
    also have "10 * (acc * 10 ^ length (digits_of (n div 10)) + n div 10) + n mod 10 = acc * 10 ^ length (digits_of n) + n"
      by (simp add: d algebra_simps)
    finally show ?thesis .
  qed
qed

lemma read_digits_of [simp]: "read_digits (digits_of n) 0 = (n, [])"
  using read_digits_append [of n "[]" 0] by simp

lemma digits_of_length: "n < 10 ^ Suc k \<Longrightarrow> length (digits_of n) \<le> Suc k"
proof (induction k arbitrary: n)
  case 0
  then show ?case by (subst digits_of.simps) simp
next
  case (Suc k)
  show ?case
  proof (cases "n < 10")
    case True
    then show ?thesis by (subst digits_of.simps) simp
  next
    case False
    have "n div 10 < 10 ^ Suc k" using Suc.prems by (simp add: less_mult_imp_div_less)
    then show ?thesis using Suc.IH [of "n div 10"] False by (subst digits_of.simps) simp
  qed
qed

lemma digits_not_sign:
  assumes "is_digit c"
  shows "c \<noteq> CHR ''-''" and "c \<noteq> CHR ''+''" and "\<not> is_space c"
  using assms by (auto simp: is_digit_def is_space_def)

subsection \<open>strtoul and atoi\<close>

definition sign_of :: "string \<Rightarrow> bool \<times> string" where
  "sign_of s = (case s of [] \<Rightarrow> (False, [])
     | c # r \<Rightarrow> (if c = CHR ''-'' then (True, r) else if c = CHR ''+'' then (False, r) else (False, s)))"

text \<open>The value and what follows the number; without a number \<open>endPointer\<close> is the string itself.\<close>

definition strtoul10 :: "string \<Rightarrow> u64 \<times> string" where
  "strtoul10 s =
     (let (neg, r) = sign_of (dropWhile is_space s) in
      if r = [] \<or> \<not> is_digit (hd r) then (0, s)
      else
        (let (n, rest) = read_digits r 0 in
         (if 2 ^ 64 \<le> n then - 1 else if neg then - word_of_nat n else word_of_nat n, rest)))"

text \<open>\<open>atoi\<close> is \<open>(int) strtol(s, NULL, 10)\<close>, which saturates at the bounds of \<open>long\<close>.\<close>

definition atoi :: "string \<Rightarrow> i32" where
  "atoi s =
     (let (neg, r) = sign_of (dropWhile is_space s);
          n = (if r = [] \<or> \<not> is_digit (hd r) then 0 else fst (read_digits r 0));
          v = (if neg then max (- (2 ^ 63)) (- int n) else min (2 ^ 63 - 1) (int n))
      in word_of_int v)"

lemma sign_of_digits: "sign_of (digits_of n) = (False, digits_of n)"
proof -
  obtain c r where d: "digits_of n = c # r" by (cases "digits_of n") simp_all
  have "is_digit c" using digits_of_digit [of c n] by (simp add: d)
  then show ?thesis using digits_not_sign [of c] by (simp add: d sign_of_def)
qed

lemma dropWhile_digits: "dropWhile is_space (digits_of n) = digits_of n"
proof -
  obtain c r where d: "digits_of n = c # r" by (cases "digits_of n") simp_all
  have "is_digit c" using digits_of_digit [of c n] by (simp add: d)
  then show ?thesis using digits_not_sign [of c] by (simp add: d)
qed

lemma hd_digits: "is_digit (hd (digits_of n))"
  using digits_of_digit [of "hd (digits_of n)" n] by simp

lemma strtoul10_digits: "n < 2 ^ 64 \<Longrightarrow> strtoul10 (digits_of n) = (word_of_nat n, [])"
  by (simp add: strtoul10_def dropWhile_digits sign_of_digits hd_digits)

lemma atoi_digits: "n < 2 ^ 31 \<Longrightarrow> atoi (digits_of n) = word_of_nat n"
  by (simp add: atoi_def dropWhile_digits sign_of_digits hd_digits min_def)

subsection \<open>Extraction from a stream\<close>

text \<open>
  \<open>in >> v\<close> for an \<open>int\<close>, a \<open>size_t\<close> and an \<open>unsigned int\<close>, on the characters left in a stream that is in a good state:
  the value stored, the characters left and whether the extraction failed. A value out of range is
  replaced by the nearest bound and fails.
\<close>

definition extract_int :: "string \<Rightarrow> int \<times> string \<times> bool" where
  "extract_int s =
     (let (neg, r) = sign_of (dropWhile is_space s); (n, rest) = read_digits r 0;
          v = (if neg then - int n else int n) in
      if r = [] \<or> \<not> is_digit (hd r) then (0, r, True)
      else if v < - (2 ^ 31) then (- (2 ^ 31), rest, True)
      else if 2 ^ 31 \<le> v then (2 ^ 31 - 1, rest, True)
      else (v, rest, False))"

definition extract_size :: "string \<Rightarrow> u64 \<times> string \<times> bool" where
  "extract_size s =
     (let (neg, r) = sign_of (dropWhile is_space s); (n, rest) = read_digits r 0 in
      if r = [] \<or> \<not> is_digit (hd r) then (0, r, True)
      else if 2 ^ 64 \<le> n then (- 1, rest, True)
      else (if neg then - word_of_nat n else word_of_nat n, rest, False))"

definition extract_u32 :: "string \<Rightarrow> u32 \<times> string \<times> bool" where
  "extract_u32 s =
     (let (neg, r) = sign_of (dropWhile is_space s); (n, rest) = read_digits r 0 in
      if r = [] \<or> \<not> is_digit (hd r) then (0, r, True)
      else if 2 ^ 32 \<le> n then (- 1, rest, True)
      else (if neg then - word_of_nat n else word_of_nat n, rest, False))"

lemma sign_of_length: "length (snd (sign_of s)) \<le> length s"
  by (auto simp: sign_of_def split: list.split)

lemma extract_length:
  "length (fst (snd (extract_int s))) \<le> length s"
  "length (fst (snd (extract_size s))) \<le> length s"
  "length (fst (snd (extract_u32 s))) \<le> length s"
proof -
  let ?r = "snd (sign_of (dropWhile is_space s))"
  have 1: "length ?r \<le> length s"
    using sign_of_length [of "dropWhile is_space s"] length_dropWhile_le [of is_space s] by (rule le_trans)
  have 2: "length (snd (read_digits ?r 0)) \<le> length s"
    using read_digits_length [of ?r 0] 1 by (rule le_trans)
  show "length (fst (snd (extract_int s))) \<le> length s"
    using 1 2 by (simp add: extract_int_def Let_def split_beta)
  show "length (fst (snd (extract_size s))) \<le> length s"
    using 1 2 by (simp add: extract_size_def Let_def split_beta)
  show "length (fst (snd (extract_u32 s))) \<le> length s"
    using 1 2 by (simp add: extract_u32_def Let_def split_beta)
qed

end
