(* ===== verification/LogPriority.thy ===== *)
theory LogPriority
  imports CNumbers
begin

text \<open>
  \<^verbatim>\<open>src/git/log4cpp/src/Priority.cpp\<close>: the importance of a log message as an \<open>int\<close>, with the names
  of the predefined levels.
\<close>

datatype PriorityLevel = EMERG | FATAL | ALERT | CRIT | ERROR | WARN | NOTICE | INFO | DEBUG | NOTSET

definition level :: "PriorityLevel \<Rightarrow> int" where
  "level p = (case p of EMERG \<Rightarrow> 0 | FATAL \<Rightarrow> 0 | ALERT \<Rightarrow> 100 | CRIT \<Rightarrow> 200 | ERROR \<Rightarrow> 300 | WARN \<Rightarrow> 400
     | NOTICE \<Rightarrow> 500 | INFO \<Rightarrow> 600 | DEBUG \<Rightarrow> 700 | NOTSET \<Rightarrow> 800)"

definition names :: "string list" where
  "names = [''FATAL'', ''ALERT'', ''CRIT'', ''ERROR'', ''WARN'', ''NOTICE'', ''INFO'', ''DEBUG'', ''NOTSET'',
     ''UNKNOWN'']"

definition MESSAGE_SIZE :: nat where
  "MESSAGE_SIZE = 8"

text \<open>A priority value is a C \<open>int\<close>.\<close>

definition is_int :: "int \<Rightarrow> bool" where
  "is_int v \<longleftrightarrow> - (2 ^ 31) \<le> v \<and> v < 2 ^ 31"

definition to_int :: "u64 \<Rightarrow> int" where
  "to_int w = sint (ucast w :: i32)"

text \<open>\<open>priority++\<close> overflows at the largest \<open>int\<close>; \<open>/\<close> truncates towards zero.\<close>

definition c_div :: "int \<Rightarrow> int \<Rightarrow> int" where
  "c_div a b = (if a < 0 then - ((- a) div b) else a div b)"

definition getPriorityName :: "int \<Rightarrow> string res" where
  "getPriorityName priority =
     (if priority = 2 ^ 31 - 1 then Inl SignedOverflow
      else
        (let p = c_div (priority + 1) 100
         in Inr (names ! (if p < 0 \<or> p > 8 then 8 else nat p))))"

text \<open>The loop over the ten names, from \<open>i\<close>; -1 when none is equal.\<close>

fun name_loop :: "string \<Rightarrow> string list \<Rightarrow> int \<Rightarrow> int" where
  "name_loop nm [] i = - 1"
| "name_loop nm (n # ns) i = (if nm = n then i * 100 else name_loop nm ns (i + 1))"

text \<open>The value, or the text of the \<open>invalid_argument\<close> thrown.\<close>

definition getPriorityValue :: "string \<Rightarrow> string + int" where
  "getPriorityValue priorityName =
     (let v = name_loop priorityName names 0 in
      if v = - 1 then
        (if priorityName = ''EMERG'' then Inr 0
         else
           (let (value, endPointer) = strtoul10 (c_str priorityName) in
            if endPointer \<noteq> [] then Inl (''unknown priority name: '' @ [CHR 0x27] @ priorityName @ [CHR 0x27])
            else Inr (to_int value)))
      else Inr v)"

subsection \<open>Properties\<close>

lemma name_loop_ge: "0 \<le> i \<Longrightarrow> name_loop nm ns i = - 1 \<or> 0 \<le> name_loop nm ns i"
  by (induction nm ns i rule: name_loop.induct) auto

lemma name_loop_notin: "nm \<notin> set ns \<Longrightarrow> name_loop nm ns i = - 1"
  by (induction nm ns i rule: name_loop.induct) auto

lemma names_not_digits:
  assumes "is_digit (hd nm)"
  shows "nm \<notin> set names" and "nm \<noteq> ''EMERG''"
  using assms by (auto simp: names_def is_digit_def)

lemma to_int_small: "n < 2 ^ 31 \<Longrightarrow> to_int (word_of_nat n) = int n"
proof -
  assume n: "n < 2 ^ 31"
  have "(ucast (word_of_nat n :: u64) :: i32) = word_of_nat n"
    by (rule bit_word_eqI) (simp add: bit_simps)
  then show ?thesis using n by (simp add: to_int_def signed_of_nat signed_take_bit_int_eq_self)
qed

lemma level_values: "level p \<in> {0, 100, 200, 300, 400, 500, 600, 700, 800}"
  by (cases p) (simp_all add: level_def)

lemma c_str_digits: "c_str (digits_of n) = digits_of n"
proof (rule c_str_id)
  show "CHR 0x00 \<notin> set (digits_of n)"
    using digits_of_digit [of "CHR 0x00" n] by (auto simp: is_digit_def)
qed

text \<open>Between two levels the name is already that of the next one for the last value.\<close>

lemma priority_name_early: "getPriorityName 699 = Inr ''DEBUG''" "getPriorityName 698 = Inr ''INFO''"
  by (simp_all add: getPriorityName_def c_div_def names_def)

text \<open>
  Names and values of priorities fit: the name of each level reads back as its value, and so does
  the decimal form of every number that an \<open>int\<close> can hold.
\<close>

theorem priority_roundtrip:
  "(\<exists>nm. getPriorityName (level p) = Inr nm \<and> getPriorityValue nm = Inr (level p)) \<and>
   (\<forall>n. n < 2 ^ 31 \<longrightarrow> getPriorityValue (digits_of n) = Inr (int n))"
proof
  show "\<exists>nm. getPriorityName (level p) = Inr nm \<and> getPriorityValue nm = Inr (level p)"
    by (cases p) (simp_all add: getPriorityName_def level_def c_div_def names_def getPriorityValue_def)
  show "\<forall>n. n < 2 ^ 31 \<longrightarrow> getPriorityValue (digits_of n) = Inr (int n)"
  proof (intro allI impI)
    fix n :: nat
    assume n: "n < 2 ^ 31"
    note N = names_not_digits [OF hd_digits [of n]]
    show "getPriorityValue (digits_of n) = Inr (int n)"
      using n N(2) name_loop_notin [OF N(1), of 0] strtoul10_digits [of n] to_int_small [OF n]
      by (simp add: getPriorityValue_def c_str_digits)
  qed
qed

theorem priority_roundtrip_witness:
  "getPriorityValue (digits_of 700) = Inr 700"
  using priority_roundtrip [of DEBUG] by simp

end
