(* ===== verification/Snprintf.thy ===== *)
theory Snprintf
  imports CNumbers
begin

text \<open>
  \<^verbatim>\<open>src/git/log4cpp/src/snprintf.c\<close>: \<open>portable_vsnprintf\<close>, as configured for log4cpp (none of the
  compatibility macros, no \<open>long long\<close>). Lengths and the position \<open>str_l\<close> are \<open>size_t\<close> of 64 bits
  and wrap as in the code.
\<close>

subsection \<open>Arguments\<close>

text \<open>
  The variable arguments with the types they were passed with; \<open>va_arg\<close> of another type, or of one
  more argument than there are, is undefined.
\<close>

datatype varg = VInt i32 | VLong u64 | VStr "string option" | VPtr u64

fun next_int :: "varg list \<Rightarrow> (i32 \<times> varg list) res" where
  "next_int (VInt w # args) = Inr (w, args)"
| "next_int _ = Inl BadCast"

fun next_long :: "varg list \<Rightarrow> (u64 \<times> varg list) res" where
  "next_long (VLong w # args) = Inr (w, args)"
| "next_long _ = Inl BadCast"

fun next_str :: "varg list \<Rightarrow> (string option \<times> varg list) res" where
  "next_str (VStr s # args) = Inr (s, args)"
| "next_str _ = Inl BadCast"

fun next_ptr :: "varg list \<Rightarrow> (u64 \<times> varg list) res" where
  "next_ptr (VPtr w # args) = Inr (w, args)"
| "next_ptr _ = Inl BadCast"

subsection \<open>Writing to the buffer\<close>

text \<open>
  \<open>str\<close> is the array of \<open>str_m\<close> characters, \<open>l\<close> the position \<open>str_l\<close>. \<open>copy_out\<close> is
  \<open>if (n > 0) { if (str_l < str_m) fast_memcpy(str+str_l, src, min(n, avail)); str_l += n; }\<close>, and
  \<open>fill_out\<close> the same with \<open>fast_memset\<close>.
\<close>

definition room :: "string \<Rightarrow> u64 \<Rightarrow> u64 \<Rightarrow> nat" where
  "room str l n =
     (let avail = word_of_nat (length str) - l in unat (if n > avail then avail else n))"

definition write_at :: "string \<Rightarrow> nat \<Rightarrow> string \<Rightarrow> string" where
  "write_at str i s = take i str @ s @ drop (i + length s) str"

definition copy_out :: "string \<Rightarrow> u64 \<Rightarrow> string \<Rightarrow> u64 \<Rightarrow> (string \<times> u64) res" where
  "copy_out src n str l =
     (if n > 0 then
        (if l < word_of_nat (length str) then
           (let k = room str l n in
            if k \<le> length src then Inr (write_at str (unat l) (take k src), l + n) else Inl OutOfBounds)
         else Inr (str, l + n))
      else Inr (str, l))"

definition fill_out :: "char \<Rightarrow> u64 \<Rightarrow> string \<Rightarrow> u64 \<Rightarrow> string \<times> u64" where
  "fill_out c n str l =
     (if n > 0 then
        (if l < word_of_nat (length str) then (write_at str (unat l) (replicate (room str l n) c), l + n)
         else (str, l + n))
      else (str, l))"

subsection \<open>Parsing a conversion\<close>

record fspec =
  zero_padding :: bool
  justify_left :: bool
  alternate_form :: bool
  force_sign :: bool
  space_for_positive :: bool
  min_field_width :: u64
  precision_specified :: bool
  precision :: u64
  length_modifier :: "char option"

definition fspec0 :: fspec where
  "fspec0 = \<lparr>zero_padding = False, justify_left = False, alternate_form = False, force_sign = False,
     space_for_positive = True, min_field_width = 0, precision_specified = False, precision = 0,
     length_modifier = None\<rparr>"

fun parse_flags :: "string \<Rightarrow> fspec \<Rightarrow> string \<times> fspec" where
  "parse_flags [] f = ([], f)"
| "parse_flags (c # p) f =
     (if c = CHR ''0'' then parse_flags p (f\<lparr>zero_padding := True\<rparr>)
      else if c = CHR ''-'' then parse_flags p (f\<lparr>justify_left := True\<rparr>)
      else if c = CHR ''+'' then parse_flags p (f\<lparr>force_sign := True, space_for_positive := False\<rparr>)
      else if c = CHR '' '' then parse_flags p (f\<lparr>force_sign := True\<rparr>)
      else if c = CHR ''#'' then parse_flags p (f\<lparr>alternate_form := True\<rparr>)
      else if c = CHR 0x27 then parse_flags p f
      else (c # p, f))"

text \<open>\<open>unsigned int uj\<close>, over the digits at \<open>p\<close>.\<close>

fun parse_uint :: "string \<Rightarrow> u32 \<Rightarrow> u32 \<times> string" where
  "parse_uint [] uj = (uj, [])"
| "parse_uint (c # p) uj =
     (if is_digit c then parse_uint p (10 * uj + word_of_nat (digit_val c)) else (uj, c # p))"

text \<open>\<open>-j\<close> overflows for the smallest \<open>int\<close>.\<close>

definition parse_width :: "string \<Rightarrow> varg list \<Rightarrow> fspec \<Rightarrow> (string \<times> varg list \<times> fspec) res" where
  "parse_width p args f = (case p of
      [] \<Rightarrow> Inr (p, args, f)
    | c # r \<Rightarrow>
        (if c = CHR ''*'' then
           bindR (next_int args) (\<lambda>(j, args').
             if 0 \<le> sint j then Inr (r, args', f\<lparr>min_field_width := ucast j\<rparr>)
             else if sint j = - (2 ^ 31) then Inl SignedOverflow
             else Inr (r, args', f\<lparr>min_field_width := ucast (- j), justify_left := True\<rparr>))
         else if is_digit c then
           (let (uj, r') = parse_uint p 0 in Inr (r', args, f\<lparr>min_field_width := ucast uj\<rparr>))
         else Inr (p, args, f)))"

definition parse_precision :: "string \<Rightarrow> varg list \<Rightarrow> fspec \<Rightarrow> (string \<times> varg list \<times> fspec) res" where
  "parse_precision p args f = (case p of
      [] \<Rightarrow> Inr (p, args, f)
    | c # r \<Rightarrow>
        (if c = CHR ''.'' then
           (let f1 = f\<lparr>precision_specified := True\<rparr> in
            case r of
              [] \<Rightarrow> Inr (r, args, f1)
            | c2 # r2 \<Rightarrow>
                (if c2 = CHR ''*'' then
                   bindR (next_int args) (\<lambda>(j, args').
                     if 0 \<le> sint j then Inr (r2, args', f1\<lparr>precision := ucast j\<rparr>)
                     else Inr (r2, args', f1\<lparr>precision_specified := False, precision := 0\<rparr>))
                 else if is_digit c2 then
                   (let (uj, r') = parse_uint r 0 in Inr (r', args, f1\<lparr>precision := ucast uj\<rparr>))
                 else Inr (r, args, f1)))
         else Inr (p, args, f)))"

definition parse_length :: "string \<Rightarrow> fspec \<Rightarrow> string \<times> fspec" where
  "parse_length p f = (case p of
      [] \<Rightarrow> (p, f)
    | c # r \<Rightarrow>
        (if c = CHR ''h'' then (r, f\<lparr>length_modifier := Some c\<rparr>)
         else if c = CHR ''l'' then
           (if r \<noteq> [] \<and> hd r = CHR ''l'' then tl r else r, f\<lparr>length_modifier := Some c\<rparr>)
         else (p, f)))"

text \<open>\<open>*p\<close> at the end of the format is the terminating zero.\<close>

definition peek :: "string \<Rightarrow> char" where
  "peek p = (case p of [] \<Rightarrow> CHR 0x00 | c # _ \<Rightarrow> c)"

definition synonyms :: "char \<Rightarrow> fspec \<Rightarrow> char \<times> fspec" where
  "synonyms c f =
     (if c = CHR ''i'' then (CHR ''d'', f)
      else if c = CHR ''D'' then (CHR ''d'', f\<lparr>length_modifier := Some CHR ''l''\<rparr>)
      else if c = CHR ''U'' then (CHR ''u'', f\<lparr>length_modifier := Some CHR ''l''\<rparr>)
      else if c = CHR ''O'' then (CHR ''o'', f\<lparr>length_modifier := Some CHR ''l''\<rparr>)
      else (c, f))"

subsection \<open>Converting an argument\<close>

text \<open>What \<open>sprintf\<close> writes for the simple formats: a number to a base.\<close>

definition digit_char :: "bool \<Rightarrow> nat \<Rightarrow> char" where
  "digit_char up d = (if d < 10 then char_of (48 + d) else if up then char_of (55 + d) else char_of (87 + d))"

function show_base :: "nat \<Rightarrow> bool \<Rightarrow> nat \<Rightarrow> string" where
  "show_base b up n =
     (if b < 2 \<or> n < b then [digit_char up n] else show_base b up (n div b) @ [digit_char up (n mod b)])"
  by pat_completeness auto
termination
  by (relation "measure (\<lambda>(b, up, n). n)") auto

declare show_base.simps [simp del]

definition show_signed :: "int \<Rightarrow> string" where
  "show_signed v = (if v < 0 then CHR ''-'' # show_base 10 False (nat (- v)) else show_base 10 False (nat v))"

definition show_unsigned :: "char \<Rightarrow> nat \<Rightarrow> string" where
  "show_unsigned c n =
     (if c = CHR ''o'' then show_base 8 False n else if c = CHR ''x'' then show_base 16 False n
      else if c = CHR ''X'' then show_base 16 True n else show_base 10 False n)"

text \<open>
  The argument of a numeric conversion: \<open>arg_sign\<close>, the text \<open>sprintf\<close> gives, and the arguments left.
  With \<open>h\<close> the library converts to \<open>short\<close>; what \<open>%p\<close> prints is the library's choice \<open>sp\<close>.
\<close>

definition num_arg :: "(u64 \<Rightarrow> string) \<Rightarrow> char \<Rightarrow> char option \<Rightarrow> varg list \<Rightarrow> (int \<times> string \<times> varg list) res" where
  "num_arg sp c lm args =
     (if c = CHR ''p'' then
        bindR (next_ptr args) (\<lambda>(w, args'). Inr (if w \<noteq> 0 then 1 else 0, sp w, args'))
      else if c = CHR ''d'' then
        (if lm = Some CHR ''l'' then
           bindR (next_long args) (\<lambda>(w, args'). Inr (sgn (sint w), show_signed (sint w), args'))
         else
           bindR (next_int args) (\<lambda>(w, args'). Inr (sgn (sint w),
             show_signed (if lm = Some CHR ''h'' then sint (ucast w :: 16 word) else sint w), args')))
      else
        (if lm = Some CHR ''l'' then
           bindR (next_long args) (\<lambda>(w, args'). Inr (if w \<noteq> 0 then 1 else 0, show_unsigned c (unat w), args'))
         else
           bindR (next_int args) (\<lambda>(w, args'). Inr (if w \<noteq> 0 then 1 else 0,
             show_unsigned c (if lm = Some CHR ''h'' then unat (ucast w :: 16 word) else unat w), args'))))"

text \<open>
  The result of a conversion: \<open>str_arg\<close> and its length \<open>str_arg_l\<close>, the zeros to insert and where,
  and the flags as changed on the way.
\<close>

record conv =
  cv_arg :: string
  cv_len :: u64
  cv_zeros :: u64
  cv_ind :: u64
  cv_spec :: fspec

text \<open>The cases \<open>'%'\<close>, \<open>'c'\<close> and \<open>'s'\<close>; \<open>p\<close> points at the conversion character.\<close>

definition conv_string :: "char \<Rightarrow> string \<Rightarrow> varg list \<Rightarrow> fspec \<Rightarrow> (conv \<times> varg list) res" where
  "conv_string c p args f =
     (let f1 = f\<lparr>length_modifier := None, zero_padding := False\<rparr>;
          done = (\<lambda>a n args'. Inr (\<lparr>cv_arg = a, cv_len = n, cv_zeros = 0, cv_ind = 0, cv_spec = f1\<rparr>, args')) in
      if c = CHR ''%'' then done p 1 args
      else if c = CHR ''c'' then
        bindR (next_int args) (\<lambda>(j, args'). done [char_of (unat (ucast j :: u8))] 1 args')
      else
        bindR (next_str args) (\<lambda>(s, args'). case s of
            None \<Rightarrow> done [] 0 args'
          | Some t \<Rightarrow>
              (let a = c_str t in
               if \<not> precision_specified f then done a (word_of_nat (length a)) args'
               else if precision f = 0 then done a 0 args'
               else
                 (let n = (if precision f \<le> 0x7FFFFFFF then precision f else 0x7FFFFFFF) in
                  if length a < unat n then done a (word_of_nat (length a)) args'
                  else done a (precision f) args'))))"

text \<open>
  The numeric cases: first \<open>tmp\<close> with the sign or the prefix; then the digits, when they are wanted,
  and the place where zeros go; then their number. \<open>sprintf\<close> past the 32 characters of \<open>tmp\<close> is out
  of bounds.
\<close>

definition num_prefix :: "char \<Rightarrow> int \<Rightarrow> fspec \<Rightarrow> string" where
  "num_prefix c sign f =
     (if c = CHR ''d'' then
        (if force_sign f \<and> sign \<ge> 0 then [if space_for_positive f then CHR '' '' else CHR ''+''] else [])
      else if alternate_form f then (if sign \<noteq> 0 \<and> (c = CHR ''x'' \<or> c = CHR ''X'') then [CHR ''0'', c] else [])
      else [])"

definition insertion_ind :: "string \<Rightarrow> nat \<Rightarrow> nat" where
  "insertion_ind tmp i =
     (let i1 = (if i < length tmp \<and> tmp ! i = CHR ''-'' then i + 1 else i) in
      if i1 + 1 < length tmp \<and> tmp ! i1 = CHR ''0'' \<and> (tmp ! (i1 + 1) = CHR ''x'' \<or> tmp ! (i1 + 1) = CHR ''X'')
      then i1 + 2 else i1)"

definition num_body :: "char \<Rightarrow> int \<Rightarrow> string \<Rightarrow> fspec \<Rightarrow> (string \<times> nat \<times> fspec) res" where
  "num_body c sign text f =
     (let pre = num_prefix c sign f;
          f1 = (if precision_specified f then f\<lparr>zero_padding := False\<rparr> else f\<lparr>precision := 1\<rparr>) in
      if precision f1 = 0 \<and> sign = 0 then Inr (pre, length pre, f1)
      else if 32 \<le> length pre + length text then Inl OutOfBounds
      else Inr (pre @ text, insertion_ind (pre @ text) (length pre), f1))"

definition num_zeros :: "char \<Rightarrow> string \<Rightarrow> nat \<Rightarrow> fspec \<Rightarrow> conv" where
  "num_zeros c tmp ind f =
     (let digits = word_of_nat (length tmp - ind) :: u64;
          octal = (alternate_form f \<and> c = CHR ''o'' \<and> \<not> (ind < length tmp \<and> tmp ! ind = CHR ''0''));
          f1 = (if octal \<and> (\<not> precision_specified f \<or> precision f < digits + 1)
                then f\<lparr>precision := digits + 1, precision_specified := True\<rparr> else f);
          z = (if digits < precision f1 then precision f1 - digits else 0);
          n = min_field_width f1 - (word_of_nat (length tmp) + z);
          z1 = (if \<not> justify_left f1 \<and> zero_padding f1 \<and> n > 0 then z + n else z)
      in \<lparr>cv_arg = tmp, cv_len = word_of_nat (length tmp), cv_zeros = z1, cv_ind = word_of_nat ind, cv_spec = f1\<rparr>)"

definition conv_number :: "(u64 \<Rightarrow> string) \<Rightarrow> char \<Rightarrow> varg list \<Rightarrow> fspec \<Rightarrow> (conv \<times> varg list) res" where
  "conv_number sp c args f =
     (let f1 = (if c = CHR ''p'' then f\<lparr>length_modifier := None\<rparr> else f) in
      bindR (num_arg sp c (length_modifier f1) args) (\<lambda>(sign, text, args').
      bindR (num_body c sign text f1) (\<lambda>(tmp, ind, f2). Inr (num_zeros c tmp ind f2, args'))))"

text \<open>An unknown conversion keeps its character, without padding.\<close>

definition conv_unknown :: "string \<Rightarrow> fspec \<Rightarrow> conv" where
  "conv_unknown p f = \<lparr>cv_arg = p, cv_len = (if p \<noteq> [] then 1 else 0), cv_zeros = 0, cv_ind = 0,
     cv_spec = f\<lparr>zero_padding := False, justify_left := True, min_field_width := 0\<rparr>\<rparr>"

definition conversion :: "(u64 \<Rightarrow> string) \<Rightarrow> string \<Rightarrow> varg list \<Rightarrow> fspec \<Rightarrow> (conv \<times> varg list) res" where
  "conversion sp p args f =
     (let (c, f1) = synonyms (peek p) f in
      if c \<in> {CHR ''%'', CHR ''c'', CHR ''s''} then conv_string c p args f1
      else if c \<in> {CHR ''d'', CHR ''u'', CHR ''o'', CHR ''x'', CHR ''X'', CHR ''p''} then conv_number sp c args f1
      else Inr (conv_unknown p f1, args))"

text \<open>
  Writing it: left padding, the sign and the zeros, the rest of the argument, right padding. The
  paddings are computed in \<open>size_t\<close>, without a test that the field is wider than its content.
\<close>

definition emit :: "conv \<Rightarrow> string \<Rightarrow> u64 \<Rightarrow> (string \<times> u64) res" where
  "emit v str l =
     (let f = cv_spec v; pad = min_field_width f - (cv_len v + cv_zeros v);
          (s1, l1) = (if \<not> justify_left f then fill_out (if zero_padding f then CHR ''0'' else CHR '' '') pad str l
                      else (str, l));
          ind = (if cv_zeros v \<le> 0 then 0 else cv_ind v) in
      bindR (if cv_zeros v \<le> 0 then Inr (s1, l1)
             else bindR (copy_out (cv_arg v) (cv_ind v) s1 l1) (\<lambda>(s2, l2).
               Inr (fill_out CHR ''0'' (cv_zeros v) s2 l2))) (\<lambda>(s3, l3).
      bindR (copy_out (drop (unat ind) (cv_arg v)) (cv_len v - ind) s3 l3) (\<lambda>(s4, l4).
        Inr (if justify_left f then fill_out CHR '' '' pad s4 l4 else (s4, l4)))))"

subsection \<open>The formatter\<close>

definition parse_spec :: "string \<Rightarrow> varg list \<Rightarrow> (string \<times> varg list \<times> fspec) res" where
  "parse_spec p args =
     (let (p1, f1) = parse_flags p fspec0 in
      bindR (parse_width p1 args f1) (\<lambda>(p2, args2, f2).
      bindR (parse_precision p2 args2 f2) (\<lambda>(p3, args3, f3).
        (let (p4, f4) = parse_length p3 f3 in Inr (p4, args3, f4)))))"

lemma parse_flags_length: "length (fst (parse_flags p f)) \<le> length p"
  by (induction p f rule: parse_flags.induct) auto

lemma parse_uint_length: "length (snd (parse_uint p uj)) \<le> length p"
  by (induction p uj rule: parse_uint.induct) auto

lemma parse_width_length: "parse_width p args f = Inr (p', args', f') \<Longrightarrow> length p' \<le> length p"
  using parse_uint_length [of p 0]
  by (auto simp: parse_width_def Let_def bindR_eq_Inr split: list.splits if_splits prod.splits)

lemma parse_precision_length: "parse_precision p args f = Inr (p', args', f') \<Longrightarrow> length p' \<le> length p"
  using parse_uint_length [of "tl p" 0]
  by (auto simp: parse_precision_def Let_def bindR_eq_Inr split: list.splits if_splits prod.splits)

lemma parse_length_length: "length (fst (parse_length p f)) \<le> length p"
  by (auto simp: parse_length_def split: list.splits)

lemma parse_spec_length:
  assumes "parse_spec p args = Inr (p', args', f')"
  shows "length p' \<le> length p"
proof -
  obtain p1 f1 where 1: "parse_flags p fspec0 = (p1, f1)" by force
  obtain p2 args2 f2 where 2: "parse_width p1 args f1 = Inr (p2, args2, f2)"
    using assms 1 by (auto simp: parse_spec_def bindR_eq_Inr)
  obtain p3 args3 f3 where 3: "parse_precision p2 args2 f2 = Inr (p3, args3, f3)"
    using assms 1 2 by (auto simp: parse_spec_def bindR_eq_Inr)
  have "p' = fst (parse_length p3 f3)" using assms 1 2 3 by (auto simp: parse_spec_def split: prod.splits)
  then have "length p' \<le> length p3" using parse_length_length by simp
  also have "\<dots> \<le> length p2" by (rule parse_precision_length [OF 3])
  also have "\<dots> \<le> length p1" by (rule parse_width_length [OF 2])
  also have "\<dots> \<le> length p" using parse_flags_length [of p fspec0] 1 by simp
  finally show ?thesis .
qed

text \<open>The characters up to the next conversion.\<close>

definition literal_len :: "string \<Rightarrow> nat" where
  "literal_len p = Suc (length (takeWhile (\<lambda>c. c \<noteq> CHR ''%'') (tl p)))"

function vsn_loop :: "(u64 \<Rightarrow> string) \<Rightarrow> string \<Rightarrow> varg list \<Rightarrow> string \<Rightarrow> u64 \<Rightarrow> (string \<times> u64) res" where
  "vsn_loop sp p args str l =
     (if p = [] then Inr (str, l)
      else if hd p \<noteq> CHR ''%'' then
        bindR (copy_out p (word_of_nat (literal_len p)) str l) (\<lambda>(str', l').
          vsn_loop sp (drop (literal_len p) p) args str' l')
      else
        bindR (parse_spec (tl p) args) (\<lambda>(p1, args1, f).
        bindR (conversion sp p1 args1 f) (\<lambda>(v, args2).
        bindR (emit v str l) (\<lambda>(str', l'). vsn_loop sp (tl p1) args2 str' l'))))"
  by pat_completeness auto
termination
proof (relation "measure (\<lambda>(sp, p, args, str, l). length p)", goal_cases)
  case (3 sp p args str l x p1 y args1 f z v args2 w str' l')
  have "length p1 \<le> length (tl p)" using 3 parse_spec_length [of "tl p" args p1 args1 f] by simp
  moreover have "length (tl p) < length p" using 3(1) by simp
  ultimately show ?case by simp
qed (simp_all add: literal_len_def)

declare vsn_loop.simps [simp del]

text \<open>The result is \<open>str_l\<close> cut to an \<open>int\<close>; a null format is the empty one.\<close>

definition portable_vsnprintf ::
    "(u64 \<Rightarrow> string) \<Rightarrow> string \<Rightarrow> string option \<Rightarrow> varg list \<Rightarrow> (int \<times> string) res" where
  "portable_vsnprintf sp str fmt args =
     (let p = (case fmt of None \<Rightarrow> [] | Some s \<Rightarrow> c_str s) in
      bindR (vsn_loop sp p args str 0) (\<lambda>(s, l).
        (let m = word_of_nat (length str) :: u64;
             s1 = (if m > 0 then s[unat (if l \<le> m - 1 then l else m - 1) := CHR 0x00] else s)
         in Inr (sint (ucast l :: i32), s1))))"

definition portable_snprintf ::
    "(u64 \<Rightarrow> string) \<Rightarrow> string \<Rightarrow> string option \<Rightarrow> varg list \<Rightarrow> (int \<times> string) res" where
  "portable_snprintf sp str fmt args = portable_vsnprintf sp str fmt args"

subsection \<open>Memory safety\<close>

lemma unat_of_length: "length xs < 2 ^ 64 \<Longrightarrow> unat (word_of_nat (length xs) :: u64) = length xs"
  by (simp add: unat_of_nat)

lemma room_le:
  assumes "length str < 2 ^ 64" and "l < word_of_nat (length str)"
  shows "unat l + room str l n \<le> length str" and "room str l n \<le> unat n"
proof -
  let ?m = "word_of_nat (length str) :: u64"
  have "l \<le> ?m" using assms(2) by simp
  then have "unat (?m - l) = length str - unat l"
    using unat_of_length [OF assms(1)] unat_sub [of l ?m] by simp
  moreover have "unat l \<le> length str"
    using assms unat_of_length [OF assms(1)] by (simp add: word_less_nat_alt)
  moreover have "room str l n \<le> unat (?m - l)" and 2: "room str l n \<le> unat n"
    by (simp_all add: room_def Let_def word_less_nat_alt not_less)
  ultimately show "unat l + room str l n \<le> length str" by linarith
  show "room str l n \<le> unat n" by (rule 2)
qed

lemma write_at_length [simp]: "i + length s \<le> length str \<Longrightarrow> length (write_at str i s) = length str"
  by (simp add: write_at_def)

lemma fill_out_length: "length str < 2 ^ 64 \<Longrightarrow> length (fst (fill_out c n str l)) = length str"
  using room_le(1) [of str l n] by (simp add: fill_out_def)

lemma copy_out_ok:
  assumes "length str < 2 ^ 64" and "unat n \<le> length src"
  shows "\<exists>str' l'. copy_out src n str l = Inr (str', l') \<and> length str' = length str"
proof -
  have "room str l n \<le> length src" if "l < word_of_nat (length str)"
    using room_le(2) [OF assms(1) that, of n] assms(2) by simp
  then show ?thesis using room_le(1) [OF assms(1), of l n] assms(2) by (simp add: copy_out_def Let_def)
qed

text \<open>What a conversion hands on stays within its text.\<close>

definition conv_ok :: "conv \<Rightarrow> bool" where
  "conv_ok v \<longleftrightarrow> unat (cv_len v) \<le> length (cv_arg v) \<and> unat (cv_ind v) \<le> unat (cv_len v)"

lemma emit_ok:
  assumes "conv_ok v" and "length str < 2 ^ 64"
  shows "\<exists>str' l'. emit v str l = Inr (str', l') \<and> length str' = length str"
proof -
  let ?f = "cv_spec v" let ?pad = "min_field_width (cv_spec v) - (cv_len v + cv_zeros v)"
  have v: "unat (cv_len v) \<le> length (cv_arg v)" "unat (cv_ind v) \<le> unat (cv_len v)"
    using assms(1) by (simp_all add: conv_ok_def)
  obtain s1 l1 where 1: "(if \<not> justify_left ?f then fill_out (if zero_padding ?f then CHR ''0'' else CHR '' '') ?pad str l
      else (str, l)) = (s1, l1)" by force
  then have s1: "length s1 = length str" "length s1 < 2 ^ 64"
    using fill_out_length [OF assms(2), of "if zero_padding ?f then CHR ''0'' else CHR '' ''" ?pad l] assms(2)
    by (auto split: if_splits)
  have i1: "unat (cv_ind v) \<le> length (cv_arg v)" using v by simp
  obtain s3 l3 where 3: "(if cv_zeros v \<le> 0 then Inr (s1, l1)
             else bindR (copy_out (cv_arg v) (cv_ind v) s1 l1) (\<lambda>(s2, l2).
               Inr (fill_out CHR ''0'' (cv_zeros v) s2 l2))) = Inr (s3, l3)" and s3: "length s3 = length str"
  proof (cases "cv_zeros v \<le> 0")
    case True
    then show thesis using that s1 by simp
  next
    case False
    obtain s2 l2 where "copy_out (cv_arg v) (cv_ind v) s1 l1 = Inr (s2, l2)" "length s2 = length s1"
      using copy_out_ok [OF s1(2) i1] by blast
    then show thesis
      using that [of "fst (fill_out CHR ''0'' (cv_zeros v) s2 l2)" "snd (fill_out CHR ''0'' (cv_zeros v) s2 l2)"]
        False s1 fill_out_length [of s2] assms(2) by simp
  qed
  let ?ind = "if cv_zeros v \<le> 0 then 0 else cv_ind v"
  have "unat (cv_len v - ?ind) \<le> length (drop (unat ?ind) (cv_arg v))"
    using v by (simp add: unat_sub word_le_nat_alt)
  then obtain s4 l4 where 4: "copy_out (drop (unat ?ind) (cv_arg v)) (cv_len v - ?ind) s3 l3 = Inr (s4, l4)"
      "length s4 = length s3"
    using copy_out_ok [of s3 "cv_len v - ?ind" "drop (unat ?ind) (cv_arg v)" l3] s3 assms(2) by auto
  have "emit v str l = Inr (if justify_left ?f then fill_out CHR '' '' ?pad s4 l4 else (s4, l4))"
    unfolding emit_def Let_def 1 prod.case 3 bindR_Inr 4(1) ..
  moreover have "length (fst (if justify_left ?f then fill_out CHR '' '' ?pad s4 l4 else (s4, l4))) = length str"
    using fill_out_length [of s4] 4(2) s3 assms(2) by simp
  ultimately show ?thesis by (metis prod.collapse)
qed

lemma show_base_length: "2 \<le> b \<Longrightarrow> n < b ^ Suc k \<Longrightarrow> length (show_base b up n) \<le> Suc k"
proof (induction b up n arbitrary: k rule: show_base.induct)
  case (1 b up n)
  show ?case
  proof (cases "n < b")
    case True
    then show ?thesis by (subst show_base.simps) simp
  next
    case False
    then obtain j where k: "k = Suc j" using 1(3) by (cases k) auto
    have "n div b < b ^ Suc j" using 1(2,3) k by (simp add: less_mult_imp_div_less mult.commute)
    then have "length (show_base b up (n div b)) \<le> Suc j" using 1 False by simp
    then show ?thesis using False 1(2) k by (subst show_base.simps) simp
  qed
qed

lemma show_unsigned_length: "n < 2 ^ 64 \<Longrightarrow> length (show_unsigned c n) \<le> 22"
proof -
  assume n: "n < 2 ^ 64"
  have "length (show_base b up n) \<le> Suc 21" if "8 \<le> b" for b up
  proof -
    have "(8::nat) ^ Suc 21 \<le> b ^ Suc 21" using that by (rule power_mono) simp
    moreover have "n < 8 ^ Suc 21" using n by simp
    ultimately show ?thesis using that by (intro show_base_length) linarith+
  qed
  then show ?thesis by (simp add: show_unsigned_def)
qed

lemma show_signed_length: "- (2 ^ 63) \<le> v \<Longrightarrow> v < 2 ^ 63 \<Longrightarrow> length (show_signed v) \<le> 23"
proof -
  assume v: "- (2 ^ 63) \<le> v" "v < 2 ^ 63"
  have "length (show_base 10 False n) \<le> Suc 21" if "n \<le> 2 ^ 63" for n
    using that by (intro show_base_length) simp_all
  from this [of "nat (- v)"] this [of "nat v"] v
  have "length (show_base 10 False (nat (- v))) \<le> 22" "length (show_base 10 False (nat v)) \<le> 22" by simp_all
  then show ?thesis by (simp add: show_signed_def)
qed

text \<open>Strings shorter than the largest \<open>int\<close>, and pointers printed in at most 24 characters.\<close>

definition args_ok :: "varg list \<Rightarrow> bool" where
  "args_ok args \<longleftrightarrow> (\<forall>s. VStr (Some s) \<in> set args \<longrightarrow> length s < 0x7FFFFFFF)"

definition sp_ok :: "(u64 \<Rightarrow> string) \<Rightarrow> bool" where
  "sp_ok sp \<longleftrightarrow> (\<forall>w. length (sp w) \<le> 24)"

lemma next_ok:
  "next_int args = Inr (i, args') \<Longrightarrow> args = VInt i # args'"
  "next_long args = Inr (w, args') \<Longrightarrow> args = VLong w # args'"
  "next_str args = Inr (s, args') \<Longrightarrow> args = VStr s # args'"
  "next_ptr args = Inr (w, args') \<Longrightarrow> args = VPtr w # args'"
  "next_int args \<noteq> Inl OutOfBounds" "next_long args \<noteq> Inl OutOfBounds"
  "next_str args \<noteq> Inl OutOfBounds" "next_ptr args \<noteq> Inl OutOfBounds"
  by (cases args; cases "hd args"; simp)+

lemma args_ok_Cons: "args_ok (a # args) \<Longrightarrow> args_ok args"
  by (simp add: args_ok_def)

text \<open>A step that reads arguments: no access out of bounds, and the arguments left are a tail.\<close>

definition arg_step :: "('a \<Rightarrow> varg list) \<Rightarrow> varg list \<Rightarrow> 'a res \<Rightarrow> bool" where
  "arg_step g args r \<longleftrightarrow> (case r of Inl e \<Rightarrow> e \<noteq> OutOfBounds | Inr x \<Rightarrow> args_ok args \<longrightarrow> args_ok (g x))"

lemma arg_step_simps:
  "arg_step g args (Inr x) \<longleftrightarrow> (args_ok args \<longrightarrow> args_ok (g x))"
  "arg_step g args (Inl e) \<longleftrightarrow> e \<noteq> OutOfBounds"
  by (simp_all add: arg_step_def)

lemma arg_step_bind:
  assumes "arg_step h args r" and "\<And>x. r = Inr x \<Longrightarrow> arg_step g (h x) (k x)"
  shows "arg_step g args (bindR r k)"
proof (cases r)
  case (Inl e)
  then show ?thesis using assms(1) by (simp add: arg_step_simps)
next
  case (Inr x)
  then show ?thesis using assms by (cases "k x") (auto simp: arg_step_simps)
qed

lemma next_step:
  "arg_step snd args (next_int args)" "arg_step snd args (next_long args)"
  "arg_step snd args (next_str args)" "arg_step snd args (next_ptr args)"
  by (cases args; cases "hd args"; auto simp: arg_step_simps args_ok_def)+

lemma parse_width_step: "arg_step (\<lambda>(p, args, f). args) args (parse_width p args f)"
  by (cases p; auto simp: parse_width_def arg_step_simps Let_def split: prod.split
      intro!: arg_step_bind [OF next_step(1)])

lemma parse_precision_step: "arg_step (\<lambda>(p, args, f). args) args (parse_precision p args f)"
proof (cases p)
  case Nil
  then show ?thesis by (simp add: parse_precision_def arg_step_simps)
next
  case (Cons c r)
  then show ?thesis
    by (cases r; auto simp: parse_precision_def arg_step_simps Let_def split: prod.split
        intro!: arg_step_bind [OF next_step(1)])
qed

lemma parse_spec_step: "arg_step (\<lambda>(p, args, f). args) args (parse_spec p args)"
  unfolding parse_spec_def Let_def split_beta
  by (intro arg_step_bind [OF parse_width_step] arg_step_bind [OF parse_precision_step, simplified split_beta])
    (auto simp: arg_step_simps parse_precision_step split_beta
      intro!: arg_step_bind [OF parse_precision_step [unfolded split_beta]])

text \<open>The length of a string argument under a precision.\<close>

definition str_len :: "string \<Rightarrow> fspec \<Rightarrow> u64" where
  "str_len a f =
     (if \<not> precision_specified f then word_of_nat (length a)
      else if precision f = 0 then 0
      else if length a < unat (if precision f \<le> 0x7FFFFFFF then precision f else 0x7FFFFFFF)
      then word_of_nat (length a) else precision f)"

lemma str_len_le:
  assumes "length a < 0x7FFFFFFF"
  shows "unat (str_len a f) \<le> length a"
proof -
  have u: "unat (word_of_nat (length a) :: u64) = length a"
    using assms by (intro unat_of_length) simp
  have "unat (precision f) \<le> length a"
    if "\<not> length a < unat (if precision f \<le> 0x7FFFFFFF then precision f else 0x7FFFFFFF)"
    using that assms by (simp split: if_splits)
  then show ?thesis using u by (simp add: str_len_def)
qed

definition text_conv :: "string \<Rightarrow> u64 \<Rightarrow> fspec \<Rightarrow> conv" where
  "text_conv a n f = \<lparr>cv_arg = a, cv_len = n, cv_zeros = 0, cv_ind = 0,
     cv_spec = f\<lparr>length_modifier := None, zero_padding := False\<rparr>\<rparr>"

lemma conv_string_eq:
  "conv_string c p args f =
     (if c = CHR ''%'' then Inr (text_conv p 1 f, args)
      else if c = CHR ''c'' then
        bindR (next_int args) (\<lambda>(j, args'). Inr (text_conv [char_of (unat (ucast j :: u8))] 1 f, args'))
      else bindR (next_str args) (\<lambda>(s, args'). Inr (case s of None \<Rightarrow> text_conv [] 0 f
          | Some t \<Rightarrow> text_conv (c_str t) (str_len (c_str t) f) f, args')))"
  unfolding conv_string_def Let_def text_conv_def str_len_def
  by (auto intro!: bindR_cong split: option.split)

lemma text_conv_ok: "unat n \<le> length a \<Longrightarrow> conv_ok (text_conv a n f)"
  by (simp add: conv_ok_def text_conv_def)

lemma conv_string_ok:
  assumes "args_ok args" and "p \<noteq> []"
  shows "arg_step snd args (conv_string c p args f)"
    and "conv_string c p args f = Inr (v, args') \<Longrightarrow> conv_ok v"
proof -
  show "arg_step snd args (conv_string c p args f)"
    unfolding conv_string_eq
    by (auto simp only: arg_step_simps snd_conv split_beta split: if_split
        intro!: arg_step_bind [OF next_step(1)] arg_step_bind [OF next_step(3)])
  assume c: "conv_string c p args f = Inr (v, args')"
  have p: "1 \<le> length p" using assms(2) by (cases p) simp_all
  consider "c = CHR ''%''" | "c \<noteq> CHR ''%''" "c = CHR ''c''" | "c \<noteq> CHR ''%''" "c \<noteq> CHR ''c''" by blast
  then show "conv_ok v"
  proof cases
    case 1
    then show ?thesis using c p text_conv_ok [of 1 p f] unfolding conv_string_eq by simp
  next
    case 2
    then obtain j :: i32 where "v = text_conv [char_of (unat (ucast j :: u8))] 1 f"
      using c by (auto simp add: conv_string_eq bindR_eq_Inr)
    then show ?thesis by (simp add: text_conv_ok)
  next
    case 3
    then obtain so where so: "next_str args = Inr (so, args')"
        "v = (case so of None \<Rightarrow> text_conv [] 0 f | Some t \<Rightarrow> text_conv (c_str t) (str_len (c_str t) f) f)"
      using c by (auto simp add: conv_string_eq bindR_eq_Inr)
    show ?thesis
    proof (cases so)
      case None
      then show ?thesis using so(2) by (simp add: text_conv_ok)
    next
      case (Some t)
      have "length t < 0x7FFFFFFF" using assms(1) next_ok(3) [OF so(1)] Some by (simp add: args_ok_def)
      then have "length (c_str t) < 0x7FFFFFFF" using c_str_length [of t] by simp
      from text_conv_ok [OF str_len_le [OF this]] show ?thesis using so(2) Some by simp
    qed
  qed
qed

lemma num_arg_step: "arg_step (\<lambda>(sign, text, args). args) args (num_arg sp c lm args)"
  unfolding num_arg_def
  by (auto simp only: arg_step_simps split_beta fst_conv snd_conv split: if_split
      intro!: arg_step_bind [OF next_step(1)] arg_step_bind [OF next_step(2)] arg_step_bind [OF next_step(4)])

lemma num_arg_text:
  assumes "num_arg sp c lm args = Inr (sign, text, args')" and "sp_ok sp"
  shows "length text \<le> 24"
proof -
  have u: "length (show_unsigned ch (unat (w :: u64))) \<le> 24" for ch w
    by (rule le_trans [OF show_unsigned_length], rule less_le_trans [OF unsigned_less]) simp_all
  have u32: "length (show_unsigned ch (unat (w :: u32))) \<le> 24" for ch w
    by (rule le_trans [OF show_unsigned_length], rule less_le_trans [OF unsigned_less]) simp_all
  have u16: "length (show_unsigned ch (unat (w :: 16 word))) \<le> 24" for ch w
    by (rule le_trans [OF show_unsigned_length], rule less_le_trans [OF unsigned_less]) simp_all
  have s64: "length (show_signed (sint (w :: u64))) \<le> 24" for w
    by (rule le_trans [OF show_signed_length]) (use sint_ge [of w] sint_lt [of w] in simp_all)
  have s32: "length (show_signed (sint (w :: u32))) \<le> 24" for w
    by (rule le_trans [OF show_signed_length]) (use sint_ge [of w] sint_lt [of w] in simp_all)
  have s16: "length (show_signed (sint (w :: 16 word))) \<le> 24" for w
    by (rule le_trans [OF show_signed_length]) (use sint_ge [of w] sint_lt [of w] in simp_all)
  have p: "length (sp w) \<le> 24" for w using assms(2) by (simp add: sp_ok_def)
  show ?thesis
    using assms(1) unfolding num_arg_def bindR_eq_Inr
    by (cases "c = CHR ''p''"; cases "c = CHR ''d''"; cases "lm = Some CHR ''l''"; cases "lm = Some CHR ''h''")
      (auto simp only: if_True if_False simp_thms bindR_eq_Inr prod.case sum.inject prod.inject split_paired_Ex
        u u32 u16 s64 s32 s16 p)
qed

lemma insertion_ind_le: "i \<le> length tmp \<Longrightarrow> insertion_ind tmp i \<le> length tmp"
  by (auto simp: insertion_ind_def Let_def)

lemma num_prefix_length: "length (num_prefix c sign f) \<le> 2"
  by (simp add: num_prefix_def)

lemma num_body_ok:
  assumes "length text \<le> 24"
  shows "\<exists>tmp ind f'. num_body c sign text f = Inr (tmp, ind, f') \<and> ind \<le> length tmp \<and> length tmp < 32"
  using assms num_prefix_length [of c sign f]
    insertion_ind_le [of "length (num_prefix c sign f)" "num_prefix c sign f @ text"]
  by (simp add: num_body_def Let_def le_less_trans [OF num_prefix_length])

lemma num_zeros_ok:
  assumes "ind \<le> length tmp" and "length tmp < 32"
  shows "conv_ok (num_zeros c tmp ind f)"
  using assms unat_of_length [of tmp] unat_of_length [of "take ind tmp"]
  by (simp add: num_zeros_def conv_ok_def Let_def)

lemma conv_number_ok:
  assumes "sp_ok sp"
  shows "arg_step snd args (conv_number sp c args f)"
    and "conv_number sp c args f = Inr (v, args') \<Longrightarrow> conv_ok v"
proof -
  let ?f = "if c = CHR ''p'' then f\<lparr>length_modifier := None\<rparr> else f"
  show "arg_step snd args (conv_number sp c args f)"
    unfolding conv_number_def Let_def
  proof (rule arg_step_bind [OF num_arg_step])
    fix x
    assume x: "num_arg sp c (length_modifier ?f) args = Inr x"
    obtain sign t rest where e: "x = (sign, t, rest)" by (cases x)
    from num_body_ok [OF num_arg_text [OF x [unfolded e] assms], of c sign ?f]
    obtain tmp ind f' where "num_body c sign t ?f = Inr (tmp, ind, f')" by blast
    then show "arg_step snd (case x of (sign, text, args) \<Rightarrow> args)
        (case x of (sign, text, args') \<Rightarrow>
          bindR (num_body c sign text ?f) (\<lambda>(tmp, ind, f2). Inr (num_zeros c tmp ind f2, args')))"
      by (simp only: e prod.case bindR_Inr arg_step_simps snd_conv simp_thms)
  qed
  assume "conv_number sp c args f = Inr (v, args')"
  then obtain x where x: "num_arg sp c (length_modifier ?f) args = Inr x"
      and v: "(case x of (sign, text, args') \<Rightarrow>
        bindR (num_body c sign text ?f) (\<lambda>(tmp, ind, f2). Inr (num_zeros c tmp ind f2, args'))) = Inr (v, args')"
    unfolding conv_number_def Let_def bindR_eq_Inr by blast
  obtain sign t rest where e: "x = (sign, t, rest)" by (cases x)
  from num_body_ok [OF num_arg_text [OF x [unfolded e] assms], of c sign ?f]
  obtain tmp ind f' where b: "num_body c sign t ?f = Inr (tmp, ind, f')" "ind \<le> length tmp" "length tmp < 32" by blast
  have "v = num_zeros c tmp ind f'" using v by (simp only: e prod.case b(1) bindR_Inr) simp
  then show "conv_ok v" using num_zeros_ok [OF b(2,3)] by simp
qed

lemma conversion_ok:
  assumes "sp_ok sp" and "args_ok args"
  shows "arg_step snd args (conversion sp p args f)"
    and "conversion sp p args f = Inr (v, args') \<Longrightarrow> conv_ok v"
proof -
  obtain c f1 where c: "synonyms (peek p) f = (c, f1)" by force
  have ne: "p \<noteq> []" if "c \<in> {CHR ''%'', CHR ''c'', CHR ''s''}"
    using that c by (auto simp: synonyms_def peek_def split: if_splits list.splits)
  have e: "conversion sp p args f =
      (if c \<in> {CHR ''%'', CHR ''c'', CHR ''s''} then conv_string c p args f1
       else if c \<in> {CHR ''d'', CHR ''u'', CHR ''o'', CHR ''x'', CHR ''X'', CHR ''p''} then conv_number sp c args f1
       else Inr (conv_unknown p f1, args))"
    unfolding conversion_def Let_def c prod.case ..
  have u: "conv_ok (conv_unknown p f1)" by (cases p) (simp_all add: conv_unknown_def conv_ok_def)
  show "arg_step snd args (conversion sp p args f)"
    unfolding e using conv_string_ok(1) [OF assms(2) ne] conv_number_ok(1) [OF assms(1)]
    by (simp add: arg_step_simps del: insert_iff)
  assume "conversion sp p args f = Inr (v, args')"
  then show "conv_ok v"
    unfolding e using conv_string_ok(2) [OF assms(2) ne] conv_number_ok(2) [OF assms(1)] u
    by (auto simp del: insert_iff split: if_splits)
qed

lemma literal_fits:
  assumes "p \<noteq> []" and "length p < 2 ^ 64"
  shows "unat (word_of_nat (literal_len p) :: u64) \<le> length p"
proof -
  have "literal_len p \<le> length p"
    using assms(1) length_takeWhile_le [of "\<lambda>c. c \<noteq> CHR ''%''" "tl p"] by (cases p) (simp_all add: literal_len_def)
  then show ?thesis using assms(2) by (simp add: unat_of_nat)
qed

lemma vsn_loop_ok:
  assumes "sp_ok sp" and "args_ok args" and "length str < 2 ^ 64" and "length p < 2 ^ 64"
  shows "case vsn_loop sp p args str l of Inl e \<Rightarrow> e \<noteq> OutOfBounds | Inr (str', l') \<Rightarrow> length str' = length str"
  using assms
proof (induction sp p args str l rule: vsn_loop.induct)
  case (1 sp p args str l)
  note prems = 1(3-6)
  consider "p = []" | "p \<noteq> []" "hd p \<noteq> CHR ''%''" | "p \<noteq> []" "hd p = CHR ''%''" by blast
  then show ?case
  proof cases
    case 1
    then show ?thesis by (simp add: vsn_loop.simps)
  next
    case 2
    let ?n = "literal_len p"
    from copy_out_ok [OF prems(3) literal_fits [OF 2(1) prems(4)], of l]
    obtain str' l' where c: "copy_out p (word_of_nat ?n) str l = Inr (str', l')" "length str' = length str" by blast
    have "case vsn_loop sp (drop ?n p) args str' l' of Inl e \<Rightarrow> e \<noteq> OutOfBounds | Inr (s, l) \<Rightarrow> length s = length str'"
      using 1(1) [OF 2 c(1)] prems c(2) by simp
    note this [unfolded c(2)]
    then show ?thesis using 2 c by (simp add: vsn_loop.simps [of sp p])
  next
    case 3
    show ?thesis
    proof (cases "parse_spec (tl p) args")
      case (Inl e)
      then have "e \<noteq> OutOfBounds" using parse_spec_step [of args "tl p"] by (simp add: arg_step_simps)
      then show ?thesis using 3 Inl by (simp add: vsn_loop.simps [of sp p])
    next
      case (Inr r)
      then obtain p1 args1 f where s: "parse_spec (tl p) args = Inr (p1, args1, f)" by (cases r) auto
      have a1: "args_ok args1" using parse_spec_step [of args "tl p"] prems(2) s by (simp add: arg_step_simps)
      have lp: "length p1 \<le> length p" using parse_spec_length [OF s] by simp
      show ?thesis
      proof (cases "conversion sp p1 args1 f")
        case (Inl e)
        then have "e \<noteq> OutOfBounds" using conversion_ok(1) [OF prems(1) a1, of p1 f] by (simp add: arg_step_simps)
        then show ?thesis using 3 s Inl by (simp add: vsn_loop.simps [of sp p])
      next
        case (Inr r)
        then obtain v args2 where v: "conversion sp p1 args1 f = Inr (v, args2)" by (cases r) auto
        have a2: "args_ok args2" using conversion_ok(1) [OF prems(1) a1, of p1 f] a1 v by (simp add: arg_step_simps)
        obtain str' l' where e: "emit v str l = Inr (str', l')" "length str' = length str"
          using emit_ok [OF conversion_ok(2) [OF prems(1) a1 v] prems(3)] by blast
        have "length (tl p1) < 2 ^ 64" using lp prems(4) by simp
        then have "case vsn_loop sp (tl p1) args2 str' l' of Inl e \<Rightarrow> e \<noteq> OutOfBounds | Inr (s, l) \<Rightarrow> length s = length str'"
          using 1(2) [of "(p1, args1, f)" p1 "(args1, f)" args1 f "(v, args2)" v args2 "(str', l')" str' l']
            3 s v e prems a2 by simp
        note this [unfolded e(2)]
        then show ?thesis using 3 s v e by (simp add: vsn_loop.simps [of sp p])
      qed
    qed
  qed
qed

definition fmt_text :: "string option \<Rightarrow> string" where
  "fmt_text fmt = (case fmt of None \<Rightarrow> [] | Some s \<Rightarrow> c_str s)"

lemma vsnprintf_eq:
  "portable_vsnprintf sp str fmt args =
     bindR (vsn_loop sp (fmt_text fmt) args str 0) (\<lambda>(s, l).
       let m = word_of_nat (length str) :: u64 in
       Inr (sint (ucast l :: i32), if m > 0 then s[unat (if l \<le> m - 1 then l else m - 1) := CHR 0x00] else s))"
  by (simp add: portable_vsnprintf_def fmt_text_def Let_def)

lemma vsnprintf_safe:
  assumes "sp_ok sp" and "args_ok args" and "length str < 2 ^ 64" and "length (fmt_text fmt) < 2 ^ 64"
  shows "case portable_vsnprintf sp str fmt args of Inl e \<Rightarrow> e \<noteq> OutOfBounds
    | Inr (n, str') \<Rightarrow> length str' = length str \<and> (str \<noteq> [] \<longrightarrow> CHR 0x00 \<in> set str')"
proof -
  note L = vsn_loop_ok [OF assms, of 0]
  let ?m = "word_of_nat (length str) :: u64"
  show ?thesis
  proof (cases "vsn_loop sp (fmt_text fmt) args str 0")
    case (Inl e)
    then show ?thesis using L by (simp add: vsnprintf_eq)
  next
    case (Inr r)
    then obtain s l where s: "vsn_loop sp (fmt_text fmt) args str 0 = Inr (s, l)" by (cases r) auto
    have len: "length s = length str" using L s by simp
    have "CHR 0x00 \<in> set (s[unat (if l \<le> ?m - 1 then l else ?m - 1) := CHR 0x00])" if "str \<noteq> []"
    proof -
      have u: "unat ?m = length str" by (rule unat_of_length [OF assms(3)])
      then have "1 \<le> ?m" using that by (simp add: word_le_nat_alt Suc_leI)
      then have "unat (?m - 1) = length str - 1" using u unat_sub [of 1 ?m] by simp
      then have "unat (if l \<le> ?m - 1 then l else ?m - 1) \<le> length str - 1" by (auto simp: word_le_nat_alt)
      also have "\<dots> < length s" using that len by (cases str) simp_all
      finally show ?thesis by (rule set_update_memI)
    qed
    moreover have "?m > 0" if "str \<noteq> []"
      using that unat_of_length [OF assms(3)] by (simp add: word_less_nat_alt)
    ultimately show ?thesis using s len by (simp add: vsnprintf_eq Let_def)
  qed
qed

text \<open>
  C26. Whatever the format, the arguments and the size of the buffer, the formatter stays within its
  arrays (the buffer, the scratch array for numbers and the strings it copies), and a buffer that is
  not empty ends up holding a terminated string.
\<close>

theorem vsnprintf_bounds:
  assumes "sp_ok sp" and "args_ok args" and "length str < 2 ^ 64" and "length fmt < 2 ^ 64"
  shows "portable_vsnprintf sp str (Some fmt) args \<noteq> Inl OutOfBounds \<and>
    (\<forall>n str'. portable_vsnprintf sp str (Some fmt) args = Inr (n, str') \<longrightarrow>
       length str' = length str \<and> (str \<noteq> [] \<longrightarrow> CHR 0x00 \<in> set str'))"
proof -
  have "length (fmt_text (Some fmt)) < 2 ^ 64" using c_str_length [of fmt] assms(4) by (simp add: fmt_text_def)
  from vsnprintf_safe [OF assms(1-3) this] show ?thesis
    by (cases "portable_vsnprintf sp str (Some fmt) args") auto
qed

theorem vsnprintf_bounds_witness:
  "portable_vsnprintf (\<lambda>w. ''0x0'') (replicate 8 CHR '' '') (Some ''%5d|%s'') [VInt 42, VStr (Some ''abcdefgh'')] \<noteq> Inl OutOfBounds"
proof -
  have "sp_ok (\<lambda>w. ''0x0'')" "args_ok [VInt 42, VStr (Some ''abcdefgh'')]"
    "length (replicate 8 CHR '' '') < 2 ^ 64" "length ''%5d|%s'' < 2 ^ 64"
    by (simp_all add: sp_ok_def args_ok_def)
  from vsnprintf_bounds [OF this] show ?thesis by (rule conjunct1)
qed

subsection \<open>Formats without conversions, and the padding\<close>

lemma unat_of_nat64: "k < 2 ^ 64 \<Longrightarrow> unat (word_of_nat k :: u64) = k"
  by (simp add: unat_of_nat)

text \<open>Copying a text of length \<open>k\<close>, of which the buffer may have room for a part.\<close>

lemma copy_out_text:
  assumes "length str < 2 ^ 64" and "k \<le> length src" and "k < 2 ^ 64" and "unat l < length str"
  shows "copy_out src (word_of_nat k) str l =
    Inr (write_at str (unat l) (take (min k (length str - unat l)) src), l + word_of_nat k)"
proof -
  let ?m = "word_of_nat (length str) :: u64"
  have m: "unat ?m = length str" by (rule unat_of_length [OF assms(1)])
  have lt: "l < ?m" using m assms(4) by (simp add: word_less_nat_alt)
  then have s: "unat (?m - l) = length str - unat l" using unat_sub [of l ?m] m by simp
  have r: "room str l (word_of_nat k) = min k (length str - unat l)"
    using s unat_of_nat64 [OF assms(3)] by (auto simp: room_def Let_def word_less_nat_alt min_def)
  show ?thesis
  proof (cases "k = 0")
    case True
    then show ?thesis by (simp add: copy_out_def write_at_def)
  next
    case False
    then have "(0 :: u64) < word_of_nat k" using unat_of_nat64 [OF assms(3)] by (simp add: word_less_nat_alt)
    then show ?thesis using r lt assms(2) by (simp add: copy_out_def Let_def)
  qed
qed

lemma takeWhile_all: "CHR ''%'' \<notin> set xs \<Longrightarrow> takeWhile (\<lambda>c. c \<noteq> CHR ''%'') xs = xs"
  by (induction xs) auto

lemma literal_len_all: "xs \<noteq> [] \<Longrightarrow> CHR ''%'' \<notin> set xs \<Longrightarrow> literal_len xs = length xs"
  by (cases xs) (auto simp: literal_len_def takeWhile_all)

lemma literal_len_prefix:
  assumes "xs \<noteq> []" and "CHR ''%'' \<notin> set xs"
  shows "literal_len (xs @ CHR ''%'' # r) = length xs"
  using assms takeWhile_all [of "tl xs"] by (cases xs) (auto simp: literal_len_def takeWhile_append takeWhile_all)

lemma c_str_append: "CHR 0x00 \<notin> set s \<Longrightarrow> c_str (s @ CHR 0x00 # r) = s"
  by (induction s) (auto simp: c_str_def)

lemma c_str_terminated:
  assumes "CHR 0x00 \<notin> set s" and "take (length s + 1) b = s @ [CHR 0x00]"
  shows "c_str b = s"
proof -
  have "b = s @ CHR 0x00 # drop (length s + 1) b"
    using assms(2) append_take_drop_id [of "length s + 1" b] by simp
  then have "c_str b = c_str (s @ CHR 0x00 # drop (length s + 1) b)" by (rule arg_cong)
  also have "\<dots> = s" by (rule c_str_append [OF assms(1)])
  finally show ?thesis .
qed

lemma int_of_l: "k < 2 ^ 31 \<Longrightarrow> sint (ucast (word_of_nat k :: u64) :: i32) = int k"
proof -
  assume k: "k < 2 ^ 31"
  have "(ucast (word_of_nat k :: u64) :: i32) = word_of_nat k" by (rule bit_word_eqI) (simp add: bit_simps)
  then show ?thesis using k by (simp add: signed_of_nat signed_take_bit_int_eq_self)
qed

text \<open>
  On a format without conversions the formatter is the reference \<open>snprintf\<close>: it returns the
  length of the text and leaves the text, cut to the buffer.
\<close>

theorem vsnprintf_plain:
  assumes "CHR ''%'' \<notin> set fmt" and "CHR 0x00 \<notin> set fmt" and "length fmt < 2 ^ 31"
    and "0 < length str" and "length str < 2 ^ 64"
  shows "\<exists>str'. portable_vsnprintf sp str (Some fmt) args = Inr (int (length fmt), str') \<and>
    length str' = length str \<and> c_str str' = take (length str - 1) fmt"
proof -
  let ?m = "word_of_nat (length str) :: u64" let ?k = "min (length fmt) (length str)"
  have m: "unat ?m = length str" by (rule unat_of_length [OF assms(5)])
  let ?s = "write_at str 0 (take ?k fmt)"
  have loop: "vsn_loop sp fmt args str 0 = Inr (?s, word_of_nat (length fmt))"
  proof (cases "fmt = []")
    case True
    then show ?thesis by (simp add: vsn_loop.simps write_at_def)
  next
    case False
    have "hd fmt \<noteq> CHR ''%''" using False assms(1) hd_in_set by metis
    moreover have "copy_out fmt (word_of_nat (length fmt)) str 0 = Inr (?s, word_of_nat (length fmt))"
      using copy_out_text [OF assms(5), of "length fmt" fmt 0] assms(3,4) by simp
    ultimately show ?thesis
      using False literal_len_all [OF False assms(1)] by (simp add: vsn_loop.simps [of sp fmt] vsn_loop.simps [of sp "[]"])
  qed
  have "1 \<le> ?m" using assms(4) m by (simp add: word_le_nat_alt Suc_leI)
  then have m1: "unat (?m - 1) = length str - 1" using m unat_sub [of 1 ?m] by simp
  have f: "unat (word_of_nat (length fmt) :: u64) = length fmt" using assms(3) by (intro unat_of_nat64) simp
  have p: "?m > 0" using \<open>1 \<le> ?m\<close> by (simp add: word_less_nat_alt word_le_nat_alt)
  obtain i where i: "i = min (length fmt) (length str - 1)" by simp
  have u: "unat (if word_of_nat (length fmt) \<le> ?m - 1 then word_of_nat (length fmt) else ?m - 1) = i"
    using m1 f i by (auto simp: word_le_nat_alt)
  obtain b where b: "b = ?s[i := CHR 0x00]" by simp
  have s: "length ?s = length str" "take i ?s = take i fmt" using i by (simp_all add: write_at_def)
  have il: "i < length ?s" unfolding s(1) using i assms(4) by linarith
  have "take (i + 1) b = take i fmt @ [CHR 0x00]"
    using il s(2) unfolding b by (simp add: take_Suc_conv_app_nth)
  moreover have "length (take i fmt) = i" using i by simp
  moreover have "CHR 0x00 \<notin> set (take i fmt)" using assms(2) by (auto dest: in_set_takeD)
  ultimately have "c_str b = take i fmt" using c_str_terminated [of "take i fmt" b] by simp
  also have "take i fmt = take (length str - 1) fmt" using i by (simp add: min_def)
  finally have "c_str b = take (length str - 1) fmt" .
  moreover have "length b = length str" using b s(1) by simp
  moreover have "portable_vsnprintf sp str (Some fmt) args = Inr (int (length fmt), b)"
    unfolding portable_vsnprintf_def option.case c_str_id [OF assms(2)] Let_def loop bindR_Inr prod.case u
      int_of_l [OF assms(3)] if_P [OF p] b ..
  ultimately show ?thesis by blast
qed

theorem vsnprintf_plain_witness:
  "\<exists>str'. portable_vsnprintf (\<lambda>w. []) (replicate 8 CHR '' '') (Some ''network up'') [] = Inr (int (length ''network up''), str') \<and>
    length str' = length (replicate 8 CHR '' '') \<and> c_str str' = take (length (replicate 8 CHR '' '') - 1) ''network up''"
  by (rule vsnprintf_plain) simp_all

text \<open>The padding that \<open>%s\<close> without a width computes, and where it leaves the position.\<close>

lemma fill_out_wrapped:
  assumes "length str < 2 ^ 63" and "unat l < length str" and "0 < k" and "k < 2 ^ 63"
  shows "fill_out c (- word_of_nat k) str l =
    (write_at str (unat l) (replicate (length str - unat l) c), l - word_of_nat k)"
proof -
  let ?m = "word_of_nat (length str) :: u64"
  have m: "unat ?m = length str" using assms(1) by (intro unat_of_length) simp
  have lt: "l < ?m" using m assms(2) by (simp add: word_less_nat_alt)
  then have s: "unat (?m - l) = length str - unat l" using unat_sub [of l ?m] m by simp
  have k: "unat (word_of_nat k :: u64) = k" using assms(4) by (intro unat_of_nat64) simp
  have "(- word_of_nat k :: u64) = word_of_nat (2 ^ 64 - k)" using assms(4) by (subst of_nat_diff) simp_all
  then have u: "unat (- word_of_nat k :: u64) = 2 ^ 64 - k"
    using assms(3) unat_of_nat64 [of "2 ^ 64 - k"] by simp
  have "\<not> (- word_of_nat k :: u64) \<le> ?m - l"
    unfolding word_le_nat_alt s u using assms(1,4) by simp
  then have gt: "(- word_of_nat k :: u64) > ?m - l" by simp
  have "unat (0 :: u64) < unat (- word_of_nat k :: u64)" unfolding u using assms(4) by simp
  then have pos: "(0 :: u64) < - word_of_nat k" by (simp only: word_less_nat_alt)
  have r: "room str l (- word_of_nat k) = length str - unat l"
    unfolding room_def Let_def if_P [OF gt] s ..
  show ?thesis unfolding fill_out_def if_P [OF pos] if_P [OF lt] r by simp
qed

lemma conversion_s:
  "conversion sp ''s'' [VStr (Some a)] fspec0 = Inr (text_conv (c_str a) (word_of_nat (length (c_str a))) fspec0, [])"
  by (simp add: conversion_def synonyms_def peek_def conv_string_eq str_len_def fspec0_def Let_def)

lemma parse_spec_s: "parse_spec ''s'' args = Inr (''s'', args, fspec0)"
  by (simp add: parse_spec_def parse_width_def parse_precision_def parse_length_def is_digit_def Let_def)

lemma write_at_end: "write_at (p @ q) (length p) s = p @ s @ drop (length s) q"
  by (simp add: write_at_def)

text \<open>What \<open>%s\<close> without a width does to a literal text in front of it.\<close>

definition overwritten :: "string \<Rightarrow> string \<Rightarrow> string \<Rightarrow> string" where
  "overwritten lit a str =
     take (length lit - length a) lit @ a @ replicate (length str - length lit) CHR '' ''"

lemma underflow_emit:
  assumes "0 < length a" and "length a \<le> length lit" and "length lit < length str"
    and "length str < 2 ^ 63" and "length lit < 2 ^ 31"
  shows "emit (text_conv a (word_of_nat (length a)) fspec0) (lit @ drop (length lit) str) (word_of_nat (length lit)) =
    Inr (overwritten lit a str, word_of_nat (length lit))"
proof -
  let ?l = "word_of_nat (length lit) :: u64" and ?k = "word_of_nat (length a) :: u64"
  let ?w = "length str - length lit" and ?p = "take (length lit - length a) lit"
  let ?s1 = "lit @ drop (length lit) str" and ?s2 = "lit @ replicate (length str - length lit) CHR '' ''"
  have l: "unat ?l = length lit" using assms(5) by (intro unat_of_nat64) simp
  have k: "unat ?k = length a" using assms(2,5) by (intro unat_of_nat64) simp
  have k63: "length a < 2 ^ 63" using assms(2,5) by simp
  have lk: "unat (?l - ?k) = length ?p" using l k assms(2) unat_sub [of ?k ?l] by (simp add: word_le_nat_alt)
  have f: "fill_out CHR '' '' (- ?k) ?s1 ?l = (?s2, ?l - ?k)"
    using fill_out_wrapped [of ?s1 ?l "length a" "CHR '' ''"] l assms(1,3,4) k63 by (simp add: write_at_end)
  have len2: "length ?s2 = length str" using assms(3) by simp
  have fits: "min (length a) (length ?s2 - unat (?l - ?k)) = length a" using lk len2 assms(2,3) by simp
  have "copy_out a ?k ?s2 (?l - ?k) =
      Inr (write_at ?s2 (unat (?l - ?k)) (take (min (length a) (length ?s2 - unat (?l - ?k))) a), ?l - ?k + ?k)"
    using lk len2 assms(2,3,4) k63 by (intro copy_out_text) simp_all
  moreover have "write_at ?s2 (length ?p) a = overwritten lit a str"
  proof -
    have "?s2 = ?p @ (drop (length lit - length a) lit @ replicate ?w CHR '' '')" by simp
    then show ?thesis using assms(2) by (simp only: write_at_end overwritten_def) simp
  qed
  ultimately have "copy_out a ?k ?s2 (?l - ?k) = Inr (overwritten lit a str, ?l)"
    using fits [unfolded lk] by (simp add: lk del: length_append length_take)
  then show ?thesis using f by (simp add: emit_def text_conv_def fspec0_def Let_def)
qed

lemma underflow_loop:
  assumes "CHR ''%'' \<notin> set lit" and "CHR 0x00 \<notin> set a"
    and "0 < length a" and "length a \<le> length lit" and "length lit < length str"
    and "length str < 2 ^ 63" and "length lit < 2 ^ 31"
  shows "vsn_loop sp (lit @ ''%s'') [VStr (Some a)] str 0 = Inr (overwritten lit a str, word_of_nat (length lit))"
proof -
  let ?l = "word_of_nat (length lit) :: u64" and ?s1 = "lit @ drop (length lit) str"
  have lit0: "lit \<noteq> []" using assms(3,4) by auto
  have str64: "length str < 2 ^ 64" using assms(6) by simp
  have c1: "copy_out (lit @ ''%s'') ?l str 0 = Inr (?s1, ?l)"
    using copy_out_text [OF str64, of "length lit" "lit @ ''%s''" 0] assms(5,7)
    by (cases "str = []") (simp_all add: write_at_def)
  have v: "conversion sp ''s'' [VStr (Some a)] fspec0 = Inr (text_conv a (word_of_nat (length a)) fspec0, [])"
    using conversion_s [of sp a] c_str_id [OF assms(2)] by simp
  have hd: "hd (lit @ ''%s'') \<noteq> CHR ''%''" using lit0 assms(1) by (cases lit) auto
  have n: "literal_len (lit @ ''%s'') = length lit" by (rule literal_len_prefix [OF lit0 assms(1)])
  have "vsn_loop sp (lit @ ''%s'') [VStr (Some a)] str 0 = vsn_loop sp ''%s'' [VStr (Some a)] ?s1 ?l"
    using hd n c1 by (simp add: vsn_loop.simps [of sp "lit @ ''%s''"])
  also have "\<dots> = vsn_loop sp [] [] (overwritten lit a str) ?l"
    using underflow_emit [OF assms(3-7)] v parse_spec_s [of "[VStr (Some a)]"]
    by (simp add: vsn_loop.simps [of sp "''%s''"])
  also have "\<dots> = Inr (overwritten lit a str, ?l)" by (simp add: vsn_loop.simps)
  finally show ?thesis .
qed

lemma overwritten_text:
  assumes "CHR 0x00 \<notin> set lit" and "CHR 0x00 \<notin> set a" and "length lit < length str"
    and "n = length (take (length lit - length a) lit @ a)"
  shows "c_str ((overwritten lit a str)[n := CHR 0x00]) = take (length lit - length a) lit @ a"
proof -
  let ?p = "take (length lit - length a) lit @ a"
  obtain w where w: "length str - length lit = Suc w" using assms(3) by (cases "length str - length lit") simp_all
  have o: "overwritten lit a str = ?p @ CHR '' '' # replicate w CHR '' ''" by (simp add: overwritten_def w)
  have "CHR 0x00 \<notin> set ?p" using assms(1,2) by (auto dest: in_set_takeD)
  then show ?thesis unfolding o assms(4) list_update_length by (rule c_str_append)
qed

text \<open>
  C27. Because the padding is computed in \<open>size_t\<close>, a conversion without a field width moves the
  position back by the length of its own text: \<open>%s\<close> after a literal text overwrites the end of the
  literal with its argument instead of appending it, and the result reported is that of the literal.
\<close>

theorem padding_underflow:
  assumes "CHR ''%'' \<notin> set lit" and "CHR 0x00 \<notin> set lit" and "CHR 0x00 \<notin> set a"
    and "0 < length a" and "length a \<le> length lit" and "length lit < length str"
    and "length str < 2 ^ 63" and "length lit < 2 ^ 31"
  shows "\<exists>str'. portable_vsnprintf sp str (Some (lit @ ''%s'')) [VStr (Some a)] = Inr (int (length lit), str') \<and>
    c_str str' = take (length lit - length a) lit @ a"
proof -
  let ?m = "word_of_nat (length str) :: u64" and ?l = "word_of_nat (length lit) :: u64"
  let ?n = "length (take (length lit - length a) lit @ a)"
  have l: "unat ?l = length lit" using assms(8) by (intro unat_of_nat64) simp
  have m: "unat ?m = length str" using assms(7) by (intro unat_of_length) simp
  have "0 < length str" using assms(6) by linarith
  then have m1: "1 \<le> ?m" "?m > 0" using m by (simp_all add: word_le_nat_alt word_less_nat_alt Suc_leI)
  then have "unat (?m - 1) = length str - 1" using m unat_sub [of 1 ?m] by simp
  then have "?l \<le> ?m - 1" using l assms(6) by (simp add: word_le_nat_alt)
  then have i: "unat (if ?l \<le> ?m - 1 then ?l else ?m - 1) = ?n" using l assms(5) by simp
  have c: "c_str (lit @ ''%s'') = lit @ ''%s''" using assms(2) by (intro c_str_id) simp
  note loop = underflow_loop [OF assms(1,3-8), of sp]
  have "portable_vsnprintf sp str (Some (lit @ ''%s'')) [VStr (Some a)] =
      Inr (int (length lit), (overwritten lit a str)[?n := CHR 0x00])"
    unfolding portable_vsnprintf_def option.case c Let_def loop bindR_Inr prod.case i int_of_l [OF assms(8)] if_P [OF m1(2)] ..
  then show ?thesis using overwritten_text [OF assms(2,3,6) refl] by blast
qed

theorem padding_underflow_witness:
  "\<exists>str'. portable_vsnprintf (\<lambda>w. []) (replicate 64 CHR '' '') (Some (''load '' @ ''%s'')) [VStr (Some ''abc'')] =
      Inr (int (length ''load ''), str') \<and>
    c_str str' = take (length ''load '' - length ''abc'') ''load '' @ ''abc''"
  by (rule padding_underflow) simp_all

end
