(* ===== verification/Asprintf.thy ===== *)
theory Asprintf
  imports Snprintf
begin

text \<open>
  \<^verbatim>\<open>src/git/log4cpp/src/snprintf.c\<close>: \<open>asprintf\<close>, \<open>vasprintf\<close>, \<open>asnprintf\<close> and \<open>vasnprintf\<close>, which
  print twice: into nothing, to learn the size, and into a block of that size. They are correct
  because the position of the formatter does not depend on the buffer, which is what the lemmas on
  positions show.
\<close>

subsection \<open>Printing into a new block\<close>

text \<open>
  \<open>malloc\<close> gives the indeterminate characters of a new block, or nothing. A call returns its value,
  \<open>*ptr\<close> and \<open>errno\<close>. The argument list of the \<open>v\<close> functions is the one \<open>va_start\<close> makes in the
  others; each pass reads a copy of it.
\<close>

type_synonym allocator = "u64 \<Rightarrow> string option"

definition ENOMEM :: int where "ENOMEM = 12"

definition print_new ::
  "(u64 \<Rightarrow> string) \<Rightarrow> allocator \<Rightarrow> u64 \<Rightarrow> int \<Rightarrow> string option \<Rightarrow> varg list \<Rightarrow> int \<Rightarrow> (int \<times> string option \<times> int) res" where
  "print_new sp malloc str_m str_l fmt ap errno =
     (case malloc str_m of
        None \<Rightarrow> Inr (- 1, None, ENOMEM)
      | Some str \<Rightarrow>
          bindR (portable_vsnprintf sp str fmt ap) (\<lambda>(str_l2, str').
            if str_l2 = str_l then Inr (str_l, Some str', errno) else Inl AssertFailed))"

definition vasprintf ::
  "(u64 \<Rightarrow> string) \<Rightarrow> allocator \<Rightarrow> string option \<Rightarrow> varg list \<Rightarrow> int \<Rightarrow> (int \<times> string option \<times> int) res" where
  "vasprintf sp malloc fmt ap errno =
     bindR (portable_vsnprintf sp [] fmt ap) (\<lambda>(str_l, _).
       if 0 \<le> str_l then print_new sp malloc (word_of_int str_l + 1) str_l fmt ap errno else Inl AssertFailed)"

definition asprintf ::
  "(u64 \<Rightarrow> string) \<Rightarrow> allocator \<Rightarrow> string option \<Rightarrow> varg list \<Rightarrow> int \<Rightarrow> (int \<times> string option \<times> int) res" where
  "asprintf sp malloc fmt args errno =
     bindR (portable_vsnprintf sp [] fmt args) (\<lambda>(str_l, _).
       if 0 \<le> str_l then print_new sp malloc (word_of_int str_l + 1) str_l fmt args errno else Inl AssertFailed)"

definition vasnprintf ::
  "(u64 \<Rightarrow> string) \<Rightarrow> allocator \<Rightarrow> u64 \<Rightarrow> string option \<Rightarrow> varg list \<Rightarrow> int \<Rightarrow> (int \<times> string option \<times> int) res" where
  "vasnprintf sp malloc str_m fmt ap errno =
     bindR (portable_vsnprintf sp [] fmt ap) (\<lambda>(str_l, _).
       if 0 \<le> str_l then
         (let m = (if word_of_int str_l + 1 < str_m then word_of_int str_l + 1 else str_m) in
          if m = 0 then Inr (str_l, None, errno) else print_new sp malloc m str_l fmt ap errno)
       else Inl AssertFailed)"

definition asnprintf ::
  "(u64 \<Rightarrow> string) \<Rightarrow> allocator \<Rightarrow> u64 \<Rightarrow> string option \<Rightarrow> varg list \<Rightarrow> int \<Rightarrow> (int \<times> string option \<times> int) res" where
  "asnprintf sp malloc str_m fmt args errno =
     bindR (portable_vsnprintf sp [] fmt args) (\<lambda>(str_l, _).
       if 0 \<le> str_l then
         (let m = (if word_of_int str_l + 1 < str_m then word_of_int str_l + 1 else str_m) in
          if m = 0 then Inr (str_l, None, errno) else print_new sp malloc m str_l fmt args errno)
       else Inl AssertFailed)"

subsection \<open>The position does not depend on the buffer\<close>

lemma copy_out_position: "copy_out src n str l = Inr (str', l') \<Longrightarrow> l' = l + n"
  by (auto simp: copy_out_def Let_def word_greater_zero_iff split: if_splits)

lemma fill_out_position: "snd (fill_out c n str l) = l + n"
  by (simp add: fill_out_def word_greater_zero_iff)

lemma fill_out_eq: "fill_out c n str l = (str', l') \<Longrightarrow> l' = l + n"
  using fill_out_position [of c n str l] by simp

text \<open>Whatever is converted, the position moves by the field width: the padding, the text and the zeros add up to it.\<close>

lemma emit_position:
  assumes "emit v str l = Inr (str', l')"
  shows "l' = l + min_field_width (cv_spec v)"
proof -
  let ?f = "cv_spec v" let ?pad = "min_field_width (cv_spec v) - (cv_len v + cv_zeros v)"
  let ?ind = "if cv_zeros v \<le> 0 then 0 else cv_ind v"
  obtain s1 l1 where 1: "(if \<not> justify_left ?f then fill_out (if zero_padding ?f then CHR ''0'' else CHR '' '') ?pad str l
      else (str, l)) = (s1, l1)" by (rule prod.exhaust)
  then have l1: "l1 = (if justify_left ?f then l else l + ?pad)" using fill_out_eq by (auto split: if_splits)
  obtain s3 l3 where 3: "(if cv_zeros v \<le> 0 then Inr (s1, l1)
      else bindR (copy_out (cv_arg v) (cv_ind v) s1 l1) (\<lambda>(s2, l2). Inr (fill_out CHR ''0'' (cv_zeros v) s2 l2))) = Inr (s3, l3)"
    using assms unfolding emit_def Let_def 1 prod.case bindR_eq_Inr by auto
  then have l3: "l3 = l1 + ?ind + cv_zeros v"
    by (cases "cv_zeros v \<le> 0") (auto simp: bindR_eq_Inr dest!: copy_out_position fill_out_eq)
  obtain s4 l4 where 4: "copy_out (drop (unat ?ind) (cv_arg v)) (cv_len v - ?ind) s3 l3 = Inr (s4, l4)"
    using assms unfolding emit_def Let_def 1 prod.case 3 bindR_Inr bindR_eq_Inr by auto
  have "(str', l') = (if justify_left ?f then fill_out CHR '' '' ?pad s4 l4 else (s4, l4))"
    using assms unfolding emit_def Let_def 1 prod.case 3 bindR_Inr 4 by simp
  then have "l' = (if justify_left ?f then l4 + ?pad else l4)"
    using fill_out_eq [of "CHR '' ''" ?pad s4 l4 str' l'] by (auto split: if_splits)
  then show ?thesis using l1 l3 copy_out_position [OF 4] by (simp add: algebra_simps)
qed

text \<open>What a run tells apart from the buffer: its fault, or the last position.\<close>

definition end_position :: "(string \<times> u64) res \<Rightarrow> u64 res" where
  "end_position r = bindR r (\<lambda>(_, l). Inr l)"

lemma end_position_simps [simp]:
  "end_position (Inl e) = Inl e" "end_position (Inr (s, l)) = Inr l"
  by (simp_all add: end_position_def)

lemma vsn_loop_position:
  assumes "sp_ok sp" and "args_ok args" and "length p < 2 ^ 64" and "length str < 2 ^ 64" and "length str2 < 2 ^ 64"
  shows "end_position (vsn_loop sp p args str2 l) = end_position (vsn_loop sp p args str l)"
  using assms
proof (induction sp p args str l arbitrary: str2 rule: vsn_loop.induct)
  case (1 sp p args str l)
  note prems = 1(3-7)
  consider "p = []" | "p \<noteq> []" "hd p \<noteq> CHR ''%''" | "p \<noteq> []" "hd p = CHR ''%''" by blast
  then show ?case
  proof cases
    case 1
    then show ?thesis by (simp add: vsn_loop.simps)
  next
    case 2
    let ?n = "literal_len p"
    have n: "unat (word_of_nat ?n :: u64) \<le> length p" by (rule literal_fits [OF 2(1) prems(3)])
    obtain s l1 where c: "copy_out p (word_of_nat ?n) str l = Inr (s, l1)" "length s = length str"
      using copy_out_ok [OF prems(4) n] by blast
    obtain s2 l2 where c2: "copy_out p (word_of_nat ?n) str2 l = Inr (s2, l2)" "length s2 = length str2"
      using copy_out_ok [OF prems(5) n] by blast
    have "l2 = l1" using copy_out_position [OF c(1)] copy_out_position [OF c2(1)] by simp
    then show ?thesis
      using 1(1) [OF 2 c(1), of s l1 s2] 2 c c2 prems by (simp add: vsn_loop.simps [of sp p])
  next
    case 3
    show ?thesis
    proof (cases "bindR (parse_spec (tl p) args) (\<lambda>(p1, args1, f). bindR (conversion sp p1 args1 f) (\<lambda>(v, args2). Inr (p1, args1, f, v, args2)))")
      case (Inl e)
      then show ?thesis using 3 by (auto simp: vsn_loop.simps [of sp p] bindR_eq_Inl)
    next
      case (Inr r)
      then obtain p1 args1 f v args2 where s: "parse_spec (tl p) args = Inr (p1, args1, f)"
          and v: "conversion sp p1 args1 f = Inr (v, args2)" by (auto simp: bindR_eq_Inr)
      have a1: "args_ok args1" using parse_spec_step [of args "tl p"] prems(2) s by (simp add: arg_step_simps)
      have a2: "args_ok args2" using conversion_ok(1) [OF prems(1) a1, of p1 f] a1 v by (simp add: arg_step_simps)
      have lp: "length (tl p1) < 2 ^ 64" using parse_spec_length [OF s] prems(3) by simp
      note ok = conversion_ok(2) [OF prems(1) a1 v]
      obtain s1 l1 where e: "emit v str l = Inr (s1, l1)" "length s1 = length str" using emit_ok [OF ok prems(4)] by blast
      obtain s2 l2 where e2: "emit v str2 l = Inr (s2, l2)" "length s2 = length str2" using emit_ok [OF ok prems(5)] by blast
      have l: "l2 = l1" using emit_position [OF e(1)] emit_position [OF e2(1)] by simp
      have ne: "\<not> hd p \<noteq> CHR ''%''" using 3 by simp
      show ?thesis
        using l 1(2) [OF 3(1) ne s refl refl v refl e(1) refl prems(1) a2 lp, of s2] 3 s v e e2 prems
        by (simp add: vsn_loop.simps [of sp p])
    qed
  qed
qed

subsection \<open>The two passes agree\<close>

lemma vsnprintf_value:
  assumes "sp_ok sp" and "args_ok args" and "length (fmt_text fmt) < 2 ^ 64" and "length str < 2 ^ 64"
    and "length str2 < 2 ^ 64"
  shows "bindR (portable_vsnprintf sp str2 fmt args) (\<lambda>(n, _). Inr n) =
    bindR (portable_vsnprintf sp str fmt args) (\<lambda>(n, _). Inr n)"
proof -
  have "bindR (portable_vsnprintf sp b fmt args) (\<lambda>(n, _). Inr n) =
      bindR (end_position (vsn_loop sp (fmt_text fmt) args b 0)) (\<lambda>l. Inr (sint (ucast l :: i32)))" for b
    by (cases "vsn_loop sp (fmt_text fmt) args b 0") (auto simp: vsnprintf_eq Let_def)
  then show ?thesis using vsn_loop_position [OF assms] by simp
qed

text \<open>What the second pass leaves: the value of the first one and a terminated text that fills the block.\<close>

lemma print_new_ok:
  assumes "sp_ok sp" and "args_ok args" and "length (fmt_text fmt) < 2 ^ 64"
    and "portable_vsnprintf sp [] fmt args = Inr (n, t0)" and "malloc m = Some b" and "length b = unat m" and "m \<noteq> 0"
  shows "\<exists>t. print_new sp malloc m n fmt args errno = Inr (n, Some t, errno) \<and>
    portable_vsnprintf sp b fmt args = Inr (n, t) \<and> length t = unat m \<and> CHR 0x00 \<in> set t"
proof -
  have b: "length b < 2 ^ 64" "b \<noteq> []" using assms(6,7) unsigned_less [of m] by (auto simp: unat_eq_0)
  have "bindR (portable_vsnprintf sp b fmt args) (\<lambda>(n, _). Inr n) = Inr n"
    using vsnprintf_value [OF assms(1-3), of "[]" b] b(1) assms(4) by simp
  then obtain t where t: "portable_vsnprintf sp b fmt args = Inr (n, t)" by (auto simp: bindR_eq_Inr)
  then show ?thesis using vsnprintf_safe [OF assms(1,2) b(1) assms(3)] b assms(5,6) by (simp add: print_new_def)
qed

lemma int_value_range: "portable_vsnprintf sp str fmt args = Inr (n, t) \<Longrightarrow> n < 2 ^ 31"
proof -
  assume "portable_vsnprintf sp str fmt args = Inr (n, t)"
  then obtain l :: u64 where "n = sint (ucast l :: i32)" by (auto simp: vsnprintf_eq bindR_eq_Inr Let_def)
  then show ?thesis using sint_lt [of "ucast l :: i32"] by simp
qed

lemma size_of_text:
  assumes "0 \<le> n" and "n < 2 ^ 31"
  shows "unat (word_of_int n + 1 :: u64) = nat n + 1"
proof -
  have "(word_of_int n + 1 :: u64) = word_of_nat (nat n + 1)" using assms(1) by simp
  moreover have "nat n < 2 ^ 31" using assms by (simp add: nat_less_iff)
  ultimately show ?thesis using unat_of_nat64 [of "nat n + 1"] by (simp add: add.commute)
qed

text \<open>
  C28. Printing into a new block never fails on its own: it faults when the first pass does and never
  by an access out of bounds; a negative size stops at the assertion; otherwise the second assertion
  holds and the block, of the size asked for or the one needed if that is less, is filled with
  what \<open>vsnprintf\<close> prints into it, a terminated text.
\<close>

theorem asnprintf_two_passes:
  assumes "sp_ok sp" and "args_ok args" and "length (fmt_text fmt) < 2 ^ 64"
    and "\<And>k b. malloc k = Some b \<Longrightarrow> length b = unat k"
  shows "case portable_vsnprintf sp [] fmt args of
      Inl e \<Rightarrow> e \<noteq> OutOfBounds \<and> asnprintf sp malloc str_m fmt args errno = Inl e
    | Inr (n, _) \<Rightarrow>
        (let m = (if unat str_m \<le> nat n then str_m else word_of_int n + 1) in
         if n < 0 then asnprintf sp malloc str_m fmt args errno = Inl AssertFailed
         else if m = 0 then asnprintf sp malloc str_m fmt args errno = Inr (n, None, errno)
         else (case malloc m of None \<Rightarrow> asnprintf sp malloc str_m fmt args errno = Inr (- 1, None, ENOMEM)
           | Some b \<Rightarrow> \<exists>t. asnprintf sp malloc str_m fmt args errno = Inr (n, Some t, errno) \<and>
               portable_vsnprintf sp b fmt args = Inr (n, t) \<and> length t = unat m \<and> CHR 0x00 \<in> set t))"
proof (cases "portable_vsnprintf sp [] fmt args")
  case (Inl e)
  then show ?thesis using vsnprintf_safe [OF assms(1,2) _ assms(3), of "[]"] by (simp add: asnprintf_def)
next
  case (Inr r)
  then obtain n t0 where v: "portable_vsnprintf sp [] fmt args = Inr (n, t0)" by (cases r) auto
  let ?m = "if unat str_m \<le> nat n then str_m else word_of_int n + 1 :: u64"
  show ?thesis
  proof (cases "n < 0")
    case True
    then show ?thesis using v by (simp add: asnprintf_def)
  next
    case False
    have "unat (word_of_int n + 1 :: u64) = nat n + 1" using False int_value_range [OF v] by (intro size_of_text) simp_all
    then have m: "(if word_of_int n + 1 < str_m then word_of_int n + 1 else str_m) = ?m"
      by (auto simp: word_less_nat_alt word_unat_eq_iff)
    have e: "asnprintf sp malloc str_m fmt args errno =
        (if ?m = 0 then Inr (n, None, errno) else print_new sp malloc ?m n fmt args errno)"
      using False unfolding asnprintf_def v bindR_Inr prod.case m Let_def by simp
    show ?thesis
    proof (cases "?m = 0 \<or> malloc ?m = None")
      case True
      then show ?thesis using False unfolding e v by (auto simp: print_new_def Let_def)
    next
      case F: False
      then obtain b where b: "malloc ?m = Some b" by blast
      from print_new_ok [where malloc = malloc and m = ?m and n = n and b = b, OF assms(1-3) v b assms(4) [OF b], of errno] F show ?thesis
        using False b unfolding e v by (simp add: Let_def)
    qed
  qed
qed

text \<open>With no limit the functions that take one are the ones that do not.\<close>

theorem asprintf_is_unlimited:
  "asprintf sp malloc fmt args errno = asnprintf sp malloc (2 ^ 64 - 1) fmt args errno"
proof (cases "portable_vsnprintf sp [] fmt args")
  case (Inr r)
  then obtain n t where v: "portable_vsnprintf sp [] fmt args = Inr (n, t)" by (cases r) auto
  have "(word_of_int n + 1 :: u64) \<noteq> 0 \<and> word_of_int n + 1 < (2 ^ 64 - 1 :: u64)" if "0 \<le> n"
    using size_of_text [OF that int_value_range [OF v]] int_value_range [OF v] that
    by (auto simp: word_less_nat_alt)
  then show ?thesis using v unfolding asprintf_def asnprintf_def v bindR_Inr prod.case Let_def by auto
qed (simp add: asprintf_def asnprintf_def)

theorem asnprintf_two_passes_witness:
  "case asnprintf (\<lambda>w. ''0x0'') (\<lambda>k. Some (replicate (unat k) CHR ''?'')) 4 (Some ''load %5d'') [VInt 42] 0 of
     Inr (n, Some t, e) \<Rightarrow> n = 10 \<and> c_str t = ''loa'' \<and> e = 0 | _ \<Rightarrow> False"
proof -
  have "sp_ok (\<lambda>w. ''0x0'')" "args_ok [VInt 42]" "length (fmt_text (Some ''load %5d'')) < 2 ^ 64"
    by (simp_all add: sp_ok_def args_ok_def fmt_text_def c_str_def)
  note T = asnprintf_two_passes [OF this, of "\<lambda>k. Some (replicate (unat k) CHR ''?'')" 4 0, simplified]
  have v: "portable_vsnprintf (\<lambda>w. ''0x0'') [] (Some ''load %5d'') [VInt 42] = Inr (10, [])"
    by code_simp
  have w: "portable_vsnprintf (\<lambda>w. ''0x0'') (replicate 4 CHR ''?'') (Some ''load %5d'') [VInt 42] = Inr (10, ''loa'' @ [CHR 0x00])"
    by code_simp
  show ?thesis using T v w by (simp add: c_str_def)
qed

subsection \<open>The name of a thread\<close>

text \<open>
  \<^verbatim>\<open>src/git/log4cpp/src/PThreads.cpp\<close>, with the \<open>snprintf\<close> of the C library on \<open>%lu\<close> and \<open>asprintf\<close> as a
  parameter; \<open>None\<close> is \<open>std::bad_alloc\<close>.
\<close>

definition snprintf_lu :: "nat \<Rightarrow> u64 \<Rightarrow> int \<times> string" where
  "snprintf_lu bufsize w = (let s = digits_of (unat w) in (int (length s), take (bufsize - 1) s))"

definition getThreadId :: "(u64 \<Rightarrow> int \<times> string) \<Rightarrow> u64 \<Rightarrow> string option" where
  "getThreadId c_asprintf self =
     (let bufsize = 4 * 8; (n, buffer) = snprintf_lu bufsize self in
      if n \<ge> int bufsize then
        (let (sz, buff_alloc) = c_asprintf self in if sz < 0 then None else Some buff_alloc)
      else Some buffer)"

text \<open>The array is always large enough, so the name is the decimal number of the thread, and no two threads share one.\<close>

theorem thread_id_decimal:
  "getThreadId A self = Some (digits_of (unat self)) \<and> (getThreadId A self = getThreadId A' other \<longleftrightarrow> self = other)"
proof -
  have id: "getThreadId A w = Some (digits_of (unat w))" for A w
  proof -
    have "unat w < 2 ^ 64" using unsigned_less [of w] by simp
    also have "(2 :: nat) ^ 64 \<le> 10 ^ Suc 19" by simp
    finally have l: "length (digits_of (unat w)) \<le> Suc 19" by (rule digits_of_length)
    then show ?thesis by (simp add: getThreadId_def snprintf_lu_def Let_def)
  qed
  have "self = other" if "digits_of (unat self) = digits_of (unat other)"
    using arg_cong [OF that, of "\<lambda>s. read_digits s 0"] by (simp add: word_unat_eq_iff)
  then show ?thesis unfolding id by auto
qed

end
