(* ===== verification/LogProperties.thy ===== *)
theory LogProperties
  imports StringUtil CNumbers "HOL-Library.Char_ord" "HOL-Library.List_Lexorder"
begin

text \<open>
  \<^verbatim>\<open>src/git/log4cpp/src/Properties.cpp\<close>: the key-value file of the logging configuration. A
  \<open>std::map\<close> is the list of its pairs in the order of the keys, which is also the order in which
  the program iterates over it.
\<close>

subsection \<open>The map\<close>

type_synonym props = "(string \<times> string) list"

definition props_ok :: "props \<Rightarrow> bool" where
  "props_ok ps \<longleftrightarrow> sorted_wrt (<) (map fst ps)"

text \<open>\<open>insert\<close> leaves the value of a key that is there; \<open>operator[] =\<close> replaces it.\<close>

fun map_insert :: "'k :: linorder \<Rightarrow> 'v \<Rightarrow> ('k \<times> 'v) list \<Rightarrow> ('k \<times> 'v) list" where
  "map_insert k v [] = [(k, v)]"
| "map_insert k v ((k', v') # ps) =
     (if k < k' then (k, v) # (k', v') # ps else if k = k' then (k', v') # ps else (k', v') # map_insert k v ps)"

fun map_assign :: "'k :: linorder \<Rightarrow> 'v \<Rightarrow> ('k \<times> 'v) list \<Rightarrow> ('k \<times> 'v) list" where
  "map_assign k v [] = [(k, v)]"
| "map_assign k v ((k', v') # ps) =
     (if k < k' then (k, v) # (k', v') # ps else if k = k' then (k, v) # ps else (k', v') # map_assign k v ps)"

definition lower_bound :: "string \<Rightarrow> props \<Rightarrow> props" where
  "lower_bound k ps = dropWhile (\<lambda>(k', _). k' < k) ps"

lemma map_insert_keys: "fst ` set (map_insert k v ps) = insert k (fst ` set ps)"
  by (induction k v ps rule: map_insert.induct) auto

lemma map_assign_keys: "fst ` set (map_assign k v ps) = insert k (fst ` set ps)"
  by (induction k v ps rule: map_assign.induct) auto

lemma map_assign_sorted: "sorted_wrt (<) (map fst ps) \<Longrightarrow> sorted_wrt (<) (map fst (map_assign k v ps))"
proof (induction k v ps rule: map_assign.induct)
  case (2 k v k' v' ps)
  then show ?case using map_assign_keys [of k v ps] by auto
qed simp

lemma map_of_assign: "map_of (map_assign k v ps) = (map_of ps)(k \<mapsto> v)"
  by (induction k v ps rule: map_assign.induct) auto

lemma map_insert_sorted: "sorted_wrt (<) (map fst ps) \<Longrightarrow> sorted_wrt (<) (map fst (map_insert k v ps))"
proof (induction k v ps rule: map_insert.induct)
  case (2 k v k' v' ps)
  then show ?case using map_insert_keys [of k v ps] by auto
qed simp

lemma map_of_insert:
  "sorted_wrt (<) (map fst ps) \<Longrightarrow>
   map_of (map_insert k v ps) = (if map_of ps k = None then (map_of ps)(k \<mapsto> v) else map_of ps)"
proof (induction k v ps rule: map_insert.induct)
  case (2 k v k' v' ps)
  have "map_of ps k = None" if "k < k'"
  proof -
    have "\<forall>x \<in> fst ` set ps. k' < x" using 2(2) by auto
    then show ?thesis using that by (force simp: map_of_eq_None_iff)
  qed
  then show ?case using 2 by (auto simp: fun_eq_iff)
qed auto

subsection \<open>Substituting variables\<close>

definition var_value :: "(string \<Rightarrow> string option) \<Rightarrow> props \<Rightarrow> string \<Rightarrow> string" where
  "var_value getenv ps key =
     (if key = ''${'' then ''${''
      else (case getenv (c_str key) of
          Some env_value \<Rightarrow> env_value
        | None \<Rightarrow> (case map_of ps key of None \<Rightarrow> [] | Some v \<Rightarrow> v)))"

text \<open>The loop from \<open>left\<close>: what it still appends to \<open>result\<close>.\<close>

function subst_loop :: "(string \<Rightarrow> string option) \<Rightarrow> props \<Rightarrow> string \<Rightarrow> nat \<Rightarrow> string" where
  "subst_loop getenv ps value left =
     (case find_str_from ''${'' left value of
        None \<Rightarrow> drop left value
      | Some right \<Rightarrow> take (right - left) (drop left value) @
          (case find_from CHR ''}'' (right + 2) value of
             None \<Rightarrow> drop right value
           | Some close \<Rightarrow> var_value getenv ps (take (close - (right + 2)) (drop (right + 2) value)) @
               subst_loop getenv ps value (close + 1)))"
  by pat_completeness auto
termination
proof (relation "measure (\<lambda>(getenv, ps, value, left). length value - left)", goal_cases)
  case (2 getenv ps v left right close)
  have "left \<le> right" by (rule find_str_from_bound(1) [OF 2(1)])
  moreover have "right + 2 \<le> close \<and> close < length v" by (rule find_from_ge [OF 2(2)])
  ultimately have "left < close + 1" "left < length v" by simp_all
  then show ?case by (simp only: in_measure prod.case diff_less_mono2)
qed simp

declare subst_loop.simps [simp del]

definition substituteVariables :: "(string \<Rightarrow> string option) \<Rightarrow> props \<Rightarrow> string \<Rightarrow> string" where
  "substituteVariables getenv ps value =
     (if find_str_from ''${'' 0 value = None then value else subst_loop getenv ps value 0)"

subsection \<open>Loading and saving\<close>

text \<open>
  \<open>in.getline(line, 256)\<close> on the characters left: the text stored, the characters left, \<open>failbit\<close>
  and \<open>eofbit\<close>.
\<close>

definition nl_char :: char where
  "nl_char = CHR 0x0A"

definition getline255 :: "string \<Rightarrow> string \<times> string \<times> bool \<times> bool" where
  "getline255 s =
     (let l = takeWhile (\<lambda>c. c \<noteq> nl_char) s in
      if length l \<le> 255 then
        (if l = s then (l, [], s = [], True) else (l, drop (Suc (length l)) s, False, False))
      else (take 255 s, drop 255 s, True, False))"

lemma getline255_rest:
  assumes "getline255 s = (line, rest, fail, eof)" and "\<not> (fail \<and> eof)"
  shows "length rest < length s"
proof -
  let ?l = "takeWhile (\<lambda>c. c \<noteq> nl_char) s"
  have "?l \<noteq> s \<Longrightarrow> length ?l < length s"
    using length_takeWhile_le [of "\<lambda>c. c \<noteq> nl_char" s] takeWhile_dropWhile_id [of "\<lambda>c. c \<noteq> nl_char" s]
    by (metis append_Nil2 append_eq_append_conv_if le_neq_implies_less take_all_iff)
  moreover have "\<not> length ?l \<le> 255 \<Longrightarrow> s \<noteq> []" by auto
  ultimately show ?thesis using assms by (auto simp: getline255_def Let_def split: if_splits)
qed

definition strip_prefix :: "string \<Rightarrow> string" where
  "strip_prefix leftSide =
     (case find_char CHR ''.'' leftSide of
        None \<Rightarrow> leftSide
      | Some k \<Rightarrow> (if take k leftSide = ''log4j'' \<or> take k leftSide = ''log4cpp'' then drop (k + 1) leftSide else leftSide))"

definition process_command :: "(string \<Rightarrow> string option) \<Rightarrow> string \<Rightarrow> props \<Rightarrow> props" where
  "process_command getenv command ps =
     (case find_char CHR ''='' command of
        None \<Rightarrow> ps
      | Some k \<Rightarrow>
          map_insert (strip_prefix (trim (take k command)))
            (substituteVariables getenv ps (trim (drop (k + 1) command))) ps)"

definition process_line :: "(string \<Rightarrow> string option) \<Rightarrow> string \<Rightarrow> props \<Rightarrow> props" where
  "process_line getenv fullLine ps =
     (case find_char CHR ''#'' fullLine of
        None \<Rightarrow> process_command getenv fullLine ps
      | Some k \<Rightarrow> (if k > 0 then process_command getenv (take k fullLine) ps else ps))"

function load_loop :: "(string \<Rightarrow> string option) \<Rightarrow> string \<Rightarrow> bool \<Rightarrow> string \<Rightarrow> props \<Rightarrow> props" where
  "load_loop getenv s partiallyRead fullLine ps =
     (let (line, rest, fail, eof) = getline255 s;
          full = (if partiallyRead then fullLine @ c_str line else c_str line) in
      if fail \<and> \<not> eof then load_loop getenv rest True full ps
      else
        (let ps1 = process_line getenv full ps in
         if fail then ps1 else load_loop getenv rest False full ps1))"
  by pat_completeness auto
termination
proof (relation "measure (\<lambda>(getenv, s, pr, full, ps). length s)", goal_cases)
  case (2 getenv s pr full ps x line y rest z fail eof full')
  then show ?case using getline255_rest [of s line rest fail eof] by simp
next
  case (3 getenv s pr full ps x line y rest z fail eof full' ps1)
  then show ?case using getline255_rest [of s line rest fail eof] by simp
qed simp

declare load_loop.simps [simp del]

definition load :: "(string \<Rightarrow> string option) \<Rightarrow> string \<Rightarrow> props" where
  "load getenv content = load_loop getenv content False [] []"

definition save :: "props \<Rightarrow> string" where
  "save ps = concat (map (\<lambda>(k, v). k @ ''='' @ v @ [nl_char]) ps)"

definition getInt :: "props \<Rightarrow> string \<Rightarrow> i32 \<Rightarrow> i32" where
  "getInt ps property defaultValue = (case map_of ps property of None \<Rightarrow> defaultValue | Some v \<Rightarrow> atoi (c_str v))"

definition getBool :: "props \<Rightarrow> string \<Rightarrow> bool \<Rightarrow> bool" where
  "getBool ps property defaultValue = (case map_of ps property of None \<Rightarrow> defaultValue | Some v \<Rightarrow> v = ''true'')"

definition getString :: "props \<Rightarrow> string \<Rightarrow> string \<Rightarrow> string" where
  "getString ps property defaultValue = (case map_of ps property of None \<Rightarrow> defaultValue | Some v \<Rightarrow> v)"

subsection \<open>Properties of loading\<close>

lemma process_line_ok: "props_ok ps \<Longrightarrow> props_ok (process_line getenv full ps)"
  by (auto simp: process_line_def process_command_def props_ok_def map_insert_sorted split: option.splits)

lemma load_loop_ok: "props_ok ps \<Longrightarrow> props_ok (load_loop getenv s pr full ps)"
proof (induction getenv s pr full ps rule: load_loop.induct)
  case (1 getenv s pr full ps)
  obtain line rest fail eof where g: "getline255 s = (line, rest, fail, eof)" by (cases "getline255 s") auto
  let ?full = "if pr then full @ c_str line else c_str line"
  show ?case
  proof (cases "fail \<and> \<not> eof")
    case True
    then show ?thesis using 1 g by (simp add: load_loop.simps [of getenv s])
  next
    case False
    then show ?thesis
      using 1 g process_line_ok [OF 1(3), of getenv ?full] by (auto simp: load_loop.simps [of getenv s] Let_def)
  qed
qed

text \<open>A line without a newline or a zero, of any length, read in pieces of 255.\<close>

lemma load_line:
  assumes "nl_char \<notin> set l" and "CHR 0x00 \<notin> set l"
  shows "\<exists>full'. load_loop getenv (l @ nl_char # rest) pr full ps =
     load_loop getenv rest False full' (process_line getenv ((if pr then full else []) @ l) ps)"
  using assms
proof (induction "length l" arbitrary: l pr full rule: less_induct)
  case less
  let ?s = "l @ nl_char # rest"
  have t: "takeWhile (\<lambda>c. c \<noteq> nl_char) ?s = l"
    using less(2) by (simp add: takeWhile_tail) (metis takeWhile_eq_all_conv)
  show ?case
  proof (cases "length l \<le> 255")
    case True
    then have "getline255 ?s = (l, rest, False, False)" using t by (simp add: getline255_def Let_def)
    then show ?thesis
      using c_str_id [OF less(3)] by (simp add: load_loop.simps [of getenv ?s] Let_def) blast
  next
    case False
    then have g: "getline255 ?s = (take 255 l, drop 255 l @ nl_char # rest, True, False)"
      using t by (simp add: getline255_def Let_def)
    have z: "CHR 0x00 \<notin> set (take 255 l)" using less(3) by (auto dest: in_set_takeD)
    have "length (drop 255 l) < length l" "nl_char \<notin> set (drop 255 l)" "CHR 0x00 \<notin> set (drop 255 l)"
      using False less(2,3) by (auto dest: in_set_dropD)
    from less(1) [OF this, of True "(if pr then full else []) @ take 255 l"]
    obtain full' where "load_loop getenv (drop 255 l @ nl_char # rest) True ((if pr then full else []) @ take 255 l) ps =
        load_loop getenv rest False full' (process_line getenv ((if pr then full else []) @ l) ps)" by auto
    moreover have "load_loop getenv ?s pr full ps =
        load_loop getenv (drop 255 l @ nl_char # rest) True ((if pr then full else []) @ take 255 l) ps"
      using g c_str_id [OF z] by (simp add: load_loop.simps [of getenv ?s])
    ultimately show ?thesis by auto
  qed
qed

lemma load_end: "load_loop getenv [] False full ps = ps"
  by (simp add: load_loop.simps [of getenv "[]"] getline255_def c_str_def process_line_def process_command_def)

text \<open>Pairs that a line can hold as they are.\<close>

definition plain_pair :: "string \<times> string \<Rightarrow> bool" where
  "plain_pair kv \<longleftrightarrow>
     (let k = fst kv; v = snd kv in
      trim k = k \<and> trim v = v \<and> strip_prefix k = k \<and> find_str_from ''${'' 0 v = None \<and>
      CHR ''='' \<notin> set k \<and>
      (\<forall>c \<in> {CHR ''#'', nl_char, CHR 0x00}. c \<notin> set k \<and> c \<notin> set v))"

lemma process_plain:
  assumes "plain_pair (k, v)"
  shows "process_line getenv (k @ CHR ''='' # v) ps = map_insert k v ps"
proof -
  note a = assms [unfolded plain_pair_def Let_def fst_conv snd_conv]
  have "CHR ''#'' \<notin> set (k @ CHR ''='' # v)" using a by simp
  then have h: "find_char CHR ''#'' (k @ CHR ''='' # v) = None" by (rule find_char_None [THEN iffD2])
  have e: "find_char CHR ''='' (k @ CHR ''='' # v) = Some (length k)" using a by (intro find_char_append) simp
  show ?thesis using a by (simp add: process_line_def h process_command_def e substituteVariables_def)
qed

lemma map_insert_last: "\<forall>x \<in> set ps. fst x < k \<Longrightarrow> map_insert k v ps = ps @ [(k, v)]"
  by (induction k v ps rule: map_insert.induct) auto

lemma load_save_from:
  assumes "\<forall>kv \<in> set qs. plain_pair kv" and "sorted_wrt (<) (map fst (ps @ qs))"
  shows "load_loop getenv (save qs) False full ps = ps @ qs"
  using assms
proof (induction qs arbitrary: ps full)
  case Nil
  then show ?case by (simp add: save_def load_end)
next
  case (Cons kv qs)
  obtain k v where kv: "kv = (k, v)" by force
  have pp: "plain_pair (k, v)" using Cons(2) kv by simp
  note a = pp [unfolded plain_pair_def Let_def fst_conv snd_conv]
  have l: "nl_char \<notin> set (k @ CHR ''='' # v)" "CHR 0x00 \<notin> set (k @ CHR ''='' # v)"
    using a by (simp_all add: nl_char_def)
  have s: "save (kv # qs) = (k @ CHR ''='' # v) @ nl_char # save qs" by (simp add: save_def kv)
  have "\<forall>x \<in> set ps. fst x < k" using Cons(3) by (auto simp: kv sorted_wrt_append)
  then have i: "process_line getenv (k @ CHR ''='' # v) ps = ps @ [(k, v)]"
    using process_plain [OF pp] map_insert_last by simp
  obtain full' where "load_loop getenv (save (kv # qs)) False full ps = load_loop getenv (save qs) False full' (ps @ [(k, v)])"
    using load_line [OF l, of getenv "save qs" False full ps] i s by auto
  also have "\<dots> = (ps @ [(k, v)]) @ qs" using Cons(2,3) kv by (intro Cons(1)) simp_all
  finally show ?case using kv by simp
qed

text \<open>
  C29. Loading undoes saving, for entries of any length whose text has no comment, newline or variable
  and no white space at its ends, and whose keys do not begin with the name of the library.
\<close>

theorem properties_roundtrip:
  assumes "props_ok ps" and "\<forall>kv \<in> set ps. plain_pair kv"
  shows "load getenv (save ps) = ps"
  using load_save_from [OF assms(2), of "[]" getenv "[]"] assms(1) by (simp add: load_def props_ok_def)

theorem properties_roundtrip_witness:
  "load (\<lambda>_. None) (save [(''appender.rolling'', ''RollingFileAppender''), (''rootCategory'', ''DEBUG, rolling'')]) =
     [(''appender.rolling'', ''RollingFileAppender''), (''rootCategory'', ''DEBUG, rolling'')]"
  by (rule properties_roundtrip)
    (simp_all add: props_ok_def plain_pair_def trim_def find_last_not_of_def strip_prefix_def
      find_str_from_def nl_char_def Let_def)



end
