(* ===== verification/LogEvents.thy ===== *)
theory LogEvents
  imports LogPriority
begin

text \<open>
  \<^verbatim>\<open>src/git/log4cpp/src/\<close>: \<^verbatim>\<open>LoggingEvent.cpp\<close>, the nested diagnostic contexts of \<^verbatim>\<open>NDC.cpp\<close>, the
  filter chains of \<^verbatim>\<open>Filter.cpp\<close>, and the two plain layouts \<^verbatim>\<open>BasicLayout.cpp\<close> and
  \<^verbatim>\<open>SimpleLayout.cpp\<close>.
\<close>

subsection \<open>Nested diagnostic contexts\<close>

record DiagnosticContext =
  dc_message :: string
  dc_full :: string

definition DiagnosticContext_root :: "string \<Rightarrow> DiagnosticContext" where
  "DiagnosticContext_root message = \<lparr>dc_message = message, dc_full = message\<rparr>"

definition DiagnosticContext_nested :: "string \<Rightarrow> DiagnosticContext \<Rightarrow> DiagnosticContext" where
  "DiagnosticContext_nested message parent = \<lparr>dc_message = message, dc_full = dc_full parent @ '' '' @ message\<rparr>"

text \<open>The stack of a thread, its back last; and the flag with the stacks of all threads.\<close>

type_synonym ContextStack = "DiagnosticContext list"

record NDC =
  isUsedNDC :: bool
  nDC :: "nat \<Rightarrow> ContextStack option"

definition NDC0 :: NDC where
  "NDC0 = \<lparr>isUsedNDC = False, nDC = (\<lambda>_. None)\<rparr>"

text \<open>\<open>getNDC\<close> creates the thread's object on demand; \<open>on_ndc\<close> runs a method on it.\<close>

definition getNDC :: "nat \<Rightarrow> NDC \<Rightarrow> ContextStack" where
  "getNDC t n = (case nDC n t of None \<Rightarrow> [] | Some s \<Rightarrow> s)"

definition put_ndc :: "nat \<Rightarrow> ContextStack \<Rightarrow> NDC \<Rightarrow> NDC" where
  "put_ndc t s n = n\<lparr>nDC := (nDC n)(t \<mapsto> s)\<rparr>"

definition ndc_clear :: "nat \<Rightarrow> NDC \<Rightarrow> NDC" where
  "ndc_clear t n = put_ndc t [] n"

definition cloneStack :: "nat \<Rightarrow> NDC \<Rightarrow> ContextStack \<times> NDC" where
  "cloneStack t n = (getNDC t n, put_ndc t (getNDC t n) n)"

definition get_full :: "ContextStack \<Rightarrow> string" where
  "get_full s = (if s = [] then [] else dc_full (last s))"

definition ndc_get :: "nat \<Rightarrow> NDC \<Rightarrow> string \<times> NDC" where
  "ndc_get t n = (if isUsedNDC n then (get_full (getNDC t n), put_ndc t (getNDC t n) n) else ([], n))"

definition getDepth :: "nat \<Rightarrow> NDC \<Rightarrow> nat" where
  "getDepth t n = length (getNDC t n)"

text \<open>A null stack is dereferenced.\<close>

definition inherit :: "nat \<Rightarrow> ContextStack option \<Rightarrow> NDC \<Rightarrow> NDC res" where
  "inherit t stack n = (case stack of None \<Rightarrow> Inl NullDeref | Some s \<Rightarrow> Inr (put_ndc t s n))"

text \<open>\<open>_stack.back()\<close> of an empty vector is undefined.\<close>

definition ndc_pop :: "nat \<Rightarrow> NDC \<Rightarrow> (string \<times> NDC) res" where
  "ndc_pop t n =
     (let s = getNDC t n in
      if s = [] then Inl OutOfBounds else Inr (dc_message (last s), put_ndc t (butlast s) n))"

definition push_stack :: "string \<Rightarrow> ContextStack \<Rightarrow> ContextStack" where
  "push_stack message s =
     (if s = [] then s @ [DiagnosticContext_root message] else s @ [DiagnosticContext_nested message (last s)])"

definition ndc_push :: "nat \<Rightarrow> string \<Rightarrow> NDC \<Rightarrow> NDC" where
  "ndc_push t message n =
     (let n1 = (if \<not> isUsedNDC n then n\<lparr>isUsedNDC := True\<rparr> else n)
      in put_ndc t (push_stack message (getNDC t n1)) n1)"

definition setMaxDepth :: "nat \<Rightarrow> int \<Rightarrow> NDC \<Rightarrow> NDC" where
  "setMaxDepth t maxDepth n = put_ndc t (getNDC t n) n"

subsection \<open>Events\<close>

text \<open>The time stamp in seconds and milliseconds.\<close>

record LoggingEvent =
  categoryName :: string
  message :: string
  ndc :: string
  priority :: int
  threadName :: string
  seconds :: int
  milliSeconds :: int

definition LoggingEvent_new :: "string \<Rightarrow> int \<Rightarrow> int \<Rightarrow> string \<Rightarrow> string \<Rightarrow> string \<Rightarrow> int \<Rightarrow> LoggingEvent" where
  "LoggingEvent_new thread s ms category msg context prio =
     \<lparr>categoryName = category, message = msg, ndc = context, priority = prio, threadName = thread,
      seconds = s, milliSeconds = ms\<rparr>"

subsection \<open>Filters\<close>

datatype Decision = DENY | NEUTRAL | ACCEPT

text \<open>A filter with its own rule and the filter it owns as the next of the chain.\<close>

datatype filter = Filter (own_decide: "LoggingEvent \<Rightarrow> Decision") (getChainedFilter: "filter option")

definition Filter_new :: "(LoggingEvent \<Rightarrow> Decision) \<Rightarrow> filter" where
  "Filter_new d = Filter d None"

definition setChainedFilter :: "filter option \<Rightarrow> filter \<Rightarrow> filter" where
  "setChainedFilter c f = Filter (own_decide f) c"

fun getEndOfChain :: "filter \<Rightarrow> filter" where
  "getEndOfChain (Filter d None) = Filter d None"
| "getEndOfChain (Filter d (Some f)) = getEndOfChain f"

text \<open>The end of the chain is updated in place.\<close>

fun appendChainedFilter :: "filter option \<Rightarrow> filter \<Rightarrow> filter" where
  "appendChainedFilter c (Filter d None) = Filter d c"
| "appendChainedFilter c (Filter d (Some f)) = Filter d (Some (appendChainedFilter c f))"

fun decide :: "filter \<Rightarrow> LoggingEvent \<Rightarrow> Decision" where
  "decide (Filter d c) event =
     (let decision = d event in
      case c of
        None \<Rightarrow> decision
      | Some f \<Rightarrow> (if decision = NEUTRAL then decide f event else decision))"

subsection \<open>Plain layouts\<close>

definition show_int :: "int \<Rightarrow> string" where
  "show_int v = (if v < 0 then CHR ''-'' # digits_of (nat (- v)) else digits_of (nat v))"

definition newline :: string where
  "newline = [CHR 0x0A]"

definition BasicLayout_format :: "LoggingEvent \<Rightarrow> string res" where
  "BasicLayout_format event =
     bindR (getPriorityName (priority event)) (\<lambda>priorityName.
       Inr (show_int (seconds event) @ '' '' @ priorityName @ '' '' @ categoryName event @ '' '' @ ndc event @
         '': '' @ message event @ newline))"

text \<open>\<open>width\<close> applies to the next output only, aligned to the left.\<close>

definition SimpleLayout_format :: "LoggingEvent \<Rightarrow> string res" where
  "SimpleLayout_format event =
     bindR (getPriorityName (priority event)) (\<lambda>priorityName.
       Inr (priorityName @ replicate (MESSAGE_SIZE - length priorityName) CHR '' '' @ '': '' @ message event @ newline))"

definition PassThroughLayout_format :: "LoggingEvent \<Rightarrow> string res" where
  "PassThroughLayout_format event = Inr (message event)"

subsection \<open>Properties\<close>

text \<open>The full messages of a stack are the messages up to there, joined with blanks.\<close>

fun joined :: "string list \<Rightarrow> string" where
  "joined [] = []"
| "joined [m] = m"
| "joined (m # n # ms) = m @ '' '' @ joined (n # ms)"

lemma joined_snoc: "ms \<noteq> [] \<Longrightarrow> joined (ms @ [m]) = joined ms @ '' '' @ m"
  by (induction ms rule: joined.induct) auto

definition stack_ok :: "ContextStack \<Rightarrow> bool" where
  "stack_ok s \<longleftrightarrow> (\<forall>k < length s. dc_full (s ! k) = joined (map dc_message (take (Suc k) s)))"

lemma push_stack_ok: "stack_ok s \<Longrightarrow> stack_ok (push_stack m s)"
proof -
  assume s: "stack_ok s"
  have l: "length (push_stack m s) = Suc (length s)" by (simp add: push_stack_def)
  have "dc_full (push_stack m s ! k) = joined (map dc_message (take (Suc k) (push_stack m s)))"
    if k: "k < Suc (length s)" for k
  proof (cases "k < length s")
    case True
    then show ?thesis using s by (cases "s = []") (simp_all add: stack_ok_def push_stack_def nth_append)
  next
    case False
    then have k: "k = length s" using k by simp
    show ?thesis
    proof (cases "s = []")
      case True
      then show ?thesis using k by (simp add: push_stack_def DiagnosticContext_root_def)
    next
      case False
      then have "dc_full (last s) = joined (map dc_message s)"
        using s by (simp add: stack_ok_def last_conv_nth)
      then show ?thesis
        using k False joined_snoc [of "map dc_message s" m]
        by (simp add: push_stack_def nth_append DiagnosticContext_nested_def)
    qed
  qed
  then show ?thesis using l by (simp add: stack_ok_def)
qed

lemma stack_ok_butlast: "stack_ok s \<Longrightarrow> stack_ok (butlast s)"
  by (auto simp: stack_ok_def nth_butlast butlast_conv_take min_def)

lemma put_ndc_same [simp]: "getNDC t (put_ndc t s n) = s" "t' \<noteq> t \<Longrightarrow> getNDC t' (put_ndc t s n) = getNDC t' n"
  "isUsedNDC (put_ndc t s n) = isUsedNDC n"
  by (simp_all add: getNDC_def put_ndc_def)

text \<open>
  Diagnostic contexts nest: after pushing a message, the context printed is that of the thread
  with the message appended; popping gives the message back and the stack before; the contexts of
  other threads are not touched; and popping without a context is undefined, where the documentation
  promises an empty string.
\<close>

theorem ndc_nesting:
  assumes "stack_ok (getNDC t n)"
  shows "fst (ndc_get t (ndc_push t m n)) = joined (map dc_message (getNDC t n) @ [m]) \<and>
    (\<exists>n'. ndc_pop t (ndc_push t m n) = Inr (m, n') \<and> getNDC t n' = getNDC t n) \<and>
    stack_ok (getNDC t (ndc_push t m n)) \<and>
    (\<forall>t'. t' \<noteq> t \<longrightarrow> getNDC t' (ndc_push t m n) = getNDC t' n) \<and>
    (getNDC t n = [] \<longrightarrow> ndc_pop t n = Inl OutOfBounds)"
proof -
  let ?n1 = "if \<not> isUsedNDC n then n\<lparr>isUsedNDC := True\<rparr> else n"
  have g: "getNDC t' ?n1 = getNDC t' n" for t' by (simp add: getNDC_def)
  have p: "getNDC t (ndc_push t m n) = push_stack m (getNDC t n)"
    using g by (simp add: ndc_push_def Let_def)
  have u: "isUsedNDC (ndc_push t m n)" by (simp add: ndc_push_def Let_def)
  have ok: "stack_ok (push_stack m (getNDC t n))" by (rule push_stack_ok [OF assms])
  have l: "length (push_stack m (getNDC t n)) = Suc (length (getNDC t n))" by (simp add: push_stack_def)
  have ms: "map dc_message (push_stack m (getNDC t n)) = map dc_message (getNDC t n) @ [m]"
    by (simp add: push_stack_def DiagnosticContext_root_def DiagnosticContext_nested_def)
  have ne: "push_stack m (getNDC t n) \<noteq> []" using l by (cases "push_stack m (getNDC t n)") simp_all
  have "dc_full (last (push_stack m (getNDC t n))) = joined (map dc_message (push_stack m (getNDC t n)))"
    using ok l ne by (simp add: stack_ok_def last_conv_nth)
  then have "fst (ndc_get t (ndc_push t m n)) = joined (map dc_message (getNDC t n) @ [m])"
    using ms ne by (simp add: ndc_get_def u p get_full_def)
  moreover have "\<exists>n'. ndc_pop t (ndc_push t m n) = Inr (m, n') \<and> getNDC t n' = getNDC t n"
    using ne by (simp add: ndc_pop_def p Let_def)
      (simp add: push_stack_def DiagnosticContext_root_def DiagnosticContext_nested_def)
  moreover have "\<forall>t'. t' \<noteq> t \<longrightarrow> getNDC t' (ndc_push t m n) = getNDC t' n"
    using g by (simp add: ndc_push_def Let_def)
  ultimately show ?thesis using ok p by (simp add: ndc_pop_def)
qed

theorem ndc_nesting_witness:
  "fst (ndc_get 0 (ndc_push 0 ''b'' (ndc_push 0 ''a'' NDC0))) = ''a b''"
proof -
  have "stack_ok (getNDC 0 (ndc_push 0 ''a'' NDC0))"
    by (simp add: stack_ok_def ndc_push_def getNDC_def NDC0_def put_ndc_def push_stack_def DiagnosticContext_root_def)
  from ndc_nesting [OF this, of "''b''"] show ?thesis
    by (simp add: ndc_push_def getNDC_def NDC0_def put_ndc_def push_stack_def DiagnosticContext_root_def)
qed

text \<open>The rules of a chain, in order.\<close>

fun rules :: "filter \<Rightarrow> (LoggingEvent \<Rightarrow> Decision) list" where
  "rules (Filter d None) = [d]"
| "rules (Filter d (Some f)) = d # rules f"

fun first_decision :: "(LoggingEvent \<Rightarrow> Decision) list \<Rightarrow> LoggingEvent \<Rightarrow> Decision" where
  "first_decision [] e = NEUTRAL"
| "first_decision (d # ds) e = (if d e \<noteq> NEUTRAL then d e else first_decision ds e)"

lemma decide_first: "decide f e = first_decision (rules f) e"
  by (induction f rule: rules.induct) (auto simp: Let_def)

lemma rules_append: "rules (appendChainedFilter (Some g) f) = rules f @ rules g"
  by (induction f rule: rules.induct) auto

text \<open>
  A chain of filters decides like the list of its rules: the first rule that is not neutral
  decides, and an appended chain is asked only when the whole chain before it is neutral.
\<close>

theorem filter_chain:
  "decide f e = first_decision (rules f) e \<and>
   rules (appendChainedFilter (Some g) f) = rules f @ rules g \<and>
   decide (appendChainedFilter (Some g) f) e = (if decide f e = NEUTRAL then decide g e else decide f e)"
proof -
  have "first_decision (ds @ es) e = (if first_decision ds e = NEUTRAL then first_decision es e else first_decision ds e)" for ds es
    by (induction ds) auto
  then show ?thesis by (simp add: decide_first rules_append)
qed

end
