(* ===== verification/PatternLayout.thy ===== *)
theory PatternLayout
  imports LogEvents StringUtil
begin

text \<open>
  \<^verbatim>\<open>src/git/log4cpp/src/PatternLayout.cpp\<close>: the conversion pattern of a log line, its parser on an
  input stream, and the formatting of an event by the parsed components.
\<close>

subsection \<open>The input stream\<close>

text \<open>The characters left, the position, and the two state bits.\<close>

record istream =
  tail :: string
  pos :: nat
  eofbit :: bool
  failbit :: bool

definition istringstream :: "string \<Rightarrow> istream" where
  "istringstream s = \<lparr>tail = s, pos = 0, eofbit = False, failbit = False\<rparr>"

definition good :: "istream \<Rightarrow> bool" where
  "good i \<longleftrightarrow> \<not> eofbit i \<and> \<not> failbit i"

definition get :: "istream \<Rightarrow> char option \<times> istream" where
  "get i =
     (if \<not> good i then (None, i\<lparr>failbit := True\<rparr>)
      else (case tail i of
          [] \<Rightarrow> (None, i\<lparr>eofbit := True, failbit := True\<rparr>)
        | c # r \<Rightarrow> (Some c, i\<lparr>tail := r, pos := pos i + 1\<rparr>)))"

definition putback :: "char \<Rightarrow> istream \<Rightarrow> istream" where
  "putback c i = (if failbit i then i\<lparr>eofbit := False\<rparr>
     else i\<lparr>eofbit := False, tail := c # tail i, pos := pos i - 1\<rparr>)"

text \<open>
  \<open>in >> v\<close>: nothing happens to \<open>v\<close> when the stream is not good or has only white space left.
\<close>

definition stream_in :: "(string \<Rightarrow> 'a \<times> string \<times> bool) \<Rightarrow> istream \<Rightarrow> 'a \<Rightarrow> 'a \<times> istream" where
  "stream_in ex i old =
     (if \<not> good i then (old, i\<lparr>failbit := True\<rparr>)
      else if dropWhile is_space (tail i) = [] then
        (old, i\<lparr>tail := [], pos := pos i + length (tail i), eofbit := True, failbit := True\<rparr>)
      else
        (let (v, r, f) = ex (tail i) in
         (v, i\<lparr>tail := r, pos := pos i + (length (tail i) - length r), eofbit := r = [], failbit := f\<rparr>)))"

definition tellg :: "istream \<Rightarrow> int" where
  "tellg i = (if good i then int (pos i) else - 1)"

subsection \<open>Components\<close>

datatype component =
    StringLiteral string
  | CategoryName int
  | Message
  | NDCComponent
  | PriorityComponent
  | ThreadName
  | ProcessorTime
  | TimeStamp string string bool
  | SecondsSinceEpoch
  | MillisSinceEpoch
  | FormatModifier component u64 u64 bool

text \<open>\<open>junk\<close> is what \<open>_precision\<close> holds when the specifier is blank.\<close>

definition CategoryNameComponent :: "int \<Rightarrow> string \<Rightarrow> component" where
  "CategoryNameComponent junk specifier =
     CategoryName (if specifier = [] then - 1 else fst (stream_in extract_int (istringstream specifier) junk))"

definition FORMAT_ISO8601 :: string where "FORMAT_ISO8601 = ''%Y-%m-%d %H:%M:%S,%l''"
definition FORMAT_ABSOLUTE :: string where "FORMAT_ABSOLUTE = ''%H:%M:%S,%l''"
definition FORMAT_DATE :: string where "FORMAT_DATE = ''%d %b %Y %H:%M:%S,%l''"

definition TimeStampComponent :: "string \<Rightarrow> component" where
  "TimeStampComponent timeFormat =
     (let f = (if timeFormat = [] \<or> timeFormat = ''ISO8601'' then FORMAT_ISO8601
               else if timeFormat = ''ABSOLUTE'' then FORMAT_ABSOLUTE
               else if timeFormat = ''DATE'' then FORMAT_DATE else timeFormat) in
      case find_str ''%l'' f of
        None \<Rightarrow> TimeStamp f [] False
      | Some k \<Rightarrow> TimeStamp (take k f) (drop (k + 2) f) True)"

text \<open>
  What the components take from the C library: \<open>strftime\<close> on the local time of a second, into 100
  characters, \<open>clock\<close>, and the start time of the program.
\<close>

record cenv =
  strftime :: "string \<Rightarrow> int \<Rightarrow> string"
  clock_ticks :: int
  start_seconds :: int
  start_millis :: int

text \<open>
  The loop of \<open>CategoryNameComponent\<close> after \<open>i\<close> more rounds; \<open>begin\<close> is \<open>None\<close> for \<open>npos\<close>. \<open>begin - 2\<close>
  wraps below 2, and \<open>rfind\<close> then looks from the end.
\<close>

fun name_begin :: "nat \<Rightarrow> nat option \<Rightarrow> string \<Rightarrow> nat option" where
  "name_begin 0 b s = b"
| "name_begin (Suc i) b s =
     (case (case b of None \<Rightarrow> find_last CHR ''.'' s
              | Some k \<Rightarrow> if k < 2 then find_last CHR ''.'' s else rfind CHR ''.'' (k - 2) s) of
        None \<Rightarrow> Some 0
      | Some d \<Rightarrow> name_begin i (Some (d + 1)) s)"

definition name_part :: "int \<Rightarrow> string \<Rightarrow> string" where
  "name_part precision s =
     (if precision = - 1 then s
      else (case name_begin (nat precision) None s of None \<Rightarrow> s | Some b \<Rightarrow> drop b s))"

definition pad3 :: "int \<Rightarrow> string" where
  "pad3 v = replicate (3 - length (show_int v)) CHR ''0'' @ show_int v"

text \<open>\<open>formatted\<close> keeps indeterminate characters when the text does not fit.\<close>

definition timestamp_text :: "cenv \<Rightarrow> string \<Rightarrow> string \<Rightarrow> bool \<Rightarrow> LoggingEvent \<Rightarrow> string res" where
  "timestamp_text C f1 f2 printMillis event =
     (let timeFormat = (if printMillis then f1 @ pad3 (milliSeconds event) @ f2 else f1);
          formatted = strftime C (c_str timeFormat) (seconds event)
      in if length formatted < 100 then Inr formatted else Inl Uninitialised)"

definition modify :: "u64 \<Rightarrow> u64 \<Rightarrow> bool \<Rightarrow> string \<Rightarrow> string" where
  "modify minWidth maxWidth alignLeft text =
     (let msg = (if maxWidth > 0 \<and> unat maxWidth < length text then take (unat maxWidth) text else text);
          fillCount = unat minWidth - length msg
      in if unat minWidth > length msg then
           (if alignLeft then msg @ replicate fillCount CHR '' '' else replicate fillCount CHR '' '' @ msg)
         else msg)"

fun append_component :: "cenv \<Rightarrow> component \<Rightarrow> LoggingEvent \<Rightarrow> string res" where
  "append_component C (StringLiteral literal) event = Inr literal"
| "append_component C (CategoryName precision) event = Inr (name_part precision (categoryName event))"
| "append_component C Message event = Inr (message event)"
| "append_component C NDCComponent event = Inr (ndc event)"
| "append_component C PriorityComponent event = getPriorityName (priority event)"
| "append_component C ThreadName event = Inr (threadName event)"
| "append_component C ProcessorTime event = Inr (show_int (clock_ticks C))"
| "append_component C (TimeStamp f1 f2 ms) event = timestamp_text C f1 f2 ms event"
| "append_component C SecondsSinceEpoch event = Inr (show_int (seconds event))"
| "append_component C MillisSinceEpoch event =
     Inr (show_int ((seconds event - start_seconds C) * 1000 + (milliSeconds event - start_millis C)))"
| "append_component C (FormatModifier inner minWidth maxWidth alignLeft) event =
     bindR (append_component C inner event) (\<lambda>s. Inr (modify minWidth maxWidth alignLeft s))"

subsection \<open>Parsing a pattern\<close>

text \<open>
  The width and the precision of a conversion. \<open>junk\<close> is what the uninitialised \<open>ch2\<close> holds when
  there is no character.
\<close>

definition is_width_char :: "char \<Rightarrow> bool" where
  "is_width_char c \<longleftrightarrow> c = CHR ''-'' \<or> is_digit c"

definition left_in :: "char \<Rightarrow> char option \<Rightarrow> char" where
  "left_in ch2 c = (case c of None \<Rightarrow> ch2 | Some x \<Rightarrow> x)"

definition read_prefix :: "char \<Rightarrow> istream \<Rightarrow> int \<Rightarrow> u64 \<Rightarrow> int \<times> u64 \<times> istream" where
  "read_prefix junk i minWidth maxWidth =
     (let (c, i1) = get i;
          ch2 = left_in junk c;
          (ch3, m, i2) =
            (if is_width_char ch2 then
               (let (m, j) = stream_in extract_int (putback ch2 i1) minWidth; (c', j') = get j
                in (left_in ch2 c', m, j'))
             else (ch2, minWidth, i1))
      in if ch3 = CHR ''.'' then
           (let (w, j) = stream_in extract_size i2 maxWidth in (m, w, j))
         else (m, maxWidth, putback ch3 i2))"

text \<open>The text between braces, if there is a brace.\<close>

fun read_braces :: "string \<Rightarrow> string \<times> string \<times> bool" where
  "read_braces [] = ([], [], True)"
| "read_braces (c # r) = (if c = CHR ''}'' then ([], r, False) else (let (s, r', f) = read_braces r in (c # s, r', f)))"

definition read_postfix :: "istream \<Rightarrow> string \<times> istream" where
  "read_postfix i =
     (let (c, i1) = get i in
      case c of
        None \<Rightarrow> ([], i1)
      | Some x \<Rightarrow>
          (if x = CHR ''{'' then
             (let (s, r, f) = read_braces (tail i1) in
              (s, i1\<lparr>tail := r, pos := pos i1 + (length (tail i1) - length r), eofbit := f, failbit := f\<rparr>))
           else ([], putback x i1)))"

text \<open>The component of a conversion character, or the text it adds to the literal.\<close>

definition conversion_of :: "int \<Rightarrow> char \<Rightarrow> string \<Rightarrow> (string + component) option" where
  "conversion_of junk ch spec =
     (if ch = CHR ''%'' then Some (Inl [ch])
      else if ch = CHR ''m'' then Some (Inr Message)
      else if ch = CHR ''n'' then Some (Inl newline)
      else if ch = CHR ''c'' then Some (Inr (CategoryNameComponent junk spec))
      else if ch = CHR ''d'' then Some (Inr (TimeStampComponent spec))
      else if ch = CHR ''p'' then Some (Inr PriorityComponent)
      else if ch = CHR ''r'' then Some (Inr MillisSinceEpoch)
      else if ch = CHR ''R'' then Some (Inr SecondsSinceEpoch)
      else if ch = CHR ''t'' then Some (Inr ThreadName)
      else if ch = CHR ''u'' then Some (Inr ProcessorTime)
      else if ch = CHR ''x'' then Some (Inr NDCComponent)
      else None)"

text \<open>The variables of the loop: the pending literal, the widths and the components so far.\<close>

record pstate =
  literal :: string
  minw :: int
  maxw :: u64
  comps :: "component list"

definition push_literal :: "pstate \<Rightarrow> pstate" where
  "push_literal st = (if literal st \<noteq> [] then st\<lparr>comps := comps st @ [StringLiteral (literal st)], literal := []\<rparr> else st)"

text \<open>\<open>std::abs\<close> of the least \<open>int\<close> overflows.\<close>

definition push_component :: "component \<Rightarrow> pstate \<Rightarrow> pstate res" where
  "push_component c st =
     (let st1 = push_literal st in
      if minw st1 \<noteq> 0 \<or> maxw st1 \<noteq> 0 then
        (if minw st1 = - (2 ^ 31) then Inl SignedOverflow
         else Inr (st1\<lparr>comps := comps st1 @ [FormatModifier c (word_of_int \<bar>minw st1\<bar>) (maxw st1) (minw st1 < 0)],
             minw := 0, maxw := 0\<rparr>))
      else Inr (st1\<lparr>comps := comps st1 @ [c]\<rparr>))"

definition unterminated :: "string \<Rightarrow> istream \<Rightarrow> string" where
  "unterminated pat i = ''unterminated conversion specifier in '' @ [CHR 0x27] @ pat @ [CHR 0x27] @ '' at index '' @ show_int (tellg i)"

definition unknown_conversion :: "string \<Rightarrow> char \<Rightarrow> istream \<Rightarrow> string" where
  "unknown_conversion pat ch i = ''unknown conversion specifier '' @ [CHR 0x27, ch, CHR 0x27] @ '' in '' @ [CHR 0x27] @ pat @
     [CHR 0x27] @ '' at index '' @ show_int (tellg i)"

lemma get_length: "get i = (Some c, j) \<Longrightarrow> length (tail i) = Suc (length (tail j)) \<and> good i \<and> good j"
  by (auto simp: get_def good_def split: if_splits list.splits)

lemma get_None: "get i = (None, j) \<Longrightarrow> failbit j \<and> tail j = tail i"
  by (auto simp: get_def split: if_splits list.splits)

lemma stream_in_tail:
  assumes "\<And>s. length (fst (snd (ex s))) \<le> length s"
  shows "length (tail (snd (stream_in ex i old))) \<le> length (tail i)"
  using assms [of "tail i"] by (simp add: stream_in_def Let_def split_beta)

lemma putback_got: "get i = (c, j) \<Longrightarrow> length (tail (putback (left_in junk c) j)) \<le> length (tail i)"
  using get_length [of i _ j] get_None [of i j] by (cases c) (auto simp: putback_def good_def left_in_def)

lemma get_le: "length (tail (snd (get i))) \<le> length (tail i)"
  by (simp add: get_def split: list.split)

lemma not_width_dot [simp]: "\<not> is_width_char CHR ''.''" "\<not> is_width_char CHR ''%''"
  by (simp_all add: is_width_char_def is_digit_def)

lemma read_prefix_tail: "length (tail (snd (snd (read_prefix junk i m w)))) \<le> length (tail i)"
proof -
  obtain c i1 where g: "get i = (c, i1)" by force
  obtain ch2 where ch2: "ch2 = left_in junk c" by blast
  have i1: "length (tail i1) \<le> length (tail i)" using get_le [of i] g by simp
  have pb: "length (tail (putback ch2 i1)) \<le> length (tail i)" using putback_got [OF g] by (simp add: ch2)
  have sz: "length (tail (snd (stream_in extract_size k w))) \<le> length (tail k)" for k
    by (rule stream_in_tail) (rule extract_length)
  show ?thesis
  proof (cases "is_width_char ch2")
    case False
    have "length (tail (snd (stream_in extract_size i1 w))) \<le> length (tail i)" using sz [of i1] i1 by simp
    then show ?thesis using False g pb by (simp add: read_prefix_def Let_def split_beta ch2 [symmetric])
  next
    case True
    obtain m' j where e: "stream_in extract_int (putback ch2 i1) m = (m', j)" by force
    have j: "length (tail j) \<le> length (tail i)"
      using stream_in_tail [of extract_int "putback ch2 i1" m] extract_length(1) e pb by force
    obtain c' j' where g': "get j = (c', j')" by force
    have 1: "length (tail (snd (stream_in extract_size j' w))) \<le> length (tail i)"
      using sz [of j'] get_le [of j] g' j by simp
    have 2: "length (tail (putback (left_in ch2 c') j')) \<le> length (tail i)"
      using putback_got [OF g', of ch2] j by simp
    show ?thesis
      using True g e g' 1 2 by (simp add: read_prefix_def Let_def split_beta ch2 [symmetric])
  qed
qed

lemma read_braces_length: "length (fst (snd (read_braces s))) \<le> length s"
  by (induction s rule: read_braces.induct) (auto simp: Let_def split_beta)

lemma read_postfix_tail: "length (tail (snd (read_postfix i))) \<le> length (tail i)"
proof -
  obtain c i1 where g: "get i = (c, i1)" by force
  show ?thesis
  proof (cases c)
    case None
    then show ?thesis using g get_None [of i i1] by (simp add: read_postfix_def)
  next
    case (Some x)
    have "length (tail i) = Suc (length (tail i1))" using get_length [of i x i1] g Some by simp
    then show ?thesis
      using g Some read_braces_length [of "tail i1"] putback_got [OF g, of x]
      by (simp add: read_postfix_def Let_def split_beta left_in_def)
  qed
qed

lemma get_step: "get i = (Some c, j) \<Longrightarrow> length (tail j) < length (tail i)"
  using get_length by simp

lemma conversion_step:
  assumes "(Some ch, i1) = get i" and "(m', p) = read_prefix junk i1 m w" and "(w', i2) = p" and "(Some ch', i3) = get i2"
    and "(spec, i4) = read_postfix i3"
  shows "length (tail i4) < length (tail i)"
proof -
  have "length (tail i4) \<le> length (tail i3)" using read_postfix_tail [of i3] assms(5) [symmetric] by simp
  also have "\<dots> < length (tail i2)" by (rule get_step [OF assms(4) [symmetric]])
  also have "\<dots> \<le> length (tail i1)"
    using read_prefix_tail [of junk i1 m w] by (simp add: assms(2) [symmetric] assms(3) [symmetric])
  also have "\<dots> < length (tail i)" by (rule get_step [OF assms(1) [symmetric]])
  finally show ?thesis .
qed

text \<open>
  The loop; it ends with the message of the exception, if there is one, and the variables.
\<close>

function parse_loop :: "char \<Rightarrow> int \<Rightarrow> string \<Rightarrow> istream \<Rightarrow> pstate \<Rightarrow> (string option \<times> pstate) res" where
  "parse_loop junk junkp pat i st =
     (case get i of
        (None, _) \<Rightarrow> Inr (None, push_literal st)
      | (Some ch, i1) \<Rightarrow>
          if ch = CHR ''%'' then
            (let (m, w, i2) = read_prefix junk i1 (minw st) (maxw st); st1 = st\<lparr>minw := m, maxw := w\<rparr> in
             case get i2 of
               (None, i3) \<Rightarrow> Inr (Some (unterminated pat i3), st1)
             | (Some ch, i3) \<Rightarrow>
                 (let (spec, i4) = read_postfix i3 in
                  case conversion_of junkp ch spec of
                    None \<Rightarrow> Inr (Some (unknown_conversion pat ch i4), st1)
                  | Some (Inl s) \<Rightarrow> parse_loop junk junkp pat i4 (st1\<lparr>literal := literal st1 @ s\<rparr>)
                  | Some (Inr c) \<Rightarrow> bindR (push_component c st1) (\<lambda>st2. parse_loop junk junkp pat i4 st2)))
          else parse_loop junk junkp pat i1 (st\<lparr>literal := literal st @ [ch]\<rparr>))"
  by pat_completeness auto
termination
proof (relation "measure (\<lambda>(junk, junkp, pat, i, st). length (tail i))", goal_cases)
  case 1
  then show ?case by simp
next
  case 2
  show ?case unfolding in_measure case_prod_conv 
    by (rule conversion_step [OF 2(1) [unfolded 2(2)] 2(5) [unfolded 2(4)] 2(6) 2(8) [unfolded 2(9)] 2(11) [unfolded 2(10)]])
next
  case 3
  show ?case unfolding in_measure case_prod_conv 
    by (rule conversion_step [OF 3(1) [unfolded 3(2)] 3(5) [unfolded 3(4)] 3(6) 3(8) [unfolded 3(9)] 3(11) [unfolded 3(10)]])
next
  case 4
  then show ?case using get_step by (metis in_measure case_prod_conv)
qed

declare parse_loop.simps [simp del]

record PatternLayout =
  conversionPattern :: string
  components :: "component list"

text \<open>An exception leaves the components pushed so far and an empty pattern.\<close>

definition clearConversionPattern :: "PatternLayout \<Rightarrow> PatternLayout" where
  "clearConversionPattern l = l\<lparr>components := [], conversionPattern := []\<rparr>"

definition setConversionPattern ::
  "char \<Rightarrow> int \<Rightarrow> string \<Rightarrow> PatternLayout \<Rightarrow> (string option \<times> PatternLayout) res" where
  "setConversionPattern junk junkp pat l =
     (let l1 = clearConversionPattern l in
      bindR (parse_loop junk junkp pat (istringstream pat) \<lparr>literal = [], minw = 0, maxw = 0, comps = []\<rparr>) (\<lambda>(e, st).
        Inr (case e of
            Some msg \<Rightarrow> (Some msg, l1\<lparr>components := comps st\<rparr>)
          | None \<Rightarrow> (None, l1\<lparr>components := comps st, conversionPattern := pat\<rparr>))))"

definition DEFAULT_CONVERSION_PATTERN :: string where "DEFAULT_CONVERSION_PATTERN = ''%m%n''"
definition SIMPLE_CONVERSION_PATTERN :: string where "SIMPLE_CONVERSION_PATTERN = ''%p - %m%n''"
definition BASIC_CONVERSION_PATTERN :: string where "BASIC_CONVERSION_PATTERN = ''%R %p %c %x: %m%n''"
definition TTCC_CONVERSION_PATTERN :: string where "TTCC_CONVERSION_PATTERN = ''%r [%t] %p %c %x - %m%n''"

text \<open>The constructor drops an exception.\<close>

definition PatternLayout_new :: "char \<Rightarrow> int \<Rightarrow> PatternLayout res" where
  "PatternLayout_new junk junkp =
     bindR (setConversionPattern junk junkp DEFAULT_CONVERSION_PATTERN \<lparr>conversionPattern = [], components = []\<rparr>) (\<lambda>(_, l). Inr l)"

fun format_components :: "cenv \<Rightarrow> component list \<Rightarrow> LoggingEvent \<Rightarrow> string res" where
  "format_components C [] event = Inr []"
| "format_components C (c # cs) event =
     bindR (append_component C c event) (\<lambda>s. bindR (format_components C cs event) (\<lambda>r. Inr (s @ r)))"

definition PatternLayout_format :: "cenv \<Rightarrow> PatternLayout \<Rightarrow> LoggingEvent \<Rightarrow> string res" where
  "PatternLayout_format C l event = format_components C (components l) event"

text \<open>\<open>pattern\<close> is the optional parameter of the layout.\<close>

definition create_pattern_layout :: "char \<Rightarrow> int \<Rightarrow> string option \<Rightarrow> (string option \<times> PatternLayout) res" where
  "create_pattern_layout junk junkp param =
     (let pattern = (case param of None \<Rightarrow> [] | Some s \<Rightarrow> s) in
      bindR (PatternLayout_new junk junkp) (\<lambda>l.
        if pattern = [] \<or> pattern = ''default'' then Inr (None, l)
        else setConversionPattern junk junkp
          (if pattern = ''simple'' then SIMPLE_CONVERSION_PATTERN
           else if pattern = ''basic'' then BASIC_CONVERSION_PATTERN
           else if pattern = ''ttcc'' then TTCC_CONVERSION_PATTERN else pattern) l))"

subsection \<open>Properties\<close>

definition fresh :: "string \<Rightarrow> nat \<Rightarrow> istream" where
  "fresh s k = \<lparr>tail = s, pos = k, eofbit = False, failbit = False\<rparr>"

lemma get_fresh [simp]: "get (fresh (c # s) k) = (Some c, fresh s (Suc k))" "fst (get (fresh [] k)) = None"
  by (simp_all add: get_def fresh_def good_def)

lemma putback_fresh [simp]: "putback c (fresh s (Suc k)) = fresh (c # s) k"
  by (simp add: putback_def fresh_def)

lemma read_prefix_plain [simp]:
  "\<not> is_width_char c \<Longrightarrow> c \<noteq> CHR ''.'' \<Longrightarrow> read_prefix junk (fresh (c # s) k) m w = (m, w, fresh (c # s) k)"
  by (simp add: read_prefix_def left_in_def)

lemma read_postfix_plain [simp]: "c \<noteq> CHR ''{'' \<Longrightarrow> read_postfix (fresh (c # s) k) = ([], fresh (c # s) k)"
  by (simp add: read_postfix_def)

lemma parse_end [simp]: "parse_loop junk junkp pat (fresh [] k) st = Inr (None, push_literal st)"
proof -
  obtain j where "get (fresh [] k) = (None, j)" using get_fresh(2) [of k] by (cases "get (fresh [] k)") simp
  then show ?thesis by (subst parse_loop.simps) simp
qed

lemma parse_char [simp]:
  "c \<noteq> CHR ''%'' \<Longrightarrow>
   parse_loop junk junkp pat (fresh (c # s) k) st = parse_loop junk junkp pat (fresh s (Suc k)) (st\<lparr>literal := literal st @ [c]\<rparr>)"
  by (subst parse_loop.simps) simp

text \<open>A conversion without width, followed by something else than a brace.\<close>

definition run_conversion :: "char \<Rightarrow> int \<Rightarrow> string \<Rightarrow> istream \<Rightarrow> pstate \<Rightarrow> char \<Rightarrow> (string option \<times> pstate) res" where
  "run_conversion junk junkp pat i st c =
     (case conversion_of junkp c [] of
        None \<Rightarrow> Inr (Some (unknown_conversion pat c i), st)
      | Some (Inl s) \<Rightarrow> parse_loop junk junkp pat i (st\<lparr>literal := literal st @ s\<rparr>)
      | Some (Inr x) \<Rightarrow> bindR (push_component x st) (parse_loop junk junkp pat i))"

lemma parse_conversion:
  assumes "\<not> is_width_char c" and "c \<noteq> CHR ''.''" and "s = [] \<or> hd s \<noteq> CHR ''{''"
  shows "\<exists>i. parse_loop junk junkp pat (fresh (CHR ''%'' # c # s) k) st = run_conversion junk junkp pat i st c \<and>
    (s \<noteq> [] \<longrightarrow> i = fresh s (Suc (Suc k))) \<and> (s = [] \<longrightarrow> fst (get i) = None)"
proof (cases s)
  case Nil
  obtain j where j: "get (fresh [] (Suc (Suc k))) = (None, j)" "\<not> good j"
    by (simp add: get_def fresh_def good_def)
  have "read_postfix (fresh [] (Suc (Suc k))) = ([], j)" using j by (simp add: read_postfix_def)
  moreover have "fst (get j) = None" using j(2) by (simp add: get_def)
  ultimately show ?thesis
    using assms Nil by (intro exI [of _ j], subst parse_loop.simps) (simp add: run_conversion_def)
next
  case (Cons d r)
  then show ?thesis
    using assms by (intro exI [of _ "fresh s (Suc (Suc k))"], subst parse_loop.simps) (simp add: run_conversion_def)
qed

lemma parse_conversion_Cons [simp]:
  "\<not> is_width_char c \<Longrightarrow> c \<noteq> CHR ''.'' \<Longrightarrow> d \<noteq> CHR ''{'' \<Longrightarrow>
   parse_loop junk junkp pat (fresh (CHR ''%'' # c # d # s) k) st =
     run_conversion junk junkp pat (fresh (d # s) (Suc (Suc k))) st c"
  using parse_conversion [of c "d # s" junk junkp pat k st] by auto

lemma parse_None: "fst (get i) = None \<Longrightarrow> parse_loop junk junkp pat i st = Inr (None, push_literal st)"
  by (subst parse_loop.simps) (simp add: split_beta)

lemma parse_last_literal:
  assumes "\<not> is_width_char c" and "c \<noteq> CHR ''.''" and "conversion_of junkp c [] = Some (Inl s)"
  shows "parse_loop junk junkp pat (fresh [CHR ''%'', c] k) st = Inr (None, push_literal (st\<lparr>literal := literal st @ s\<rparr>))"
  using parse_conversion [of c "[]" junk junkp pat k st] assms by (auto simp: run_conversion_def parse_None)

lemma istringstream_fresh: "istringstream s = fresh s 0"
  by (simp add: istringstream_def fresh_def)

fun escape :: "string \<Rightarrow> string" where
  "escape [] = []"
| "escape (c # s) = (if c = CHR ''%'' then CHR ''%'' # CHR ''%'' # escape s else c # escape s)"

fun no_brace :: "string \<Rightarrow> bool" where
  "no_brace (c # d # s) \<longleftrightarrow> \<not> (c = CHR ''%'' \<and> d = CHR ''{'') \<and> no_brace (d # s)"
| "no_brace s \<longleftrightarrow> True"

lemma conversion_of_percent [simp]: "conversion_of junkp CHR ''%'' spec = Some (Inl ''%'')"
  by (simp add: conversion_of_def)

lemma parse_escape:
  "no_brace s \<Longrightarrow> parse_loop junk junkp pat (fresh (escape s) k) st =
     Inr (None, push_literal (st\<lparr>literal := literal st @ s\<rparr>))"
proof (induction s arbitrary: k st rule: no_brace.induct)
  case (1 c d s)
  then have nb: "no_brace (d # s)" by simp
  show ?case
  proof (cases "c = CHR ''%''")
    case True
    then have d: "d \<noteq> CHR ''{''" using 1 by simp
    obtain r e where e: "escape (d # s) = e # r" "e \<noteq> CHR ''{''" using d by (cases "d = CHR ''%''") auto
    have "parse_loop junk junkp pat (fresh (escape (c # d # s)) k) st =
        parse_loop junk junkp pat (fresh (escape (d # s)) (Suc (Suc k))) (st\<lparr>literal := literal st @ [c]\<rparr>)"
      using True e by (simp add: run_conversion_def del: escape.simps(2)) (simp add: run_conversion_def)
    then show ?thesis using 1(1) [OF nb, of "Suc (Suc k)" "st\<lparr>literal := literal st @ [c]\<rparr>"] by simp
  next
    case False
    then have "escape (c # d # s) = c # escape (d # s)" by simp
    then show ?thesis using False 1(1) [OF nb, of "Suc k" "st\<lparr>literal := literal st @ [c]\<rparr>"] by simp
  qed
qed (simp_all add: parse_last_literal)

text \<open>
  C31. Text is quoted by doubling its percent signs: if no brace follows a percent sign, the doubled
  text is accepted as a pattern, and the layout prints the text for every event. A brace is swallowed.
\<close>

theorem pattern_quotes:
  assumes "no_brace s"
  shows "\<exists>l'. setConversionPattern junk junkp (escape s) l = Inr (None, l') \<and>
    conversionPattern l' = escape s \<and> (\<forall>C e. PatternLayout_format C l' e = Inr s) \<and>
    setConversionPattern junk junkp (escape ''%{'') l = Inr (None, l'\<lparr>conversionPattern := ''%%{'', components := [StringLiteral ''%'']\<rparr>)"
proof -
  let ?st = "push_literal \<lparr>literal = s, minw = 0, maxw = 0, comps = []\<rparr>"
  let ?l = "l\<lparr>components := comps ?st, conversionPattern := escape s\<rparr>"
  have 1: "setConversionPattern junk junkp (escape s) l = Inr (None, ?l)"
    using parse_escape [OF assms, of junk junkp "escape s" 0 "\<lparr>literal = [], minw = 0, maxw = 0, comps = []\<rparr>"]
    by (simp add: setConversionPattern_def istringstream_fresh clearConversionPattern_def)
  have 2: "PatternLayout_format C ?l e = Inr s" for C e
    by (simp add: PatternLayout_format_def push_literal_def)
  have 3: "setConversionPattern junk junkp (escape ''%{'') l =
      Inr (None, ?l\<lparr>conversionPattern := ''%%{'', components := [StringLiteral ''%'']\<rparr>)"
  proof -
    obtain j where j: "read_postfix (fresh ''{'' 2) = ([], j)" "fst (get j) = None"
      by (simp add: read_postfix_def numeral_2_eq_2 fresh_def get_def good_def)
    then have "parse_loop junk junkp ''%%{'' (fresh ''%%{'' 0) st = Inr (None, push_literal (st\<lparr>literal := literal st @ ''%''\<rparr>))" for st
      by (subst parse_loop.simps) (simp add: parse_None numeral_2_eq_2)
    then show ?thesis
      by (simp add: setConversionPattern_def istringstream_fresh clearConversionPattern_def push_literal_def)
  qed
  show ?thesis using 1 2 3 by (intro exI [of _ ?l]) simp
qed

theorem pattern_quotes_witness:
  "\<exists>l'. setConversionPattern CHR ''x'' 0 ''100%%'' \<lparr>conversionPattern = [], components = []\<rparr> = Inr (None, l') \<and>
     (\<forall>C e. PatternLayout_format C l' e = Inr ''100%'')"
  using pattern_quotes [of "''100%''" "CHR ''x''" 0 "\<lparr>conversionPattern = [], components = []\<rparr>"] by force

lemma conversion_of_simps [simp]:
  "conversion_of junkp CHR ''m'' spec = Some (Inr Message)"
  "conversion_of junkp CHR ''n'' spec = Some (Inl newline)"
  "conversion_of junkp CHR ''p'' spec = Some (Inr PriorityComponent)"
  "conversion_of junkp CHR ''R'' spec = Some (Inr SecondsSinceEpoch)"
  "conversion_of junkp CHR ''x'' spec = Some (Inr NDCComponent)"
  "conversion_of junkp CHR ''c'' [] = Some (Inr (CategoryName (- 1)))"
  by (simp_all add: conversion_of_def CategoryNameComponent_def)

lemma newline_ne [simp]: "newline \<noteq> []"
  by (simp add: newline_def)

lemma not_width_simps [simp]:
  "\<not> is_width_char CHR ''m''" "\<not> is_width_char CHR ''n''" "\<not> is_width_char CHR ''p''"
  "\<not> is_width_char CHR ''R''" "\<not> is_width_char CHR ''x''" "\<not> is_width_char CHR ''c''"
  by (simp_all add: is_width_char_def is_digit_def)

lemma set_basic:
  "setConversionPattern junk junkp BASIC_CONVERSION_PATTERN l = Inr (None,
     l\<lparr>conversionPattern := BASIC_CONVERSION_PATTERN, components :=
        [SecondsSinceEpoch, StringLiteral '' '', PriorityComponent, StringLiteral '' '', CategoryName (- 1),
         StringLiteral '' '', NDCComponent, StringLiteral '': '', Message, StringLiteral newline]\<rparr>)"
  by (simp add: setConversionPattern_def BASIC_CONVERSION_PATTERN_def istringstream_fresh run_conversion_def
      push_component_def push_literal_def parse_last_literal clearConversionPattern_def)

lemma set_simple:
  "setConversionPattern junk junkp SIMPLE_CONVERSION_PATTERN l = Inr (None,
     l\<lparr>conversionPattern := SIMPLE_CONVERSION_PATTERN, components :=
        [PriorityComponent, StringLiteral '' - '', Message, StringLiteral newline]\<rparr>)"
  by (simp add: setConversionPattern_def SIMPLE_CONVERSION_PATTERN_def istringstream_fresh run_conversion_def
      push_component_def push_literal_def parse_last_literal clearConversionPattern_def)

lemma set_default:
  "setConversionPattern junk junkp DEFAULT_CONVERSION_PATTERN l = Inr (None,
     l\<lparr>conversionPattern := DEFAULT_CONVERSION_PATTERN, components := [Message, StringLiteral newline]\<rparr>)"
  by (simp add: setConversionPattern_def DEFAULT_CONVERSION_PATTERN_def istringstream_fresh run_conversion_def
      push_component_def push_literal_def parse_last_literal clearConversionPattern_def)

lemma PatternLayout_new_ok:
  "PatternLayout_new junk junkp =
     Inr \<lparr>conversionPattern = DEFAULT_CONVERSION_PATTERN, components = [Message, StringLiteral newline]\<rparr>"
  by (simp add: PatternLayout_new_def set_default)

lemma name_part_all [simp]: "name_part (- 1) s = s"
  by (simp add: name_part_def)

lemma simple_differs: "p @ '' - '' @ m \<noteq> p @ replicate k CHR '' '' @ '': '' @ m'"
proof (cases k)
  case 0
  then show ?thesis by simp
next
  case (Suc j)
  then show ?thesis by (cases j) simp_all
qed

text \<open>
  The pattern layout called \<open>basic\<close> prints every event as the basic layout does, undefined
  priorities included; the one called \<open>simple\<close> never prints an event as the simple layout does,
  unless its priority has no name, and both run into undefined behaviour.
\<close>

theorem predefined_patterns:
  "(\<exists>l. create_pattern_layout junk junkp (Some ''basic'') = Inr (None, l) \<and>
      (\<forall>C e. PatternLayout_format C l e = BasicLayout_format e)) \<and>
   (\<exists>l. create_pattern_layout junk junkp (Some ''simple'') = Inr (None, l) \<and>
      (\<forall>C e. PatternLayout_format C l e = SimpleLayout_format e \<longleftrightarrow> \<not> defined (getPriorityName (priority e))))"
proof
  have 1: "create_pattern_layout junk junkp (Some ''basic'') =
      setConversionPattern junk junkp BASIC_CONVERSION_PATTERN
        \<lparr>conversionPattern = DEFAULT_CONVERSION_PATTERN, components = [Message, StringLiteral newline]\<rparr>"
    by (simp add: create_pattern_layout_def PatternLayout_new_ok)
  show "\<exists>l. create_pattern_layout junk junkp (Some ''basic'') = Inr (None, l) \<and>
      (\<forall>C e. PatternLayout_format C l e = BasicLayout_format e)"
    unfolding 1 set_basic by (simp add: PatternLayout_format_def BasicLayout_format_def bindR_assoc)
  have 2: "create_pattern_layout junk junkp (Some ''simple'') =
      setConversionPattern junk junkp SIMPLE_CONVERSION_PATTERN
        \<lparr>conversionPattern = DEFAULT_CONVERSION_PATTERN, components = [Message, StringLiteral newline]\<rparr>"
    by (simp add: create_pattern_layout_def PatternLayout_new_ok)
  show "\<exists>l. create_pattern_layout junk junkp (Some ''simple'') = Inr (None, l) \<and>
      (\<forall>C e. PatternLayout_format C l e = SimpleLayout_format e \<longleftrightarrow> \<not> defined (getPriorityName (priority e)))"
    unfolding 2 set_simple
  proof (intro exI conjI allI, rule refl)
    fix C e
    show "PatternLayout_format C (\<lparr>conversionPattern = DEFAULT_CONVERSION_PATTERN, components = [Message, StringLiteral newline]\<rparr>
        \<lparr>conversionPattern := SIMPLE_CONVERSION_PATTERN, components :=
          [PriorityComponent, StringLiteral '' - '', Message, StringLiteral newline]\<rparr>) e = SimpleLayout_format e \<longleftrightarrow>
        \<not> defined (getPriorityName (priority e))"
      using simple_differs
      by (cases "getPriorityName (priority e)") (simp_all add: PatternLayout_format_def SimpleLayout_format_def bindR_assoc)
  qed
qed

text \<open>
  A width in a conversion: the text of the component is cut to the maximum, if that is not zero,
  then filled with blanks up to the minimum, on the side the sign asks for.
\<close>

theorem modifier_width:
  assumes "append_component C c e = Inr s"
  shows "\<exists>t. append_component C (FormatModifier c minWidth maxWidth alignLeft) e = Inr t \<and>
    (let cut = (if maxWidth = 0 then s else take (unat maxWidth) s);
         blanks = replicate (unat minWidth - length cut) CHR '' ''
     in t = (if alignLeft then cut @ blanks else blanks @ cut) \<and> length t = max (unat minWidth) (length cut))"
proof -
  have "(if maxWidth > 0 \<and> unat maxWidth < length s then take (unat maxWidth) s else s) =
      (if maxWidth = 0 then s else take (unat maxWidth) s)"
    by (simp add: word_neq_0_conv)
  then show ?thesis using assms by (auto simp: modify_def Let_def)
qed

theorem modifier_width_witness:
  "\<exists>t. append_component \<lparr>strftime = (\<lambda>_ _. []), clock_ticks = 0, start_seconds = 0, start_millis = 0\<rparr>
      (FormatModifier (StringLiteral ''abc'') 4 2 True) (LoggingEvent_new [] 0 0 [] [] [] 0) = Inr t \<and> length t = 4"
proof -
  have "append_component \<lparr>strftime = (\<lambda>_ _. []), clock_ticks = 0, start_seconds = 0, start_millis = 0\<rparr>
      (StringLiteral ''abc'') (LoggingEvent_new [] 0 0 [] [] [] 0) = Inr ''abc''" by simp
  from modifier_width [OF this, of 4 2 True] show ?thesis by (auto simp: Let_def)
qed

text \<open>The start of part \<open>k\<close> of a dotted name.\<close>

definition part_start :: "string list \<Rightarrow> nat \<Rightarrow> nat" where
  "part_start segs k = (if k = 0 then 0 else Suc (length (join_with CHR ''.'' (take k segs))))"

lemma join_with_append:
  "xs \<noteq> [] \<Longrightarrow> ys \<noteq> [] \<Longrightarrow> join_with d (xs @ ys) = join_with d xs @ d # join_with d ys"
proof (induction xs)
  case (Cons x xs)
  then show ?case by (cases "xs = []") (simp_all add: join_with_Cons)
qed simp

lemma join_take: "0 < k \<Longrightarrow> k < length segs \<Longrightarrow>
    join_with CHR ''.'' segs = join_with CHR ''.'' (take k segs) @ CHR ''.'' # join_with CHR ''.'' (drop k segs)"
  using join_with_append [of "take k segs" "drop k segs" "CHR ''.''"] by (cases segs) auto

lemma find_last_join:
  assumes "segs \<noteq> []" and "\<And>x. x \<in> set segs \<Longrightarrow> CHR ''.'' \<notin> set x"
  shows "find_last CHR ''.'' (join_with CHR ''.'' segs) =
    (if length segs = 1 then None else Some (length (join_with CHR ''.'' (butlast segs))))"
proof (cases "length segs = 1")
  case True
  then obtain x where "segs = [x]" by (auto simp: length_Suc_conv)
  then show ?thesis using assms(2) [of x] by (simp add: find_last_None)
next
  case False
  then have "butlast segs \<noteq> []" using assms(1) by (cases segs) (auto simp: Suc_le_eq split: if_splits)
  then have "join_with CHR ''.'' segs = join_with CHR ''.'' (butlast segs) @ CHR ''.'' # last segs"
    using join_with_append [of "butlast segs" "[last segs]" "CHR ''.''"] assms(1) by simp
  then show ?thesis using False assms(2) [of "last segs"] assms(1) by (simp add: find_last_append)
qed

lemma drop_part: "k < length segs \<Longrightarrow> drop (part_start segs k) (join_with CHR ''.'' segs) = join_with CHR ''.'' (drop k segs)"
  using join_take [of k segs] by (cases "k = 0") (simp_all add: part_start_def)

lemma join_with_ne: "segs \<noteq> [] \<Longrightarrow> hd segs \<noteq> [] \<Longrightarrow> join_with d segs \<noteq> []"
  by (cases segs; cases "tl segs") auto

lemma name_begin_parts:
  assumes segs: "\<And>x. x \<in> set segs \<Longrightarrow> x \<noteq> [] \<and> CHR ''.'' \<notin> set x"
  shows "0 < k \<Longrightarrow> k < length segs \<Longrightarrow>
    name_begin i (Some (part_start segs k)) (join_with CHR ''.'' segs) = Some (part_start segs (k - i))"
proof (induction i arbitrary: k)
  case 0
  then show ?case by simp
next
  case (Suc i)
  let ?t = "take k segs"
  have t: "?t \<noteq> []" "hd ?t \<noteq> []" "length ?t = k" "butlast ?t = take (k - 1) segs"
    using Suc.prems segs [of "hd segs"] by (cases segs; simp add: butlast_take)+
  have t': "CHR ''.'' \<notin> set x" if "x \<in> set ?t" for x using in_set_takeD [OF that] segs by blast
  have len: "0 < length (join_with CHR ''.'' ?t)" using join_with_ne [OF t(1,2)] by blast
  have "take (length (join_with CHR ''.'' ?t)) (join_with CHR ''.'' segs) = join_with CHR ''.'' ?t"
    using join_take [of k segs] Suc.prems by simp
  then have r: "rfind CHR ''.'' (part_start segs k - 2) (join_with CHR ''.'' segs) = find_last CHR ''.'' (join_with CHR ''.'' ?t)"
    using len Suc.prems by (simp add: rfind_def part_start_def)
  have f: "find_last CHR ''.'' (join_with CHR ''.'' ?t) =
      (if k = 1 then None else Some (length (join_with CHR ''.'' (take (k - 1) segs))))"
    using find_last_join [OF t(1) t'] t(3,4) by simp
  have ge: "\<not> part_start segs k < 2" using len Suc.prems by (simp add: part_start_def)
  show ?case
  proof (cases "k = 1")
    case True
    then show ?thesis using r f ge by (simp add: part_start_def)
  next
    case False
    then have "name_begin (Suc i) (Some (part_start segs k)) (join_with CHR ''.'' segs) =
        name_begin i (Some (part_start segs (k - 1))) (join_with CHR ''.'' segs)"
      using r f ge Suc.prems by (simp add: part_start_def)
    then show ?thesis using Suc.IH [of "k - 1"] Suc.prems False by simp
  qed
qed

text \<open>
  \<open>%c{p}\<close> prints the last \<open>p\<close> parts of a dotted category name, and the whole name when it has
  no more parts than that.
\<close>

theorem category_precision:
  assumes "segs \<noteq> []" and "\<And>x. x \<in> set segs \<Longrightarrow> x \<noteq> [] \<and> CHR ''.'' \<notin> set x" and "0 < p"
  shows "name_part (int p) (join_with CHR ''.'' segs) = join_with CHR ''.'' (drop (length segs - p) segs)"
proof -
  have f: "find_last CHR ''.'' (join_with CHR ''.'' segs) =
      (if length segs = 1 then None else Some (length (join_with CHR ''.'' (butlast segs))))"
    using find_last_join [OF assms(1)] assms(2) by simp
  obtain q where q: "p = Suc q" using assms(3) by (cases p) simp_all
  have "name_begin p None (join_with CHR ''.'' segs) = Some (part_start segs (length segs - p))"
  proof (cases "length segs = 1")
    case True
    then show ?thesis using f by (simp add: q part_start_def)
  next
    case False
    then have l: "0 < length segs - 1" using assms(1) by (cases segs) auto
    then have "name_begin p None (join_with CHR ''.'' segs) =
        name_begin q (Some (part_start segs (length segs - 1))) (join_with CHR ''.'' segs)"
      using f False by (simp add: q part_start_def butlast_conv_take)
    then show ?thesis using name_begin_parts [OF assms(2) l, where i = q] l by (simp add: q)
  qed
  then show ?thesis using drop_part [of "length segs - p" segs] assms(1,3) by (simp add: name_part_def)
qed

theorem category_precision_witness: "name_part (int 2) ''a.bc.d'' = ''bc.d''"
proof -
  have "x \<noteq> [] \<and> CHR ''.'' \<notin> set x" if "x \<in> set [''a'', ''bc'', ''d'']" for x
    using that by auto
  from category_precision [where segs = "[''a'', ''bc'', ''d'']" and p = 2, OF _ this] show ?thesis by simp
qed

end
