(* ===== verification/LogCategory.thy ===== *)
theory LogCategory
  imports LogEvents LogProperties StringUtil
begin

text \<open>
  \<^verbatim>\<open>src/git/log4cpp/src/\<close>: the registry of appenders of \<^verbatim>\<open>Appender.cpp\<close>, what every appender
  does with an event before it prints it (\<^verbatim>\<open>AppenderSkeleton.cpp\<close>), the categories of
  \<^verbatim>\<open>Category.cpp\<close> and their tree in \<^verbatim>\<open>HierarchyMaintainer.cpp\<close>.
\<close>

subsection \<open>State\<close>

text \<open>
  \<open>appended\<close> holds the events for which the virtual \<open>_append\<close> was called, in order.
\<close>

record appender =
  app_name :: string
  threshold :: int
  app_filter :: "filter option"
  appended :: "LoggingEvent list"

text \<open>\<open>_appender\<close> is a set of addresses, iterated in their order.\<close>

record category =
  cat_name :: string
  parent :: ptr
  prio :: int
  appenders :: "nat list"
  ownsMap :: "(nat \<times> bool) list"
  additive :: bool

record logs =
  cats :: "nat \<rightharpoonup> category"
  apps :: "nat \<rightharpoonup> appender"
  categoryMap :: "(string \<times> nat) list"
  allAppenders :: "(string \<times> nat) list"
  next_addr :: nat

definition logs0 :: logs where
  "logs0 = \<lparr>cats = (\<lambda>_. None), apps = (\<lambda>_. None), categoryMap = [], allAppenders = [], next_addr = 0\<rparr>"

definition map_erase :: "'k \<Rightarrow> ('k \<times> 'v) list \<Rightarrow> ('k \<times> 'v) list" where
  "map_erase k ps = List.filter (\<lambda>(k', _). k' \<noteq> k) ps"

subsection \<open>Appenders\<close>

text \<open>The constructor enters the appender under its name, over another one of that name.\<close>

definition Appender_new :: "string \<Rightarrow> logs \<Rightarrow> nat \<times> logs" where
  "Appender_new nm s =
     (let a = next_addr s in
      (a, s\<lparr>apps := (apps s)(a \<mapsto> \<lparr>app_name = nm, threshold = level NOTSET, app_filter = None, appended = []\<rparr>),
          allAppenders := map_assign nm a (allAppenders s), next_addr := a + 1\<rparr>))"

definition Appender_delete :: "nat \<Rightarrow> logs \<Rightarrow> logs res" where
  "Appender_delete a s =
     bindR (deref (apps s) (Ptr a)) (\<lambda>x.
       Inr (s\<lparr>apps := (apps s)(a := None), allAppenders := map_erase (app_name x) (allAppenders s)\<rparr>))"

definition Appender_getAppender :: "string \<Rightarrow> logs \<Rightarrow> ptr" where
  "Appender_getAppender nm s = (case map_of (allAppenders s) nm of None \<Rightarrow> Null | Some a \<Rightarrow> Ptr a)"

fun deleteAllAppendersWOLock :: "nat list \<Rightarrow> logs \<Rightarrow> logs res" where
  "deleteAllAppendersWOLock [] s = Inr s"
| "deleteAllAppendersWOLock (a # as1) s = bindR (Appender_delete a s) (deleteAllAppendersWOLock as1)"

definition deleteAllAppenders :: "logs \<Rightarrow> logs res" where
  "deleteAllAppenders s = deleteAllAppendersWOLock (map snd (allAppenders s)) (s\<lparr>allAppenders := []\<rparr>)"

definition setThreshold :: "nat \<Rightarrow> int \<Rightarrow> logs \<Rightarrow> logs res" where
  "setThreshold a p s = bindR (deref (apps s) (Ptr a)) (\<lambda>x. Inr (s\<lparr>apps := (apps s)(a \<mapsto> x\<lparr>threshold := p\<rparr>)\<rparr>))"

definition setFilter :: "nat \<Rightarrow> filter option \<Rightarrow> logs \<Rightarrow> logs res" where
  "setFilter a f s = bindR (deref (apps s) (Ptr a)) (\<lambda>x. Inr (s\<lparr>apps := (apps s)(a \<mapsto> x\<lparr>app_filter := f\<rparr>)\<rparr>))"

definition accepts :: "appender \<Rightarrow> LoggingEvent \<Rightarrow> bool" where
  "accepts x event \<longleftrightarrow> (level NOTSET = threshold x \<or> priority event \<le> threshold x) \<and>
     (case app_filter x of None \<Rightarrow> True | Some f \<Rightarrow> decide f event \<noteq> DENY)"

definition doAppend :: "LoggingEvent \<Rightarrow> nat \<Rightarrow> logs \<Rightarrow> logs res" where
  "doAppend event a s =
     bindR (deref (apps s) (Ptr a)) (\<lambda>x.
       Inr (if accepts x event then s\<lparr>apps := (apps s)(a \<mapsto> x\<lparr>appended := appended x @ [event]\<rparr>)\<rparr> else s))"

subsection \<open>Categories\<close>

definition Category_new :: "string \<Rightarrow> ptr \<Rightarrow> int \<Rightarrow> category" where
  "Category_new nm p pr = \<lparr>cat_name = nm, parent = p, prio = pr, appenders = [], ownsMap = [], additive = True\<rparr>"

text \<open>The text of the exception, if one is thrown.\<close>

definition setPriority :: "nat \<Rightarrow> int \<Rightarrow> logs \<Rightarrow> (string option \<times> logs) res" where
  "setPriority c p s =
     bindR (deref (cats s) (Ptr c)) (\<lambda>x.
       if p < level NOTSET \<or> parent x \<noteq> Null then Inr (None, s\<lparr>cats := (cats s)(c \<mapsto> x\<lparr>prio := p\<rparr>)\<rparr>)
       else Inr (Some ''cannot set priority NOTSET on Root Category'', s))"

text \<open>A loop up the tree: a null parent is dereferenced, and a cycle would never be left.\<close>

partial_function (option) getChainedPriority :: "ptr \<Rightarrow> logs \<Rightarrow> int res option" where
  "getChainedPriority c s =
     (case deref (cats s) c of
        Inl f \<Rightarrow> Some (Inl f)
      | Inr x \<Rightarrow> if level NOTSET \<le> prio x then getChainedPriority (parent x) s else Some (Inr (prio x)))"

definition set_insert :: "nat \<Rightarrow> nat list \<Rightarrow> nat list" where
  "set_insert a xs = insort_key id a xs"

text \<open>\<open>owner\<close> tells the overloads apart: a pointer transfers ownership, a reference does not.\<close>

definition addAppender :: "bool \<Rightarrow> nat \<Rightarrow> ptr \<Rightarrow> logs \<Rightarrow> (string option \<times> logs) res" where
  "addAppender owner c p s =
     (case p of
        Null \<Rightarrow> if owner then Inr (Some ''NULL appender'', s) else Inl NullDeref
      | Ptr a \<Rightarrow>
          bindR (deref (cats s) (Ptr c)) (\<lambda>x.
            if a \<notin> set (appenders x)
            then Inr (None, s\<lparr>cats := (cats s)(c \<mapsto> x\<lparr>appenders := set_insert a (appenders x),
                   ownsMap := map_assign a owner (ownsMap x)\<rparr>)\<rparr>)
            else Inr (None, s)))"

definition getAppender :: "nat \<Rightarrow> logs \<Rightarrow> ptr res" where
  "getAppender c s = bindR (deref (cats s) (Ptr c)) (\<lambda>x. Inr (case appenders x of [] \<Rightarrow> Null | a # _ \<Rightarrow> Ptr a))"

text \<open>A member call on the first appender of the set.\<close>

definition getAppender_named :: "nat \<Rightarrow> string \<Rightarrow> logs \<Rightarrow> ptr res" where
  "getAppender_named c nm s =
     bindR (deref (cats s) (Ptr c)) (\<lambda>x.
       case appenders x of [] \<Rightarrow> Inr Null | a # _ \<Rightarrow> Inr (Appender_getAppender nm s))"

definition owns :: "category \<Rightarrow> nat \<Rightarrow> bool" where
  "owns x a \<longleftrightarrow> map_of (ownsMap x) a = Some True"

fun delete_owned :: "category \<Rightarrow> nat list \<Rightarrow> logs \<Rightarrow> logs res" where
  "delete_owned x [] s = Inr s"
| "delete_owned x (a # as1) s = bindR (if owns x a then Appender_delete a s else Inr s) (delete_owned x as1)"

definition removeAllAppenders :: "nat \<Rightarrow> logs \<Rightarrow> logs res" where
  "removeAllAppenders c s =
     bindR (deref (cats s) (Ptr c)) (\<lambda>x.
       bindR (delete_owned x (appenders x) s) (\<lambda>s1.
         Inr (s1\<lparr>cats := (cats s1)(c \<mapsto> x\<lparr>ownsMap := [], appenders := []\<rparr>)\<rparr>)))"

definition removeAppender :: "nat \<Rightarrow> nat \<Rightarrow> logs \<Rightarrow> logs res" where
  "removeAppender c a s =
     bindR (deref (cats s) (Ptr c)) (\<lambda>x.
       if a \<in> set (appenders x) then
         bindR (if owns x a then Appender_delete a s else Inr s) (\<lambda>s1.
           Inr (s1\<lparr>cats := (cats s1)(c \<mapsto> x\<lparr>appenders := remove1 a (appenders x),
             ownsMap := (if owns x a then map_erase a (ownsMap x) else ownsMap x)\<rparr>)\<rparr>))
       else Inr s)"

fun append_all :: "LoggingEvent \<Rightarrow> nat list \<Rightarrow> logs \<Rightarrow> logs res" where
  "append_all event [] s = Inr s"
| "append_all event (a # as1) s = bindR (doAppend event a s) (append_all event as1)"

partial_function (option) callAppenders :: "LoggingEvent \<Rightarrow> ptr \<Rightarrow> logs \<Rightarrow> logs res option" where
  "callAppenders event c s =
     (case deref (cats s) c of
        Inl f \<Rightarrow> Some (Inl f)
      | Inr x \<Rightarrow>
          (case append_all event (appenders x) s of
             Inl f \<Rightarrow> Some (Inl f)
           | Inr s1 \<Rightarrow> if additive x \<and> parent x \<noteq> Null then callAppenders event (parent x) s1 else Some (Inr s1)))"

definition setAdditivity :: "nat \<Rightarrow> bool \<Rightarrow> logs \<Rightarrow> logs res" where
  "setAdditivity c b s = bindR (deref (cats s) (Ptr c)) (\<lambda>x. Inr (s\<lparr>cats := (cats s)(c \<mapsto> x\<lparr>additive := b\<rparr>)\<rparr>))"

subsection \<open>Logging\<close>

text \<open>What the constructor of an event takes from the thread: its name, the time and its diagnostic context.\<close>

record thread_ctx =
  t_name :: string
  t_seconds :: int
  t_millis :: int
  t_ndc :: string

definition logUnconditionally2 :: "thread_ctx \<Rightarrow> nat \<Rightarrow> int \<Rightarrow> string \<Rightarrow> logs \<Rightarrow> logs res option" where
  "logUnconditionally2 T c p msg s =
     (case deref (cats s) (Ptr c) of
        Inl f \<Rightarrow> Some (Inl f)
      | Inr x \<Rightarrow>
          callAppenders (LoggingEvent_new (t_name T) (t_seconds T) (t_millis T) (cat_name x) msg (t_ndc T) p) (Ptr c) s)"

text \<open>\<open>vsn\<close> is \<open>vsnprintf\<close> on the format and the arguments, as a function of the buffer's size.\<close>

definition logUnconditionally ::
  "thread_ctx \<Rightarrow> nat \<Rightarrow> int \<Rightarrow> (nat \<Rightarrow> int \<times> string) \<Rightarrow> logs \<Rightarrow> logs res option" where
  "logUnconditionally T c p vsn s = Option.bind (vform vsn) (\<lambda>msg. logUnconditionally2 T c p msg s)"

definition isPriorityEnabled :: "nat \<Rightarrow> int \<Rightarrow> logs \<Rightarrow> bool res option" where
  "isPriorityEnabled c p s = map_option (\<lambda>r. bindR r (\<lambda>v. Inr (p \<le> v))) (getChainedPriority (Ptr c) s)"

definition when_enabled ::
  "nat \<Rightarrow> int \<Rightarrow> logs \<Rightarrow> (logs \<Rightarrow> logs res option) \<Rightarrow> logs res option" where
  "when_enabled c p s act =
     Option.bind (isPriorityEnabled c p s) (\<lambda>r.
       case r of Inl f \<Rightarrow> Some (Inl f) | Inr b \<Rightarrow> if b then act s else Some (Inr s))"

definition log_message :: "thread_ctx \<Rightarrow> nat \<Rightarrow> int \<Rightarrow> string \<Rightarrow> logs \<Rightarrow> logs res option" where
  "log_message T c p msg s = when_enabled c p s (logUnconditionally2 T c p msg)"

definition log_format :: "thread_ctx \<Rightarrow> nat \<Rightarrow> int \<Rightarrow> (nat \<Rightarrow> int \<times> string) \<Rightarrow> logs \<Rightarrow> logs res option" where
  "log_format T c p vsn s = when_enabled c p s (logUnconditionally T c p vsn)"

definition logva :: "thread_ctx \<Rightarrow> nat \<Rightarrow> int \<Rightarrow> (nat \<Rightarrow> int \<times> string) \<Rightarrow> logs \<Rightarrow> logs res option" where
  "logva T c p vsn s = when_enabled c p s (logUnconditionally T c p vsn)"

text \<open>\<open>debug\<close>, \<open>info\<close>, \<open>notice\<close>, \<open>warn\<close>, \<open>error\<close>, \<open>crit\<close>, \<open>alert\<close>, \<open>emerg\<close> and \<open>fatal\<close>, in both overloads.\<close>

definition level_message :: "PriorityLevel \<Rightarrow> thread_ctx \<Rightarrow> nat \<Rightarrow> string \<Rightarrow> logs \<Rightarrow> logs res option" where
  "level_message l T c msg s = when_enabled c (level l) s (logUnconditionally2 T c (level l) msg)"

definition level_format :: "PriorityLevel \<Rightarrow> thread_ctx \<Rightarrow> nat \<Rightarrow> (nat \<Rightarrow> int \<times> string) \<Rightarrow> logs \<Rightarrow> logs res option" where
  "level_format l T c vsn s = when_enabled c (level l) s (logUnconditionally T c (level l) vsn)"

subsection \<open>The tree of categories\<close>

definition parent_name :: "string \<Rightarrow> string" where
  "parent_name nm = (case find_last CHR ''.'' nm of None \<Rightarrow> [] | Some dotIndex \<Rightarrow> take dotIndex nm)"

lemma parent_name_shorter: "nm \<noteq> [] \<Longrightarrow> length (parent_name nm) < length nm"
  using find_last_Some(1) [of "CHR ''.''" nm] by (auto simp: parent_name_def split: option.split)

definition getExistingInstance :: "string \<Rightarrow> logs \<Rightarrow> ptr" where
  "getExistingInstance nm s = (case map_of (categoryMap s) nm of None \<Rightarrow> Null | Some a \<Rightarrow> Ptr a)"

definition new_category :: "string \<Rightarrow> ptr \<Rightarrow> int \<Rightarrow> logs \<Rightarrow> nat \<times> logs" where
  "new_category nm p pr s =
     (let a = next_addr s in
      (a, s\<lparr>cats := (cats s)(a \<mapsto> Category_new nm p pr), categoryMap := map_assign nm a (categoryMap s),
          next_addr := a + 1\<rparr>))"

function getInstance :: "string \<Rightarrow> logs \<Rightarrow> nat \<times> logs" where
  "getInstance nm s =
     (case getExistingInstance nm s of
        Ptr a \<Rightarrow> (a, s)
      | Null \<Rightarrow>
          if nm = [] then new_category nm Null (level INFO) s
          else (let (pa, s1) = getInstance (parent_name nm) s in new_category nm (Ptr pa) (level NOTSET) s1))"
  by pat_completeness auto
termination
  by (relation "measure (\<lambda>(nm, s). length nm)") (simp_all add: parent_name_shorter)

declare getInstance.simps [simp del]

definition getCurrentCategories :: "logs \<Rightarrow> nat list" where
  "getCurrentCategories s = map snd (categoryMap s)"

fun remove_all :: "nat list \<Rightarrow> logs \<Rightarrow> logs res" where
  "remove_all [] s = Inr s"
| "remove_all (c # cs) s = bindR (removeAllAppenders c s) (remove_all cs)"

text \<open>\<open>handlers\<close> are the registered shutdown functions; one that throws stops the others.\<close>

definition shutdown :: "(logs \<Rightarrow> bool \<times> logs) list \<Rightarrow> logs \<Rightarrow> logs res" where
  "shutdown handlers s =
     bindR (remove_all (map snd (categoryMap s)) s) (\<lambda>s1.
       Inr (snd (fold (\<lambda>h (go, s). if go then h s else (go, s)) handlers (True, s1))))"

definition register_shutdown_handler ::
  "(logs \<Rightarrow> bool \<times> logs) \<Rightarrow> (logs \<Rightarrow> bool \<times> logs) list \<Rightarrow> (logs \<Rightarrow> bool \<times> logs) list" where
  "register_shutdown_handler h handlers = handlers @ [h]"

definition Category_delete :: "nat \<Rightarrow> logs \<Rightarrow> logs res" where
  "Category_delete c s = bindR (removeAllAppenders c s) (\<lambda>s1. Inr (s1\<lparr>cats := (cats s1)(c := None)\<rparr>))"

fun delete_all :: "nat list \<Rightarrow> logs \<Rightarrow> logs res" where
  "delete_all [] s = Inr s"
| "delete_all (c # cs) s = bindR (Category_delete c s) (delete_all cs)"

definition deleteAllCategories :: "logs \<Rightarrow> logs res" where
  "deleteAllCategories s = bindR (delete_all (map snd (categoryMap s)) s) (\<lambda>s1. Inr (s1\<lparr>categoryMap := []\<rparr>))"

definition maintainer_destroy :: "(logs \<Rightarrow> bool \<times> logs) list \<Rightarrow> logs \<Rightarrow> logs res" where
  "maintainer_destroy handlers s = bindR (shutdown handlers s) deleteAllCategories"

definition getRoot :: "logs \<Rightarrow> nat \<times> logs" where
  "getRoot s = getInstance [] s"

definition setRootPriority :: "int \<Rightarrow> logs \<Rightarrow> (string option \<times> logs) res" where
  "setRootPriority p s = (let (r, s1) = getRoot s in setPriority r p s1)"

definition getRootPriority :: "logs \<Rightarrow> (int \<times> logs) res" where
  "getRootPriority s = (let (r, s1) = getRoot s in bindR (deref (cats s1) (Ptr r)) (\<lambda>x. Inr (prio x, s1)))"

definition shutdownForced :: "(logs \<Rightarrow> bool \<times> logs) list \<Rightarrow> logs \<Rightarrow> logs res" where
  "shutdownForced handlers s = bindR (shutdown handlers s) deleteAllAppenders"

subsection \<open>The tree\<close>

definition node_ok :: "logs \<Rightarrow> string \<Rightarrow> nat \<Rightarrow> bool" where
  "node_ok s nm a \<longleftrightarrow> a < next_addr s \<and> (\<exists>x. cats s a = Some x \<and> cat_name x = nm \<and>
     (if nm = [] then parent x = Null \<and> prio x < level NOTSET
      else \<exists>pa. parent x = Ptr pa \<and> map_of (categoryMap s) (parent_name nm) = Some pa))"

definition hier_ok :: "logs \<Rightarrow> bool" where
  "hier_ok s \<longleftrightarrow> sorted_wrt (<) (map fst (categoryMap s)) \<and>
     (\<forall>nm a. map_of (categoryMap s) nm = Some a \<longrightarrow> node_ok s nm a) \<and>
     (\<forall>a \<ge> next_addr s. cats s a = None \<and> apps s a = None)"

text \<open>The names from a category up to the root.\<close>

function ancestors :: "string \<Rightarrow> string list" where
  "ancestors nm = (if nm = [] then [[]] else nm # ancestors (parent_name nm))"
  by pat_completeness auto
termination
  by (relation "measure length") (simp_all add: parent_name_shorter)

declare ancestors.simps [simp del]

lemma ancestors_Nil [simp]: "ancestors [] = [[]]"
  by (simp add: ancestors.simps [of "[]"])

lemma hier_ok_logs0: "hier_ok logs0"
  by (simp add: hier_ok_def logs0_def)

lemma hier_ok_node: "hier_ok s \<Longrightarrow> map_of (categoryMap s) nm = Some a \<Longrightarrow> node_ok s nm a"
  by (simp add: hier_ok_def)

lemma new_category_ok:
  assumes "hier_ok s" and "map_of (categoryMap s) nm = None"
    and "if nm = [] then p = Null \<and> pr < level NOTSET
      else \<exists>pa. p = Ptr pa \<and> map_of (categoryMap s) (parent_name nm) = Some pa"
    and "new_category nm p pr s = (a, s')"
  shows "hier_ok s'" and "map_of (categoryMap s') = (map_of (categoryMap s))(nm \<mapsto> a)"
    and "\<forall>b. b \<noteq> a \<longrightarrow> cats s' b = cats s b" and "cats s a = None" and "cats s' a = Some (Category_new nm p pr)"
    and "apps s' = apps s \<and> allAppenders s' = allAppenders s"
proof -
  have a: "a = next_addr s" and s': "s' = s\<lparr>cats := (cats s)(a \<mapsto> Category_new nm p pr),
      categoryMap := map_assign nm a (categoryMap s), next_addr := a + 1\<rparr>"
    using assms(4) by (auto simp: new_category_def Let_def)
  show 2: "map_of (categoryMap s') = (map_of (categoryMap s))(nm \<mapsto> a)"
    by (simp add: s' map_of_assign)
  show "\<forall>b. b \<noteq> a \<longrightarrow> cats s' b = cats s b" "cats s' a = Some (Category_new nm p pr)"
    "apps s' = apps s \<and> allAppenders s' = allAppenders s" by (simp_all add: s')
  show "cats s a = None" using assms(1) by (simp add: hier_ok_def a)
  have ne: "nm \<noteq> [] \<Longrightarrow> parent_name nm \<noteq> nm" using parent_name_shorter [of nm] by auto
  have "node_ok s' nm a"
    using assms(3) ne by (auto simp: node_ok_def s' map_of_assign Category_new_def)
  moreover have "node_ok s' n b" if n: "n \<noteq> nm" "map_of (categoryMap s) n = Some b" for n b
  proof -
    have nb: "node_ok s n b" by (rule hier_ok_node [OF assms(1) n(2)])
    then have "b < a" by (simp add: node_ok_def a)
    moreover have "n \<noteq> [] \<Longrightarrow> parent_name n \<noteq> nm \<or> map_of (categoryMap s) (parent_name n) = None"
      using assms(2) by auto
    ultimately show ?thesis using nb assms(2) by (auto simp: node_ok_def s' map_of_assign)
  qed
  moreover have "\<forall>b \<ge> Suc a. cats s b = None \<and> apps s b = None" using assms(1) by (simp add: hier_ok_def a)
  moreover have "sorted_wrt (<) (map fst (categoryMap s'))"
    using assms(1) map_assign_sorted [of "categoryMap s" nm a] by (simp add: hier_ok_def s')
  ultimately show "hier_ok s'" by (simp add: hier_ok_def 2) (auto simp: s')
qed

lemma ancestors_shorter: "n \<in> set (ancestors m) \<Longrightarrow> length n \<le> length m"
proof (induction m rule: ancestors.induct)
  case (1 m)
  show ?case
  proof (cases "m = []")
    case True
    then show ?thesis using 1(2) by (simp add: ancestors.simps [of "[]"])
  next
    case False
    then have "n = m \<or> n \<in> set (ancestors (parent_name m))" using 1(2) by (simp add: ancestors.simps [of m])
    then show ?thesis using 1(1) [OF False] parent_name_shorter [OF False] by auto
  qed
qed

lemma getInstance_inv:
  assumes "hier_ok s" and "getInstance nm s = (a, s')"
  shows "hier_ok s' \<and> map_of (categoryMap s') nm = Some a \<and>
    (\<forall>n b. map_of (categoryMap s) n = Some b \<longrightarrow> map_of (categoryMap s') n = Some b) \<and>
    dom (map_of (categoryMap s')) \<subseteq> dom (map_of (categoryMap s)) \<union> set (ancestors nm) \<and>
    (\<forall>b. cats s b \<noteq> None \<longrightarrow> cats s' b = cats s b) \<and> apps s' = apps s \<and> allAppenders s' = allAppenders s"
  using assms
proof (induction nm s arbitrary: a s' rule: getInstance.induct)
  case (1 nm s)
  show ?case
  proof (cases "map_of (categoryMap s) nm")
    case (Some b)
    then have "getInstance nm s = (b, s)" by (subst getInstance.simps) (simp add: getExistingInstance_def)
    then show ?thesis using 1(2,3) Some by auto
  next
    case None
    then have ex: "getExistingInstance nm s = Null" by (simp add: getExistingInstance_def)
    show ?thesis
    proof (cases "nm = []")
      case True
      then have n: "new_category [] Null (level INFO) s = (a, s')"
        using 1(3) ex by (subst (asm) getInstance.simps) simp
      have c: "if ([]::string) = [] then Null = Null \<and> level INFO < level NOTSET
          else \<exists>pa. Null = Ptr pa \<and> map_of (categoryMap s) (parent_name []) = Some pa"
        by (simp add: level_def)
      note N = new_category_ok [OF 1(2) _ c n]
      have m: "map_of (categoryMap s) [] = None" using None True by simp
      have cc: "\<forall>b. cats s b \<noteq> None \<longrightarrow> cats s' b = cats s b" using N(3,4) [OF m] by metis
      show ?thesis using N(1,2,6) [OF m] cc m True by (auto simp: ancestors.simps [of "[]"])
    next
      case False
      obtain pa s1 where g: "getInstance (parent_name nm) s = (pa, s1)" by force
      have n: "new_category nm (Ptr pa) (level NOTSET) s1 = (a, s')"
        using 1(3) ex False g by (subst (asm) getInstance.simps) simp
      have IH: "hier_ok s1" "map_of (categoryMap s1) (parent_name nm) = Some pa"
        "\<forall>n b. map_of (categoryMap s) n = Some b \<longrightarrow> map_of (categoryMap s1) n = Some b"
        "dom (map_of (categoryMap s1)) \<subseteq> dom (map_of (categoryMap s)) \<union> set (ancestors (parent_name nm))"
        "\<forall>b. cats s b \<noteq> None \<longrightarrow> cats s1 b = cats s b" "apps s1 = apps s \<and> allAppenders s1 = allAppenders s"
        using 1(1) [OF ex False 1(2) g] by auto
      have m: "map_of (categoryMap s1) nm = None"
      proof (rule ccontr)
        assume "map_of (categoryMap s1) nm \<noteq> None"
        then have "nm \<in> set (ancestors (parent_name nm))" using IH(4) None by blast
        then show False using ancestors_shorter [of nm "parent_name nm"] parent_name_shorter [OF False] by simp
      qed
      have c: "if nm = [] then Ptr pa = Null \<and> level NOTSET < level NOTSET
          else \<exists>pa'. Ptr pa = Ptr pa' \<and> map_of (categoryMap s1) (parent_name nm) = Some pa'"
        using False IH(2) by simp
      note N = new_category_ok [OF IH(1) m c n]
      have d: "dom (map_of (categoryMap s')) \<subseteq> dom (map_of (categoryMap s)) \<union> set (ancestors nm)"
        unfolding N(2) ancestors.simps [of nm] using IH(4) False by auto
      have k: "\<forall>n b. map_of (categoryMap s) n = Some b \<longrightarrow> map_of (categoryMap s') n = Some b"
        unfolding N(2) using IH(3) None by auto
      have cc: "\<forall>b. cats s b \<noteq> None \<longrightarrow> cats s' b = cats s b" using IH(5) N(3,4) by metis
      have r: "map_of (categoryMap s') nm = Some a" by (simp add: N(2))
      show ?thesis using N(1,6) r d k cc IH(6) by simp
    qed
  qed
qed

lemma getInstance_again:
  assumes "hier_ok s" and "getInstance nm s = (a, s')"
  shows "getInstance nm s' = (a, s')"
  using getInstance_inv [OF assms] by (subst getInstance.simps) (simp add: getExistingInstance_def)

text \<open>
  C24. The tree of categories. From a consistent tree \<open>getInstance\<close> returns the category of the name,
  in a consistent tree that keeps every category and gains only the name and its dotted prefixes; the
  same name gives the same category again, without a change.
\<close>

theorem getInstance_tree:
  assumes "hier_ok s" and "getInstance nm s = (a, s')"
  shows "hier_ok s' \<and> map_of (categoryMap s') nm = Some a \<and>
    map_of (categoryMap s) \<subseteq>\<^sub>m map_of (categoryMap s') \<and>
    dom (map_of (categoryMap s')) \<subseteq> dom (map_of (categoryMap s)) \<union> set (ancestors nm) \<and>
    cats s \<subseteq>\<^sub>m cats s' \<and> apps s' = apps s \<and> getInstance nm s' = (a, s')"
proof -
  note I = getInstance_inv [OF assms]
  have "cats s \<subseteq>\<^sub>m cats s'" using I by (auto simp: map_le_def)
  moreover have "map_of (categoryMap s) \<subseteq>\<^sub>m map_of (categoryMap s')"
    using I by (auto simp: map_le_def)
  ultimately show ?thesis using I getInstance_again [OF assms] by simp
qed

theorem getInstance_tree_witness:
  "getInstance ''a.b'' (snd (getInstance ''a.b'' logs0)) = getInstance ''a.b'' logs0 \<and>
     map_of (categoryMap (snd (getInstance ''a.b'' logs0))) ''a.b'' = Some (fst (getInstance ''a.b'' logs0))"
  using getInstance_tree [OF hier_ok_logs0, of "''a.b''" "fst (getInstance ''a.b'' logs0)" "snd (getInstance ''a.b'' logs0)"]
  by simp

subsection \<open>Priorities\<close>

definition prio_of :: "logs \<Rightarrow> string \<Rightarrow> int" where
  "prio_of s nm = (case map_of (categoryMap s) nm of None \<Rightarrow> level NOTSET
     | Some a \<Rightarrow> (case cats s a of None \<Rightarrow> level NOTSET | Some x \<Rightarrow> prio x))"

text \<open>The first priority that is set, from the category up to the root.\<close>

definition effective :: "logs \<Rightarrow> string \<Rightarrow> int" where
  "effective s nm = hd (List.filter (\<lambda>p. p < level NOTSET) (map (prio_of s) (ancestors nm)))"

lemma chained_priority:
  assumes "hier_ok s" and "map_of (categoryMap s) nm = Some a"
  shows "getChainedPriority (Ptr a) s = Some (Inr (effective s nm)) \<and> effective s nm < level NOTSET"
  using assms(2)
proof (induction nm arbitrary: a rule: ancestors.induct)
  case (1 nm)
  obtain x where x: "cats s a = Some x"
    "if nm = [] then parent x = Null \<and> prio x < level NOTSET
     else \<exists>pa. parent x = Ptr pa \<and> map_of (categoryMap s) (parent_name nm) = Some pa"
    using hier_ok_node [OF assms(1) 1(2)] by (auto simp: node_ok_def)
  have p: "prio_of s nm = prio x" using 1(2) x(1) by (simp add: prio_of_def)
  show ?case
  proof (cases "prio x < level NOTSET")
    case True
    then have "effective s nm = prio x" 
      using p by (cases "nm = []") (simp_all add: effective_def ancestors.simps [of nm])
    then show ?thesis using True x(1) by (subst getChainedPriority.simps) simp
  next
    case False
    then have ne: "nm \<noteq> []" using x(2) by (auto split: if_splits)
    then obtain pa where pa: "parent x = Ptr pa" "map_of (categoryMap s) (parent_name nm) = Some pa"
      using x(2) by auto
    have "effective s nm = effective s (parent_name nm)"
      using False ne p by (simp add: effective_def ancestors.simps [of nm])
    moreover have "getChainedPriority (Ptr a) s = getChainedPriority (Ptr pa) s"
      using False x(1) pa(1) by (subst getChainedPriority.simps) simp
    ultimately show ?thesis using 1(1) [OF ne pa(2)] by simp
  qed
qed

text \<open>
  C25. In a consistent tree the search for the priority of a category ends, and finds the first
  priority that is set on the way to the root; it is below \<open>NOTSET\<close>.
\<close>

theorem chained_priority_ends:
  assumes "hier_ok s" and "map_of (categoryMap s) nm = Some a"
  shows "\<exists>v. getChainedPriority (Ptr a) s = Some (Inr v) \<and> v = effective s nm \<and> v < level NOTSET \<and>
    isPriorityEnabled a p s = Some (Inr (p \<le> v))"
  using chained_priority [OF assms] by (simp add: isPriorityEnabled_def)

theorem chained_priority_ends_witness:
  "\<exists>v. getChainedPriority (Ptr (fst (getInstance ''a.b'' logs0))) (snd (getInstance ''a.b'' logs0)) = Some (Inr v)"
proof -
  have g: "getInstance ''a.b'' logs0 = (fst (getInstance ''a.b'' logs0), snd (getInstance ''a.b'' logs0))" by simp
  note I = getInstance_inv [OF hier_ok_logs0 g]
  have "hier_ok (snd (getInstance ''a.b'' logs0))"
    "map_of (categoryMap (snd (getInstance ''a.b'' logs0))) ''a.b'' = Some (fst (getInstance ''a.b'' logs0))"
    using I by blast+
  from chained_priority_ends [OF this] show ?thesis by blast
qed

lemma setPriority_ok:
  assumes "hier_ok s" and "map_of (categoryMap s) nm = Some c" and "setPriority c p s = Inr (e, s')"
  shows "hier_ok s'" and "e \<noteq> None \<longleftrightarrow> nm = [] \<and> level NOTSET \<le> p" and "categoryMap s' = categoryMap s"
proof -
  obtain x where x: "cats s c = Some x" "cat_name x = nm"
    "if nm = [] then parent x = Null \<and> prio x < level NOTSET
     else \<exists>pa. parent x = Ptr pa \<and> map_of (categoryMap s) (parent_name nm) = Some pa"
    using hier_ok_node [OF assms(1,2)] by (auto simp: node_ok_def)
  have s': "s' = (if p < level NOTSET \<or> nm \<noteq> [] then s\<lparr>cats := (cats s)(c \<mapsto> x\<lparr>prio := p\<rparr>)\<rparr> else s)"
    "e \<noteq> None \<longleftrightarrow> nm = [] \<and> level NOTSET \<le> p"
    using assms(3) x by (auto simp: setPriority_def split: if_splits)
  show "e \<noteq> None \<longleftrightarrow> nm = [] \<and> level NOTSET \<le> p" by (rule s'(2))
  show "categoryMap s' = categoryMap s" by (simp add: s'(1))
  have "node_ok s' n b" if n: "map_of (categoryMap s) n = Some b" for n b
  proof (cases "b = c")
    case True
    have "n = nm" using hier_ok_node [OF assms(1) n] x True by (auto simp: node_ok_def)
    then show ?thesis
      using hier_ok_node [OF assms(1) n] x True by (auto simp: node_ok_def s'(1))
  next
    case False
    then show ?thesis using hier_ok_node [OF assms(1) n] by (auto simp: node_ok_def s'(1))
  qed
  moreover have "c < next_addr s" using hier_ok_node [OF assms(1,2)] by (simp add: node_ok_def)
  ultimately show "hier_ok s'" using assms(1) by (auto simp: hier_ok_def s'(1))
qed

subsection \<open>Delivery\<close>

text \<open>The appenders an event reaches: those of each category up to the first that is not additive.\<close>

fun targets_of :: "logs \<Rightarrow> string list \<Rightarrow> nat list" where
  "targets_of s [] = []"
| "targets_of s (n # ns) =
     (case map_of (categoryMap s) n of
        None \<Rightarrow> []
      | Some a \<Rightarrow> (case cats s a of
            None \<Rightarrow> []
          | Some x \<Rightarrow> appenders x @ (if additive x then targets_of s ns else [])))"

definition targets :: "logs \<Rightarrow> string \<Rightarrow> nat list" where
  "targets s nm = targets_of s (ancestors nm)"

lemma doAppend_frame: "doAppend e a s = Inr s' \<Longrightarrow> cats s' = cats s \<and> categoryMap s' = categoryMap s"
  by (auto simp: doAppend_def bindR_eq_Inr)

lemma append_all_frame: "append_all e as1 s = Inr s' \<Longrightarrow> cats s' = cats s \<and> categoryMap s' = categoryMap s"
proof (induction as1 arbitrary: s)
  case (Cons a as1)
  then obtain s1 where s1: "doAppend e a s = Inr s1" "append_all e as1 s1 = Inr s'" by (auto simp: bindR_eq_Inr)
  then show ?case using Cons.IH [OF s1(2)] doAppend_frame [OF s1(1)] by simp
qed simp

lemma append_all_append: "append_all e (xs @ ys) s = bindR (append_all e xs s) (append_all e ys)"
proof (induction xs arbitrary: s)
  case (Cons a xs)
  then show ?case by (cases "doAppend e a s") simp_all
qed simp

lemma callAppenders_targets:
  assumes "hier_ok s0" and "map_of (categoryMap s0) nm = Some a" and "cats s = cats s0 \<and> categoryMap s = categoryMap s0"
  shows "callAppenders e (Ptr a) s = Some (append_all e (targets s0 nm) s)"
  using assms(2,3)
proof (induction nm arbitrary: a s rule: ancestors.induct)
  case (1 nm)
  obtain x where x: "cats s0 a = Some x"
    "if nm = [] then parent x = Null \<and> prio x < level NOTSET
     else \<exists>pa. parent x = Ptr pa \<and> map_of (categoryMap s0) (parent_name nm) = Some pa"
    using hier_ok_node [OF assms(1) 1(2)] by (auto simp: node_ok_def)
  have t: "targets s0 nm = appenders x @ (if additive x \<and> nm \<noteq> [] then targets s0 (parent_name nm) else [])"
    using 1(2) x(1) by (cases "nm = []") (simp_all add: targets_def ancestors.simps [of nm])
  have c: "cats s a = Some x" using 1(3) x(1) by simp
  show ?case
  proof (cases "append_all e (appenders x) s")
    case (Inl f)
    then show ?thesis using c by (subst callAppenders.simps) (simp add: t append_all_append)
  next
    case (Inr s1)
    have f: "cats s1 = cats s0 \<and> categoryMap s1 = categoryMap s0"
      using append_all_frame [OF Inr] 1(3) by simp
    show ?thesis
    proof (cases "additive x \<and> nm \<noteq> []")
      case True
      then obtain pa where pa: "parent x = Ptr pa" "map_of (categoryMap s0) (parent_name nm) = Some pa"
        using x(2) by auto
      have "callAppenders e (Ptr a) s = callAppenders e (Ptr pa) s1"
        using c Inr True pa by (subst callAppenders.simps) simp
      also have "\<dots> = Some (append_all e (targets s0 (parent_name nm)) s1)"
        using True by (intro 1(1) [OF _ pa(2) f]) simp
      finally show ?thesis using True Inr by (simp add: t append_all_append)
    next
      case False
      then have n: "(additive x \<and> parent x \<noteq> Null) = False" using x(2) by auto
      have "targets s0 nm = appenders x" using False by (simp only: t if_False append_Nil2)
      then show ?thesis using c Inr by (subst callAppenders.simps) (simp add: n)
    qed
  qed
qed

text \<open>An appender after \<open>n\<close> calls of \<open>doAppend\<close> with the event.\<close>

definition got :: "LoggingEvent \<Rightarrow> nat \<Rightarrow> appender \<Rightarrow> appender" where
  "got e n x = (if accepts x e then x\<lparr>appended := appended x @ replicate n e\<rparr> else x)"

lemma got_0 [simp]: "got e 0 x = x"
  by (simp add: got_def)

lemma got_Suc: "got e n (got e (Suc 0) x) = got e (Suc n) x"
  by (simp add: got_def accepts_def replicate_append_same)

lemma doAppend_got: "apps s a = Some x \<Longrightarrow> \<exists>s'. doAppend e a s = Inr s' \<and> apps s' = (apps s)(a \<mapsto> got e (Suc 0) x)"
  by (auto simp: doAppend_def got_def)

lemma append_all_done:
  assumes "\<forall>a \<in> set as1. apps s a \<noteq> None"
  shows "\<exists>s'. append_all e as1 s = Inr s' \<and> (\<forall>a. apps s' a = map_option (got e (count_list as1 a)) (apps s a))"
  using assms
proof (induction as1 arbitrary: s)
  case Nil
  have "got e 0 = id" by (simp add: fun_eq_iff)
  then show ?case by (simp add: option.map_ident id_def)
next
  case (Cons b as1)
  then obtain x where x: "apps s b = Some x" by auto
  obtain s1 where s1: "doAppend e b s = Inr s1" "apps s1 = (apps s)(b \<mapsto> got e (Suc 0) x)"
    using doAppend_got [of s b x e] x by blast
  have "\<forall>a \<in> set as1. apps s1 a \<noteq> None" using Cons.prems by (simp add: s1(2))
  then obtain s' where s': "append_all e as1 s1 = Inr s'"
    "\<And>a. apps s' a = map_option (got e (count_list as1 a)) (apps s1 a)"
    using Cons.IH by blast
  have "apps s' a = map_option (got e (count_list (b # as1) a)) (apps s a)" for a
    unfolding s'(2) s1(2) using x by (cases "a = b") (simp_all add: got_Suc)
  moreover have "append_all e (b # as1) s = Inr s'" using s'(1) by (simp add: s1(1))
  ultimately show ?case by blast
qed

text \<open>
  C18. Logging returns, and delivers the event to the appenders of the category and of its additive
  ancestors, once for each category they are attached to, if they accept it; a message below the
  effective priority changes nothing.
\<close>

theorem log_delivers:
  assumes "hier_ok s" and "map_of (categoryMap s) nm = Some c" and "\<forall>a \<in> set (targets s nm). apps s a \<noteq> None"
    and "e = LoggingEvent_new (t_name T) (t_seconds T) (t_millis T) nm msg (t_ndc T) p"
  shows "\<exists>s'. log_message T c p msg s = Some (Inr s') \<and>
    (if p \<le> effective s nm
     then \<forall>a. apps s' a = map_option (got e (count_list (targets s nm) a)) (apps s a)
     else s' = s)"
proof -
  obtain x where x: "cats s c = Some x" "cat_name x = nm"
    using hier_ok_node [OF assms(1,2)] by (auto simp: node_ok_def)
  have en: "isPriorityEnabled c p s = Some (Inr (p \<le> effective s nm))"
    using chained_priority [OF assms(1,2)] by (simp add: isPriorityEnabled_def)
  have call: "logUnconditionally2 T c p msg s = Some (append_all e (targets s nm) s)"
    using callAppenders_targets [OF assms(1,2), of s e] x by (simp add: logUnconditionally2_def assms(4))
  show ?thesis
  proof (cases "p \<le> effective s nm")
    case True
    obtain s' where "append_all e (targets s nm) s = Inr s'"
      "\<forall>a. apps s' a = map_option (got e (count_list (targets s nm) a)) (apps s a)"
      using append_all_done [OF assms(3), of e] by blast
    then show ?thesis using True en call by (simp add: log_message_def when_enabled_def)
  next
    case False
    then show ?thesis using en by (simp add: log_message_def when_enabled_def)
  qed
qed

text \<open>A tree with one appender on the root and on the category below it.\<close>

definition sample_logs :: logs where
  "sample_logs =
     (let (a, s1) = Appender_new ''x'' logs0; (c, s2) = getInstance ''a'' s1; (r, s3) = getRoot s2 in
      s3\<lparr>cats := (cats s3)(c := map_option (\<lambda>x. x\<lparr>appenders := [a]\<rparr>) (cats s3 c),
           r := map_option (\<lambda>x. x\<lparr>appenders := [a]\<rparr>) (cats s3 r))\<rparr>)"

lemma sample_logs_eq:
  "sample_logs = \<lparr>cats = [1 \<mapsto> (Category_new [] Null 600)\<lparr>appenders := [0]\<rparr>, 2 \<mapsto> (Category_new ''a'' (Ptr 1) 800)\<lparr>appenders := [0]\<rparr>],
     apps = [0 \<mapsto> \<lparr>app_name = ''x'', threshold = 800, app_filter = None, appended = []\<rparr>],
     categoryMap = [([], 1), (''a'', 2)], allAppenders = [(''x'', 0)], next_addr = 3\<rparr>"
  by (simp add: sample_logs_def Appender_new_def logs0_def getRoot_def getInstance.simps getExistingInstance_def
      new_category_def parent_name_def find_last_def level_def Let_def Category_new_def fun_eq_iff)

lemma sample_ok: "hier_ok sample_logs"
  by (auto simp: sample_logs_eq hier_ok_def node_ok_def parent_name_def find_last_def level_def Category_new_def
      split: if_splits)

lemma sample_targets: "targets sample_logs ''a'' = [0, 0]"
  by (simp add: sample_logs_eq targets_def ancestors.simps [of "''a''"] parent_name_def find_last_def Category_new_def)

theorem log_delivers_witness:
  "\<exists>s'. log_message \<lparr>t_name = [], t_seconds = 1, t_millis = 0, t_ndc = []\<rparr> 2 300 ''m'' sample_logs = Some (Inr s') \<and>
     map_option appended (apps s' 0) =
       Some (replicate 2 (LoggingEvent_new [] 1 0 ''a'' ''m'' [] 300))"
proof -
  let ?T = "\<lparr>t_name = [], t_seconds = 1, t_millis = 0, t_ndc = []\<rparr>"
  have m: "map_of (categoryMap sample_logs) ''a'' = Some 2" by (simp add: sample_logs_eq)
  have al: "\<forall>a \<in> set (targets sample_logs ''a''). apps sample_logs a \<noteq> None"
    by (simp add: sample_targets) (simp add: sample_logs_eq)
  have eff: "effective sample_logs ''a'' = 600"
    by (simp add: effective_def ancestors.simps [of "''a''"] parent_name_def find_last_def prio_of_def sample_logs_eq
        level_def Category_new_def)
  obtain s' where "log_message ?T 2 300 ''m'' sample_logs = Some (Inr s')"
    "\<forall>a. apps s' a = map_option (got (LoggingEvent_new [] 1 0 ''a'' ''m'' [] 300) (count_list (targets sample_logs ''a'') a))
       (apps sample_logs a)"
    using log_delivers [OF sample_ok m al refl, of ?T 300 "''m''"] by (auto simp: eff)
  then show ?thesis
    by (intro exI [of _ s']) (simp add: sample_targets, simp add: sample_logs_eq got_def accepts_def level_def numeral_2_eq_2)
qed

subsection \<open>Ownership\<close>

text \<open>The appenders a shutdown deletes, in its order.\<close>

definition owned_by :: "logs \<Rightarrow> nat \<Rightarrow> nat list" where
  "owned_by s c = (case cats s c of None \<Rightarrow> [] | Some x \<Rightarrow> List.filter (owns x) (appenders x))"

definition owned :: "logs \<Rightarrow> nat list" where
  "owned s = concat (map (owned_by s) (map snd (categoryMap s)))"

definition cleared :: "logs \<Rightarrow> nat list \<Rightarrow> nat \<rightharpoonup> category" where
  "cleared s cs c = (if c \<in> set cs then map_option (\<lambda>x. x\<lparr>ownsMap := [], appenders := []\<rparr>) (cats s c) else cats s c)"

lemma delete_owned_filter: "delete_owned x as1 s = deleteAllAppendersWOLock (List.filter (owns x) as1) s"
proof (induction as1 arbitrary: s)
  case (Cons a as1)
  then show ?case by (cases "Appender_delete a s") simp_all
qed simp

lemma deleteAll_append:
  "deleteAllAppendersWOLock (xs @ ys) s = bindR (deleteAllAppendersWOLock xs s) (deleteAllAppendersWOLock ys)"
proof (induction xs arbitrary: s)
  case (Cons a xs)
  then show ?case by (cases "Appender_delete a s") simp_all
qed simp

lemma deleteAll_frame:
  "deleteAllAppendersWOLock as1 (s\<lparr>cats := C\<rparr>) = bindR (deleteAllAppendersWOLock as1 s) (\<lambda>s1. Inr (s1\<lparr>cats := C\<rparr>))"
  "deleteAllAppendersWOLock as1 s = Inr s' \<Longrightarrow> cats s' = cats s \<and> categoryMap s' = categoryMap s \<and> next_addr s' = next_addr s"
proof (induction as1 arbitrary: s)
  case (Cons a as1)
  { case 1
    show ?case
    proof (cases "apps s a")
      case (Some x)
      let ?t = "s\<lparr>apps := (apps s)(a := None), allAppenders := map_erase (app_name x) (allAppenders s)\<rparr>"
      have d: "Appender_delete a (s\<lparr>cats := C\<rparr>) = Inr (?t\<lparr>cats := C\<rparr>)" "Appender_delete a s = Inr ?t"
        by (simp_all add: Appender_delete_def Some)
      have "deleteAllAppendersWOLock (a # as1) (s\<lparr>cats := C\<rparr>) = deleteAllAppendersWOLock as1 (?t\<lparr>cats := C\<rparr>)"
        by (simp only: deleteAllAppendersWOLock.simps d bindR_Inr)
      also have "\<dots> = bindR (deleteAllAppendersWOLock as1 ?t) (\<lambda>s1. Inr (s1\<lparr>cats := C\<rparr>))"
        by (rule Cons.IH(1))
      finally show ?thesis by (simp only: deleteAllAppendersWOLock.simps d bindR_Inr)
    qed (simp add: Appender_delete_def)
  next
    case 2
    then obtain x where x: "apps s a = Some x"
      "deleteAllAppendersWOLock as1 (s\<lparr>apps := (apps s)(a := None), allAppenders := map_erase (app_name x) (allAppenders s)\<rparr>) = Inr s'"
      by (auto simp: Appender_delete_def bindR_eq_Inr deref_eq_Inr)
    then show ?case using Cons.IH(2) [OF x(2)] by simp }
qed simp_all

lemma restrict_all: "m |` UNIV = m"
  by (simp add: restrict_map_def)

lemma deleteAll_defined:
  "(if distinct as1 \<and> set as1 \<subseteq> dom (apps s)
    then \<exists>s'. deleteAllAppendersWOLock as1 s = Inr s' \<and> apps s' = (apps s) |` (- set as1)
    else deleteAllAppendersWOLock as1 s = Inl UseAfterFree)"
proof (induction as1 arbitrary: s)
  case (Cons a as1)
  show ?case
  proof (cases "apps s a")
    case None
    then show ?thesis by (auto simp: Appender_delete_def)
  next
    case (Some x)
    let ?s1 = "s\<lparr>apps := (apps s)(a := None), allAppenders := map_erase (app_name x) (allAppenders s)\<rparr>"
    have d: "deleteAllAppendersWOLock (a # as1) s = deleteAllAppendersWOLock as1 ?s1"
      using Some by (simp add: Appender_delete_def)
    have c: "distinct (a # as1) \<and> set (a # as1) \<subseteq> dom (apps s) \<longleftrightarrow> distinct as1 \<and> set as1 \<subseteq> dom (apps ?s1)"
      using Some by auto
    have r: "apps ?s1 |` (- set as1) = (apps s) |` (- set (a # as1))"
      by (auto simp: restrict_map_def fun_eq_iff)
    show ?thesis using Cons.IH [of ?s1] unfolding d c r .
  qed
qed (simp add: restrict_all)

lemma remove_all_eq:
  assumes "distinct cs" and "set cs \<subseteq> dom (cats s)"
  shows "remove_all cs s =
    bindR (deleteAllAppendersWOLock (concat (map (owned_by s) cs)) s) (\<lambda>s1. Inr (s1\<lparr>cats := cleared s cs\<rparr>))"
  using assms
proof (induction cs arbitrary: s)
  case Nil
  show ?case by (simp add: cleared_def)
next
  case (Cons c cs)
  obtain x where x: "cats s c = Some x" using Cons.prems by auto
  have o: "owned_by s c = List.filter (owns x) (appenders x)" by (simp add: owned_by_def x)
  show ?case
  proof (cases "deleteAllAppendersWOLock (owned_by s c) s")
    case (Inl f)
    then show ?thesis by (simp add: removeAllAppenders_def x delete_owned_filter o deleteAll_append)
  next
    case (Inr s1)
    let ?C = "(cats s)(c \<mapsto> x\<lparr>ownsMap := [], appenders := []\<rparr>)"
    let ?s2 = "s1\<lparr>cats := ?C\<rparr>"
    have f: "cats s1 = cats s" using deleteAll_frame(2) [OF Inr] by simp
    have 1: "removeAllAppenders c s = Inr ?s2"
      using Inr by (simp add: removeAllAppenders_def x delete_owned_filter o f)
    have "owned_by ?s2 d = owned_by s d" if "d \<in> set cs" for d
      using that Cons.prems(1) by (auto simp: owned_by_def)
    then have 2: "map (owned_by ?s2) cs = map (owned_by s) cs" by simp
    have 3: "cleared ?s2 cs = cleared s (c # cs)"
      using Cons.prems(1) x by (auto simp: cleared_def fun_eq_iff)
    have "remove_all (c # cs) s = remove_all cs ?s2" by (simp add: 1)
    also have "\<dots> = bindR (deleteAllAppendersWOLock (concat (map (owned_by ?s2) cs)) ?s2) (\<lambda>s3. Inr (s3\<lparr>cats := cleared ?s2 cs\<rparr>))"
      using Cons.prems by (intro Cons.IH) auto
    also have "\<dots> = bindR (deleteAllAppendersWOLock (concat (map (owned_by s) cs)) s1) (\<lambda>s3. Inr (s3\<lparr>cats := cleared s (c # cs)\<rparr>))"
      unfolding 2 3 deleteAll_frame(1) by (simp add: bindR_assoc)
    also have "\<dots> = bindR (deleteAllAppendersWOLock (concat (map (owned_by s) (c # cs))) s) (\<lambda>s3. Inr (s3\<lparr>cats := cleared s (c # cs)\<rparr>))"
      by (simp add: deleteAll_append Inr)
    finally show ?thesis .
  qed
qed

lemma hier_ok_distinct:
  assumes "hier_ok s"
  shows "distinct (map snd (categoryMap s))" and "set (map snd (categoryMap s)) \<subseteq> dom (cats s)"
proof -
  have d: "distinct (map fst (categoryMap s))"
    using assms by (simp add: hier_ok_def strict_sorted_iff)
  have n: "node_ok s nm a" if "(nm, a) \<in> set (categoryMap s)" for nm a
    using hier_ok_node [OF assms] map_of_is_SomeI [OF d that] by simp
  have "inj_on snd (set (categoryMap s))"
  proof (rule inj_onI)
    fix p q assume pq: "p \<in> set (categoryMap s)" "q \<in> set (categoryMap s)" "snd p = snd q"
    have "node_ok s (fst p) (snd p)" "node_ok s (fst q) (snd q)" using n pq by (metis prod.collapse)+
    then show "p = q" using pq(3) by (auto simp: node_ok_def intro: prod_eqI)
  qed
  then show "distinct (map snd (categoryMap s))" using d by (simp add: distinct_map)
  show "set (map snd (categoryMap s)) \<subseteq> dom (cats s)"
  proof
    fix b assume "b \<in> set (map snd (categoryMap s))"
    then obtain nm where "(nm, b) \<in> set (categoryMap s)" by auto
    from n [OF this] show "b \<in> dom (cats s)" unfolding node_ok_def by blast
  qed
qed

lemma shutdown_eq:
  assumes "hier_ok s"
  shows "shutdown [] s = bindR (deleteAllAppendersWOLock (owned s) s) (\<lambda>s1.
    Inr (s1\<lparr>cats := cleared s (map snd (categoryMap s))\<rparr>))"
  using remove_all_eq [OF hier_ok_distinct [OF assms]] by (simp add: shutdown_def owned_def bindR_assoc)

lemma shutdown_owned:
  assumes "hier_ok s" and "distinct (owned s)" and "set (owned s) \<subseteq> dom (apps s)"
  shows "\<exists>s'. shutdown [] s = Inr s' \<and> apps s' = (apps s) |` (- set (owned s)) \<and>
    cats s' = cleared s (map snd (categoryMap s))"
  using deleteAll_defined [of "owned s" s] assms(2,3) unfolding shutdown_eq [OF assms(1)] by auto

text \<open>
  C22. Shutting down is safe exactly when every appender that a category owns is alive and has one
  owner. It then deletes exactly the owned appenders and empties every category; otherwise an appender
  is deleted twice.
\<close>

theorem shutdown_ownership:
  assumes "hier_ok s"
  shows "if distinct (owned s) \<and> set (owned s) \<subseteq> dom (apps s)
    then \<exists>s'. shutdown [] s = Inr s' \<and> apps s' = (apps s) |` (- set (owned s)) \<and>
      cats s' = cleared s (map snd (categoryMap s))
    else shutdown [] s = Inl UseAfterFree"
  using deleteAll_defined [of "owned s" s] shutdown_owned [OF assms] unfolding shutdown_eq [OF assms] by (auto split: if_splits)

theorem shutdown_ownership_witness: "\<exists>s'. shutdown [] sample_logs = Inr s' \<and> apps s' = apps sample_logs"
proof -
  have "owned sample_logs = []" by (simp add: owned_def owned_by_def sample_logs_eq owns_def Category_new_def)
  then show ?thesis using shutdown_ownership [OF sample_ok] by (auto simp: restrict_all)
qed

text \<open>
  The registry is keyed by the name alone: deleting an appender also unregisters another one that has
  taken over its name, and a lookup through a category finds appenders that are not attached to it.
\<close>

lemma appender_name_clash:
  assumes "apps s a = Some x" and "map_of (allAppenders s) (app_name x) = Some b" and "Appender_delete a s = Inr s'"
  shows "Appender_getAppender (app_name x) s' = Null" and "b \<noteq> a \<Longrightarrow> apps s' b = apps s b"
proof -
  have s': "s' = s\<lparr>apps := (apps s)(a := None), allAppenders := map_erase (app_name x) (allAppenders s)\<rparr>"
    using assms(1,3) by (simp add: Appender_delete_def)
  have "map_of (map_erase k ps) k = None" for k and ps :: "(string \<times> nat) list"
    by (induction ps) (auto simp: map_erase_def)
  then show "Appender_getAppender (app_name x) s' = Null" by (simp add: Appender_getAppender_def s')
  show "b \<noteq> a \<Longrightarrow> apps s' b = apps s b" by (simp add: s')
qed

lemma named_appender_is_global:
  assumes "cats s c = Some x" and "appenders x \<noteq> []"
  shows "getAppender_named c nm s = Inr (Appender_getAppender nm s)"
  using assms by (cases "appenders x") (simp_all add: getAppender_named_def)

end
