(* ===== verification/LogStream.thy ===== *)
theory LogStream
  imports LogCategory
begin

text \<open>
  \<^verbatim>\<open>src/git/log4cpp/src/CategoryStream.cpp\<close>, the stream that collects a message for a category, and
  \<^verbatim>\<open>src/git/log4cpp/src/FixedContextCategory.cpp\<close>, the category that logs through another one with a
  diagnostic context of its own.
\<close>

subsection \<open>Streams\<close>

text \<open>A string stream: the text, the width for the next output and the \<open>left\<close> flag.\<close>

record ostringstream =
  os_text :: string
  os_width :: int
  os_left :: bool

definition os_new :: ostringstream where
  "os_new = \<lparr>os_text = [], os_width = 0, os_left = False\<rparr>"

definition os_put :: "string \<Rightarrow> ostringstream \<Rightarrow> ostringstream" where
  "os_put t o1 =
     (let fill = replicate (nat (os_width o1) - length t) CHR '' '' in
      o1\<lparr>os_text := os_text o1 @ (if os_left o1 then t @ fill else fill @ t), os_width := 0\<rparr>)"

record CategoryStream =
  cs_cat :: nat
  cs_prio :: int
  buffer :: "ostringstream option"

definition CategoryStream_new :: "nat \<Rightarrow> int \<Rightarrow> CategoryStream" where
  "CategoryStream_new c p = \<lparr>cs_cat = c, cs_prio = p, buffer = None\<rparr>"

definition getStream :: "nat \<Rightarrow> int \<Rightarrow> logs \<Rightarrow> CategoryStream res option" where
  "getStream c p s =
     map_option (\<lambda>r. bindR r (\<lambda>b. Inr (CategoryStream_new c (if b then p else level NOTSET)))) (isPriorityEnabled c p s)"

definition flush :: "thread_ctx \<Rightarrow> CategoryStream \<Rightarrow> logs \<Rightarrow> CategoryStream \<times> logs res option" where
  "flush T st s =
     (case buffer st of
        None \<Rightarrow> (st, Some (Inr s))
      | Some b \<Rightarrow> (st\<lparr>buffer := None\<rparr>, log_message T (cs_cat st) (cs_prio st) (os_text b) s))"

definition with_buffer :: "CategoryStream \<Rightarrow> CategoryStream" where
  "with_buffer st = (if buffer st = None then st\<lparr>buffer := Some os_new\<rparr> else st)"

definition put :: "string \<Rightarrow> CategoryStream \<Rightarrow> CategoryStream" where
  "put t st =
     (if cs_prio st \<noteq> level NOTSET then (let st1 = with_buffer st in st1\<lparr>buffer := map_option (os_put t) (buffer st1)\<rparr>)
      else st)"

text \<open>The width is set through \<open>_buffer\<close> whether or not there is one.\<close>

definition width :: "int \<Rightarrow> CategoryStream \<Rightarrow> (int \<times> CategoryStream) res" where
  "width wide st =
     (let st1 = (if cs_prio st \<noteq> level NOTSET then with_buffer st else st) in
      case buffer st1 of None \<Rightarrow> Inl NullDeref
      | Some b \<Rightarrow> Inr (os_width b, st1\<lparr>buffer := Some (b\<lparr>os_width := wide\<rparr>)\<rparr>))"

definition eol :: "thread_ctx \<Rightarrow> CategoryStream \<Rightarrow> logs \<Rightarrow> CategoryStream \<times> logs res option" where
  "eol T st s = (if buffer st \<noteq> None then flush T st s else (st, Some (Inr s)))"

definition left_flag :: "CategoryStream \<Rightarrow> CategoryStream" where
  "left_flag st = st\<lparr>buffer := map_option (\<lambda>b. b\<lparr>os_left := True\<rparr>) (buffer st)\<rparr>"

text \<open>The manipulators of \<^verbatim>\<open>Manipulator.cpp\<close>, on a stream that is good or not.\<close>

definition manip_width :: "bool \<Rightarrow> u32 \<Rightarrow> ostringstream \<Rightarrow> ostringstream" where
  "manip_width good n o1 = (if good then o1\<lparr>os_width := int (unat n)\<rparr> else o1)"

definition manip_tab :: "bool \<Rightarrow> u32 \<Rightarrow> ostringstream \<Rightarrow> ostringstream" where
  "manip_tab good n o1 = (if good then o1\<lparr>os_text := os_text o1 @ replicate (unat n) CHR 0x09\<rparr> else o1)"

text \<open>\<open>operator<<\<close> of a manipulator calls it on the stream.\<close>

definition manipulate ::
  "(CategoryStream \<Rightarrow> logs \<Rightarrow> CategoryStream \<times> logs res option) \<Rightarrow> CategoryStream \<Rightarrow> logs \<Rightarrow> CategoryStream \<times> logs res option" where
  "manipulate pf st s = pf st s"

text \<open>The destructor flushes.\<close>

definition CategoryStream_destroy :: "thread_ctx \<Rightarrow> CategoryStream \<Rightarrow> logs \<Rightarrow> logs res option" where
  "CategoryStream_destroy T st s = snd (flush T st s)"

lemma put_text:
  "cs_prio st \<noteq> level NOTSET \<Longrightarrow> buffer st = Some b \<Longrightarrow> os_width b = 0 \<Longrightarrow>
   put t st = st\<lparr>buffer := Some (b\<lparr>os_text := os_text b @ t\<rparr>)\<rparr>"
  by (simp add: put_def with_buffer_def os_put_def)

lemma fold_put:
  assumes "cs_prio st \<noteq> level NOTSET" and "buffer st = Some b" and "os_width b = 0"
  shows "fold put ps st = st\<lparr>buffer := Some (b\<lparr>os_text := os_text b @ concat ps\<rparr>)\<rparr>"
  using assms by (induction ps arbitrary: st b) (simp_all add: put_text)

lemma fold_put_off: "cs_prio st = level NOTSET \<Longrightarrow> fold put ps st = st"
  by (induction ps) (simp_all add: put_def)

lemma fold_put_first:
  assumes "cs_prio st \<noteq> level NOTSET" and "buffer st = None"
  shows "fold put (p # ps) st = st\<lparr>buffer := Some (os_new\<lparr>os_text := p @ concat ps\<rparr>)\<rparr>"
proof -
  have "put p st = st\<lparr>buffer := Some (os_new\<lparr>os_text := p\<rparr>)\<rparr>"
    using assms by (simp add: put_def with_buffer_def os_put_def os_new_def)
  then show ?thesis
    using fold_put [of "st\<lparr>buffer := Some (os_new\<lparr>os_text := p\<rparr>)\<rparr>" "os_new\<lparr>os_text := p\<rparr>" ps] assms
    by (simp add: os_new_def)
qed

text \<open>
  A stream on a category of a consistent tree logs, when it is destroyed, the concatenation of
  what was written to it as one message, exactly as a direct call would; nothing written, nothing
  logged. Setting the width of a stream that is disabled is a null pointer access.
\<close>

theorem stream_logs:
  assumes "hier_ok s" and "map_of (categoryMap s) nm = Some c"
  shows "\<exists>st. getStream c p s = Some (Inr st) \<and>
    CategoryStream_destroy T (fold put ps st) s = (if ps = [] then Some (Inr s) else log_message T c p (concat ps) s) \<and>
    (width w st = Inl NullDeref \<longleftrightarrow> effective s nm < p)"
proof -
  note P = chained_priority [OF assms]
  have en: "isPriorityEnabled c p s = Some (Inr (p \<le> effective s nm))"
    using P by (simp add: isPriorityEnabled_def)
  let ?st = "CategoryStream_new c (if p \<le> effective s nm then p else level NOTSET)"
  have g: "getStream c p s = Some (Inr ?st)" using en by (simp add: getStream_def)
  show ?thesis
  proof (cases "p \<le> effective s nm")
    case True
    then have p: "p \<noteq> level NOTSET" using P by auto
    have "CategoryStream_destroy T (fold put ps ?st) s = (if ps = [] then Some (Inr s) else log_message T c p (concat ps) s)"
    proof (cases ps)
      case Nil
      then show ?thesis by (simp add: CategoryStream_destroy_def flush_def CategoryStream_new_def)
    next
      case (Cons q qs)
      have "fold put ps ?st = ?st\<lparr>buffer := Some (os_new\<lparr>os_text := q @ concat qs\<rparr>)\<rparr>"
        unfolding Cons by (rule fold_put_first) (simp_all add: CategoryStream_new_def True p)
      then show ?thesis using True Cons by (simp add: CategoryStream_destroy_def flush_def CategoryStream_new_def)
    qed
    moreover have "width w ?st \<noteq> Inl NullDeref"
      using True p by (simp add: width_def with_buffer_def CategoryStream_new_def)
    ultimately show ?thesis using g True by auto
  next
    case False
    have "fold put ps ?st = ?st" by (rule fold_put_off) (simp add: False CategoryStream_new_def)
    then have "CategoryStream_destroy T (fold put ps ?st) s = Some (Inr s)"
      by (simp add: CategoryStream_destroy_def flush_def CategoryStream_new_def)
    moreover have "log_message T c p (concat ps) s = Some (Inr s)"
      using en False by (simp add: log_message_def when_enabled_def)
    moreover have "width w ?st = Inl NullDeref" using False by (simp add: width_def CategoryStream_new_def)
    ultimately show ?thesis using g False by auto
  qed
qed

theorem stream_logs_witness:
  "\<exists>st. getStream 2 700 sample_logs = Some (Inr st) \<and> width 4 st = Inl NullDeref"
proof -
  have m: "map_of (categoryMap sample_logs) ''a'' = Some 2" by (simp add: sample_logs_eq)
  have "effective sample_logs ''a'' = 600"
    by (simp add: effective_def ancestors.simps [of "''a''"] parent_name_def find_last_def prio_of_def sample_logs_eq
        level_def Category_new_def)
  then show ?thesis using stream_logs [OF sample_ok m, of 700 undefined "[]" 4] by auto
qed

subsection \<open>Fixed context\<close>

text \<open>The base object of the category, which is not entered in the tree, the delegate and the context.\<close>

record FixedContextCategory =
  fc_base :: category
  delegate :: nat
  fc_context :: string

definition FixedContextCategory_new :: "string \<Rightarrow> string \<Rightarrow> logs \<Rightarrow> (FixedContextCategory \<times> logs) res" where
  "FixedContextCategory_new nm context s =
     (let (c, s1) = getInstance nm s in
      bindR (deref (cats s1) (Ptr c)) (\<lambda>x.
        let (d, s2) = getInstance nm s1 in
        Inr (\<lparr>fc_base = Category_new nm (parent x) (level NOTSET), delegate = d, fc_context = context\<rparr>, s2)))"

definition setContext :: "string \<Rightarrow> FixedContextCategory \<Rightarrow> FixedContextCategory" where
  "setContext context f = f\<lparr>fc_context := context\<rparr>"

definition fc_setPriority :: "int \<Rightarrow> FixedContextCategory \<Rightarrow> string option \<times> FixedContextCategory" where
  "fc_setPriority p f =
     (if p < level NOTSET \<or> parent (fc_base f) \<noteq> Null then (None, f\<lparr>fc_base := (fc_base f)\<lparr>prio := p\<rparr>\<rparr>)
      else (Some ''cannot set priority NOTSET on Root Category'', f))"

definition fc_getChainedPriority :: "FixedContextCategory \<Rightarrow> logs \<Rightarrow> int res option" where
  "fc_getChainedPriority f s =
     (if prio (fc_base f) = level NOTSET then getChainedPriority (Ptr (delegate f)) s else Some (Inr (prio (fc_base f))))"

text \<open>Both overloads of \<open>addAppender\<close>, \<open>removeAllAppenders\<close> and \<open>setAdditivity\<close> are empty.\<close>

definition fc_addAppender :: "ptr \<Rightarrow> FixedContextCategory \<Rightarrow> FixedContextCategory" where
  "fc_addAppender a f = f"

definition fc_removeAllAppenders :: "FixedContextCategory \<Rightarrow> FixedContextCategory" where
  "fc_removeAllAppenders f = f"

definition fc_setAdditivity :: "bool \<Rightarrow> FixedContextCategory \<Rightarrow> FixedContextCategory" where
  "fc_setAdditivity b f = f"

definition fc_ownsAppender :: "ptr \<Rightarrow> FixedContextCategory \<Rightarrow> bool" where
  "fc_ownsAppender a f = False"

definition fc_getAppender :: "FixedContextCategory \<Rightarrow> logs \<Rightarrow> ptr res" where
  "fc_getAppender f s = getAppender (delegate f) s"

definition fc_getAppender_named :: "FixedContextCategory \<Rightarrow> string \<Rightarrow> logs \<Rightarrow> ptr res" where
  "fc_getAppender_named f nm s = getAppender_named (delegate f) nm s"

definition fc_getAllAppenders :: "FixedContextCategory \<Rightarrow> logs \<Rightarrow> nat list res" where
  "fc_getAllAppenders f s = bindR (deref (cats s) (Ptr (delegate f))) (\<lambda>x. Inr (appenders x))"

definition fc_getAdditivity :: "FixedContextCategory \<Rightarrow> logs \<Rightarrow> bool res" where
  "fc_getAdditivity f s = bindR (deref (cats s) (Ptr (delegate f))) (\<lambda>x. Inr (additive x))"

definition fc_callAppenders :: "LoggingEvent \<Rightarrow> FixedContextCategory \<Rightarrow> logs \<Rightarrow> logs res option" where
  "fc_callAppenders event f s = callAppenders event (Ptr (delegate f)) s"

definition fc_logUnconditionally2 :: "thread_ctx \<Rightarrow> FixedContextCategory \<Rightarrow> int \<Rightarrow> string \<Rightarrow> logs \<Rightarrow> logs res option" where
  "fc_logUnconditionally2 T f p msg s =
     fc_callAppenders (LoggingEvent_new (t_name T) (t_seconds T) (t_millis T) (cat_name (fc_base f)) msg (fc_context f) p) f s"

text \<open>\<open>Category::log\<close> with the virtual functions of this class.\<close>

definition fc_log :: "thread_ctx \<Rightarrow> FixedContextCategory \<Rightarrow> int \<Rightarrow> string \<Rightarrow> logs \<Rightarrow> logs res option" where
  "fc_log T f p msg s =
     Option.bind (fc_getChainedPriority f s) (\<lambda>r.
       case r of Inl e \<Rightarrow> Some (Inl e) | Inr v \<Rightarrow> if p \<le> v then fc_logUnconditionally2 T f p msg s else Some (Inr s))"

text \<open>
  A fixed-context category logs as the category of its name does, with its own context in place
  of the thread's, as long as its priority is not set.
\<close>

theorem fixed_context_logs:
  assumes "hier_ok s" and "FixedContextCategory_new nm ctx s = Inr (f, s')"
  shows "fc_log T f p msg s' = log_message (T\<lparr>t_ndc := ctx\<rparr>) (delegate f) p msg s' \<and>
    map_of (categoryMap s') nm = Some (delegate f) \<and> hier_ok s'"
proof -
  obtain c s1 where g: "getInstance nm s = (c, s1)" by force
  note I = getInstance_inv [OF assms(1) g] getInstance_again [OF assms(1) g]
  obtain x where x: "cats s1 c = Some x" "cat_name x = nm"
    using hier_ok_node [of s1 nm c] I by (auto simp: node_ok_def)
  have f: "s' = s1" "f = \<lparr>fc_base = Category_new nm (parent x) (level NOTSET), delegate = c, fc_context = ctx\<rparr>"
    using assms(2) I by (simp_all add: FixedContextCategory_new_def g x(1))
  have "fc_log T f p msg s' = log_message (T\<lparr>t_ndc := ctx\<rparr>) c p msg s1"
    using x I chained_priority [of s1 nm c]
    by (simp add: fc_log_def fc_getChainedPriority_def f Category_new_def log_message_def when_enabled_def
        isPriorityEnabled_def fc_logUnconditionally2_def fc_callAppenders_def logUnconditionally2_def)
  then show ?thesis using I f by simp
qed

theorem fixed_context_logs_witness:
  "\<exists>f s'. FixedContextCategory_new ''a'' ''ctx'' sample_logs = Inr (f, s') \<and>
     fc_log \<lparr>t_name = [], t_seconds = 0, t_millis = 0, t_ndc = ''other''\<rparr> f 0 ''m'' s' =
       log_message \<lparr>t_name = [], t_seconds = 0, t_millis = 0, t_ndc = ''ctx''\<rparr> 2 0 ''m'' s'"
proof -
  obtain f s' where "FixedContextCategory_new ''a'' ''ctx'' sample_logs = Inr (f, s')" "delegate f = 2"
    by (simp add: FixedContextCategory_new_def getInstance.simps getExistingInstance_def sample_logs_eq Category_new_def)
  then show ?thesis
    using fixed_context_logs [OF sample_ok, of "''a''" "''ctx''" f s' "\<lparr>t_name = [], t_seconds = 0, t_millis = 0, t_ndc = ''other''\<rparr>" 0 "''m''"]
    by auto
qed

end
