(* ===== verification/LogFiles.thy ===== *)
theory LogFiles
  imports LogEvents StringUtil CNumbers
begin

text \<open>
  \<^verbatim>\<open>src/git/log4cpp/src/FileAppender.cpp\<close>, \<^verbatim>\<open>RollingFileAppender.cpp\<close> and
  \<^verbatim>\<open>DailyRollingFileAppender.cpp\<close>: the appenders that write to files, on a model of the file
  system calls they make.
\<close>

subsection \<open>The file system\<close>

text \<open>
  Names to files, and file descriptors to open files, which stay the same when the name is moved.
  \<open>may_open\<close> tells for which names \<open>open\<close> succeeds. Names are compared as strings: two spellings of
  one path are two names, so a log is meant to be named with its directory.
\<close>

record inode =
  content :: string
  mtime :: int
  regular :: bool

record fsys =
  dir :: "string \<rightharpoonup> nat"
  inodes :: "nat \<Rightarrow> inode"
  fds :: "int \<rightharpoonup> nat"
  may_open :: "string \<Rightarrow> bool"
  next_ino :: nat
  next_fd :: nat

text \<open>\<open>open(name, O_CREAT | O_APPEND | O_WRONLY, mode)\<close>, with \<open>O_TRUNC\<close> when \<open>trunc\<close>, at time \<open>t\<close>.\<close>

definition sys_open :: "int \<Rightarrow> string \<Rightarrow> bool \<Rightarrow> fsys \<Rightarrow> int \<times> fsys" where
  "sys_open t nm trunc fs =
     (if \<not> may_open fs nm then (- 1, fs)
      else
        (let fd = int (next_fd fs);
             (i, fs1) = (case dir fs nm of
                Some i \<Rightarrow> (i, if trunc then fs\<lparr>inodes := (inodes fs)(i := (inodes fs i)\<lparr>content := [], mtime := t\<rparr>)\<rparr> else fs)
              | None \<Rightarrow> (next_ino fs, fs\<lparr>dir := (dir fs)(nm \<mapsto> next_ino fs), next_ino := next_ino fs + 1,
                  inodes := (inodes fs)(next_ino fs := \<lparr>content = [], mtime = t, regular = True\<rparr>)\<rparr>))
         in (fd, fs1\<lparr>fds := (fds fs1)(fd \<mapsto> i), next_fd := next_fd fs + 1\<rparr>)))"

definition sys_close :: "int \<Rightarrow> fsys \<Rightarrow> bool \<times> fsys" where
  "sys_close fd fs = (if fds fs fd = None then (False, fs) else (True, fs\<lparr>fds := (fds fs)(fd := None)\<rparr>))"

definition sys_write :: "int \<Rightarrow> int \<Rightarrow> string \<Rightarrow> fsys \<Rightarrow> fsys" where
  "sys_write t fd s fs =
     (case fds fs fd of
        None \<Rightarrow> fs
      | Some i \<Rightarrow> fs\<lparr>inodes := (inodes fs)(i := (inodes fs i)\<lparr>content := content (inodes fs i) @ s, mtime := t\<rparr>)\<rparr>)"

text \<open>\<open>lseek(fd, 0, SEEK_END)\<close>.\<close>

definition sys_size :: "int \<Rightarrow> fsys \<Rightarrow> int" where
  "sys_size fd fs = (case fds fs fd of None \<Rightarrow> - 1 | Some i \<Rightarrow> int (length (content (inodes fs i))))"

definition sys_remove :: "string \<Rightarrow> fsys \<Rightarrow> fsys" where
  "sys_remove nm fs = fs\<lparr>dir := (dir fs)(nm := None)\<rparr>"

definition sys_rename :: "string \<Rightarrow> string \<Rightarrow> fsys \<Rightarrow> bool \<times> fsys" where
  "sys_rename old new fs =
     (case dir fs old of
        None \<Rightarrow> (False, fs)
      | Some i \<Rightarrow> (True, if old = new then fs else fs\<lparr>dir := (dir fs)(old := None, new \<mapsto> i)\<rparr>))"

subsection \<open>FileAppender\<close>

text \<open>The layout is a function; \<open>trunc\<close> is the bit of \<open>_flags\<close> that varies.\<close>

record FileAppender =
  fileName :: string
  fd :: int
  trunc :: bool
  mode :: nat
  layout :: "LoggingEvent \<Rightarrow> string res"

definition FileAppender_new ::
  "int \<Rightarrow> string \<Rightarrow> bool \<Rightarrow> nat \<Rightarrow> (LoggingEvent \<Rightarrow> string res) \<Rightarrow> fsys \<Rightarrow> FileAppender \<times> fsys" where
  "FileAppender_new t nm app m lay fs =
     (let (d, fs1) = sys_open t (c_str nm) (\<not> app) fs in
      (\<lparr>fileName = nm, fd = d, trunc = \<not> app, mode = m, layout = lay\<rparr>, fs1))"

definition FileAppender_fd :: "int \<Rightarrow> (LoggingEvent \<Rightarrow> string res) \<Rightarrow> FileAppender" where
  "FileAppender_fd d lay = \<lparr>fileName = [], fd = d, trunc = False, mode = 420, layout = lay\<rparr>"

definition file_close :: "'a FileAppender_scheme \<Rightarrow> fsys \<Rightarrow> 'a FileAppender_scheme \<times> fsys" where
  "file_close a fs = (if fd a \<noteq> - 1 then (a\<lparr>fd := - 1\<rparr>, snd (sys_close (fd a) fs)) else (a, fs))"

definition setAppend :: "bool \<Rightarrow> 'a FileAppender_scheme \<Rightarrow> 'a FileAppender_scheme" where
  "setAppend app a = a\<lparr>trunc := \<not> app\<rparr>"

definition getAppend :: "'a FileAppender_scheme \<Rightarrow> bool" where
  "getAppend a \<longleftrightarrow> \<not> trunc a"

definition setMode :: "nat \<Rightarrow> 'a FileAppender_scheme \<Rightarrow> 'a FileAppender_scheme" where
  "setMode m a = a\<lparr>mode := m\<rparr>"

definition file_append :: "int \<Rightarrow> LoggingEvent \<Rightarrow> 'a FileAppender_scheme \<Rightarrow> fsys \<Rightarrow> fsys res" where
  "file_append t event a fs = bindR (layout a event) (\<lambda>msg. Inr (sys_write t (fd a) msg fs))"

definition file_reopen :: "int \<Rightarrow> 'a FileAppender_scheme \<Rightarrow> fsys \<Rightarrow> bool \<times> 'a FileAppender_scheme \<times> fsys" where
  "file_reopen t a fs =
     (if fileName a \<noteq> [] then
        (let (d, fs1) = sys_open t (c_str (fileName a)) (trunc a) fs in
         if d < 0 then (False, a, fs1)
         else (True, a\<lparr>fd := d\<rparr>, if fd a \<noteq> - 1 then snd (sys_close (fd a) fs1) else fs1))
      else (True, a, fs))"

subsection \<open>RollingFileAppender\<close>

record RollingFileAppender = FileAppender +
  maxBackupIndex :: u32
  maxBackupIndexWidth :: nat
  maxFileSize :: u64

text \<open>\<open>width_of\<close> is the number of digits, which the code computes with \<open>log10\<close> on a \<open>float\<close>.\<close>

definition RollingFileAppender_new ::
  "(u32 \<Rightarrow> nat) \<Rightarrow> int \<Rightarrow> string \<Rightarrow> u64 \<Rightarrow> u32 \<Rightarrow> bool \<Rightarrow> nat \<Rightarrow> (LoggingEvent \<Rightarrow> string res) \<Rightarrow> fsys \<Rightarrow>
   RollingFileAppender \<times> fsys" where
  "RollingFileAppender_new width_of t nm maxSize maxBackups app m lay fs =
     (let (a, fs1) = FileAppender_new t nm app m lay fs; n = (if maxBackups > 0 then maxBackups else 1) in
      (FileAppender.extend a \<lparr>maxBackupIndex = n, maxBackupIndexWidth = (if n > 0 then width_of n else 1), maxFileSize = maxSize\<rparr>,
       fs1))"

definition setMaxBackupIndex :: "(u32 \<Rightarrow> nat) \<Rightarrow> u32 \<Rightarrow> RollingFileAppender \<Rightarrow> RollingFileAppender" where
  "setMaxBackupIndex width_of n a =
     a\<lparr>maxBackupIndex := n, maxBackupIndexWidth := (if n > 0 then width_of n else 1)\<rparr>"

definition setMaximumFileSize :: "u64 \<Rightarrow> RollingFileAppender \<Rightarrow> RollingFileAppender" where
  "setMaximumFileSize n a = a\<lparr>maxFileSize := n\<rparr>"

text \<open>The name as the system calls see it: up to the terminating zero that \<open>std::ends\<close> writes.\<close>

definition backup_name :: "RollingFileAppender \<Rightarrow> nat \<Rightarrow> string" where
  "backup_name a i =
     c_str (fileName a @ ''.'' @ replicate (maxBackupIndexWidth a - length (digits_of i)) CHR ''0'' @ digits_of i @ [CHR 0x00])"

text \<open>The loop over \<open>i\<close> downwards: each file takes the name of the one after it.\<close>

fun shift_backups :: "RollingFileAppender \<Rightarrow> nat \<Rightarrow> string \<Rightarrow> fsys \<Rightarrow> string \<times> fsys" where
  "shift_backups a (Suc (Suc i)) last_log fs =
     shift_backups a (Suc i) (backup_name a (Suc i)) (snd (sys_rename (backup_name a (Suc i)) last_log fs))"
| "shift_backups a i last_log fs = (last_log, fs)"

definition rollOver :: "int \<Rightarrow> RollingFileAppender \<Rightarrow> fsys \<Rightarrow> RollingFileAppender \<times> fsys" where
  "rollOver t a fs =
     (let fs1 = snd (sys_close (fd a) fs);
          n = unat (maxBackupIndex a);
          fs2 = (if maxBackupIndex a > 0 then
              (let (last_log, fs') = shift_backups a n (backup_name a n) (sys_remove (backup_name a n) fs1)
               in snd (sys_rename (c_str (fileName a)) last_log fs'))
            else fs1);
          (d, fs3) = sys_open t (c_str (fileName a)) (trunc a) fs2
      in (a\<lparr>fd := d\<rparr>, fs3))"

definition rolling_append :: "int \<Rightarrow> LoggingEvent \<Rightarrow> RollingFileAppender \<Rightarrow> fsys \<Rightarrow> (RollingFileAppender \<times> fsys) res" where
  "rolling_append t event a fs =
     bindR (file_append t event a fs) (\<lambda>fs1.
       let offset = sys_size (fd a) fs1 in
       if offset < 0 then Inr (a, fs1)
       else if word_of_int offset \<ge> maxFileSize a then Inr (rollOver t a fs1) else Inr (a, fs1))"

subsection \<open>DailyRollingFileAppender\<close>

record tm =
  tm_year :: int
  tm_mon :: int
  tm_mday :: int

record DailyRollingFileAppender = FileAppender +
  maxDaysToKeep :: u32
  logsTime :: tm

definition maxDaysToKeepDefault :: u32 where
  "maxDaysToKeepDefault = 30"

text \<open>\<open>localtime\<close> is the calendar of the C library, which can fail; \<open>junk\<close> is then left in \<open>_logsTime\<close>.\<close>

definition DailyRollingFileAppender_new ::
  "(int \<Rightarrow> tm option) \<Rightarrow> tm \<Rightarrow> int \<Rightarrow> string \<Rightarrow> u32 \<Rightarrow> bool \<Rightarrow> nat \<Rightarrow> (LoggingEvent \<Rightarrow> string res) \<Rightarrow> fsys \<Rightarrow>
   DailyRollingFileAppender \<times> fsys" where
  "DailyRollingFileAppender_new localtime junk now nm days app m lay fs =
     (let (a, fs1) = FileAppender_new now nm app m lay fs;
          t = (case dir fs1 (c_str nm) of None \<Rightarrow> now | Some i \<Rightarrow> mtime (inodes fs1 i))
      in (FileAppender.extend a \<lparr>maxDaysToKeep = (if days \<noteq> 0 then days else maxDaysToKeepDefault), logsTime = (case localtime t of None \<Rightarrow> junk | Some x \<Rightarrow> x)\<rparr>,
          fs1))"

definition setMaxDaysToKeep :: "u32 \<Rightarrow> DailyRollingFileAppender \<Rightarrow> DailyRollingFileAppender" where
  "setMaxDaysToKeep n a = a\<lparr>maxDaysToKeep := n\<rparr>"

definition pad2 :: "int \<Rightarrow> string" where
  "pad2 v = replicate (2 - length (show_int v)) CHR ''0'' @ show_int v"

definition dated_name :: "DailyRollingFileAppender \<Rightarrow> string" where
  "dated_name a =
     c_str (fileName a @ ''.'' @ show_int (tm_year (logsTime a) + 1900) @ ''-'' @ pad2 (tm_mon (logsTime a) + 1) @ ''-'' @
       pad2 (tm_mday (logsTime a)) @ [CHR 0x00])"

text \<open>The product is one of \<open>unsigned int\<close>.\<close>

definition oldest_time :: "int \<Rightarrow> DailyRollingFileAppender \<Rightarrow> int" where
  "oldest_time now a = now - int (unat (maxDaysToKeep a * 60 * 60 * 24))"

definition dir_part :: "string \<Rightarrow> string" where
  "dir_part nm = (case find_last CHR ''/'' nm of None \<Rightarrow> ''.'' | Some k \<Rightarrow> take k nm)"

definition file_part :: "string \<Rightarrow> string" where
  "file_part nm = (case find_last CHR ''/'' nm of None \<Rightarrow> nm | Some k \<Rightarrow> drop (k + 1) nm)"

text \<open>The loop over the entries of the directory.\<close>

fun delete_old :: "int \<Rightarrow> string \<Rightarrow> string \<Rightarrow> string list \<Rightarrow> fsys \<Rightarrow> fsys" where
  "delete_old oldest dirname filname [] fs = fs"
| "delete_old oldest dirname filname (e # es) fs =
     (let full = dirname @ ''/'' @ e in
      delete_old oldest dirname filname es
        (case dir fs (c_str full) of
           None \<Rightarrow> fs
         | Some i \<Rightarrow>
             if regular (inodes fs i) \<and> mtime (inodes fs i) < oldest \<and> find_str (c_str filname) e \<noteq> None
             then sys_remove (c_str full) fs else fs))"

text \<open>\<open>scandir\<close> is what the C library returns for the directory, or \<open>None\<close> on failure.\<close>

definition daily_rollOver ::
  "(string \<Rightarrow> fsys \<Rightarrow> string list option) \<Rightarrow> int \<Rightarrow> DailyRollingFileAppender \<Rightarrow> fsys \<Rightarrow> DailyRollingFileAppender \<times> fsys" where
  "daily_rollOver scandir now a fs =
     (let fs1 = snd (sys_close (fd a) fs);
          fs2 = snd (sys_rename (c_str (fileName a)) (dated_name a) fs1);
          (d, fs3) = sys_open now (c_str (fileName a)) (trunc a) fs2;
          dirname = dir_part (fileName a)
      in (a\<lparr>fd := d\<rparr>,
          case scandir (c_str dirname) fs3 of
            None \<Rightarrow> fs3
          | Some es \<Rightarrow> delete_old (oldest_time now a) dirname (file_part (fileName a)) es fs3))"

definition daily_append ::
  "(int \<Rightarrow> tm option) \<Rightarrow> (string \<Rightarrow> fsys \<Rightarrow> string list option) \<Rightarrow> int \<Rightarrow> LoggingEvent \<Rightarrow> DailyRollingFileAppender \<Rightarrow> fsys \<Rightarrow>
   (DailyRollingFileAppender \<times> fsys) res" where
  "daily_append localtime scandir now event a fs =
     (let (a1, fs1) =
            (case localtime now of
               None \<Rightarrow> (a, fs)
             | Some x \<Rightarrow>
                 if x \<noteq> logsTime a then (let (b, fs') = daily_rollOver scandir now a fs in (b\<lparr>logsTime := x\<rparr>, fs'))
                 else (a, fs))
      in bindR (file_append now event a1 fs1) (\<lambda>fs2. Inr (a1, fs2)))"

subsection \<open>Rolling over by size\<close>

lemma c_str_zero: "CHR 0x00 \<notin> set s \<Longrightarrow> c_str (s @ CHR 0x00 # r) = s"
  by (induction s) (auto simp: c_str_def)

lemma digits_no_zero: "CHR 0x00 \<notin> set (digits_of n)"
  using digits_of_digit [of "CHR 0x00" n] by (auto simp: is_digit_def)

lemma read_digits_zeros: "read_digits (replicate k CHR ''0'' @ s) 0 = read_digits s 0"
  by (induction k) (simp_all add: is_digit_def digit_val_def)

lemma backup_name_eq:
  assumes "CHR 0x00 \<notin> set (fileName a)"
  shows "backup_name a i = fileName a @ ''.'' @ replicate (maxBackupIndexWidth a - length (digits_of i)) CHR ''0'' @ digits_of i"
  unfolding backup_name_def
  using c_str_zero [of "fileName a @ ''.'' @ replicate (maxBackupIndexWidth a - length (digits_of i)) CHR ''0'' @ digits_of i" "[]"]
    assms digits_no_zero [of i] by (simp add: in_set_replicate)

lemma backup_name_inj:
  assumes "CHR 0x00 \<notin> set (fileName a)" and "backup_name a i = backup_name a j"
  shows "i = j"
proof -
  let ?z = "\<lambda>k. replicate (maxBackupIndexWidth a - length (digits_of k)) CHR ''0'' @ digits_of k"
  have "?z i = ?z j" using assms(2) by (simp add: backup_name_eq [OF assms(1)])
  then have "read_digits (?z i) 0 = read_digits (?z j) 0" by simp
  then show ?thesis by (simp add: read_digits_zeros)
qed

lemma backup_name_not_file: "CHR 0x00 \<notin> set (fileName a) \<Longrightarrow> backup_name a i \<noteq> fileName a"
  by (simp add: backup_name_eq)

lemma rename_dir:
  "dir fs new = None \<Longrightarrow> old \<noteq> new \<Longrightarrow>
   snd (sys_rename old new fs) = fs\<lparr>dir := (dir fs)(old := None, new := dir fs old)\<rparr>"
  by (cases "dir fs old") (auto simp: sys_rename_def fun_eq_iff)

lemma shift_backups_dir:
  assumes nul: "CHR 0x00 \<notin> set (fileName a)"
  shows "0 < n \<Longrightarrow> dir fs (backup_name a n) = None \<Longrightarrow> shift_backups a n (backup_name a n) fs = (l, fs') \<Longrightarrow>
    l = backup_name a 1 \<and> dir fs' (backup_name a 1) = None \<and>
    (\<forall>i. 2 \<le> i \<and> i \<le> n \<longrightarrow> dir fs' (backup_name a i) = dir fs (backup_name a (i - 1))) \<and>
    (\<forall>x. x \<notin> backup_name a ` {1..n} \<longrightarrow> dir fs' x = dir fs x) \<and> fs' = fs\<lparr>dir := dir fs'\<rparr>"
proof (induction n arbitrary: fs)
  case (Suc m)
  let ?b = "backup_name a"
  show ?case
  proof (cases m)
    case 0
    then show ?thesis using Suc.prems by auto
  next
    case (Suc k)
    have ne: "?b m \<noteq> ?b (Suc m)" using backup_name_inj [OF nul, of m "Suc m"] by auto
    let ?fs1 = "fs\<lparr>dir := (dir fs)(?b m := None, ?b (Suc m) := dir fs (?b m))\<rparr>"
    have r: "snd (sys_rename (?b m) (?b (Suc m)) fs) = ?fs1" by (rule rename_dir [OF Suc.prems(2) ne])
    have "shift_backups a m (?b m) ?fs1 = (l, fs')"
      using Suc.prems(3) r Suc by simp
    note IH = Suc.IH [OF _ _ this]
    have d: "dir ?fs1 (?b m) = None" using ne by simp
    have IH: "l = ?b 1" "dir fs' (?b 1) = None"
      "\<And>i. 2 \<le> i \<Longrightarrow> i \<le> m \<Longrightarrow> dir fs' (?b i) = dir ?fs1 (?b (i - 1))"
      "\<And>x. x \<notin> ?b ` {1..m} \<Longrightarrow> dir fs' x = dir ?fs1 x" "fs' = ?fs1\<lparr>dir := dir fs'\<rparr>"
      using IH Suc d by auto
    have out: "?b (Suc m) \<notin> ?b ` {1..m}" using backup_name_inj [OF nul] by force
    have "dir fs' (?b i) = dir fs (?b (i - 1))" if "2 \<le> i" "i \<le> Suc m" for i
    proof (cases "i = Suc m")
      case True
      then show ?thesis using IH(4) [OF out] by simp
    next
      case False
      have "?b (i - 1) \<noteq> ?b m" "?b (i - 1) \<noteq> ?b (Suc m)"
        using that False backup_name_inj [OF nul, of "i - 1"] by fastforce+
      then show ?thesis using IH(3) [of i] that False by simp
    qed
    moreover have "dir fs' x = dir fs x" if "x \<notin> ?b ` {1..Suc m}" for x
    proof -
      have "x \<notin> ?b ` {1..m}" "x \<noteq> ?b m" "x \<noteq> ?b (Suc m)" using that Suc by auto
      then show ?thesis using IH(4) [of x] by simp
    qed
    moreover have "fs' = fs\<lparr>dir := dir fs'\<rparr>" using IH(5) by simp
    ultimately show ?thesis using IH(1,2) by blast
  qed
qed simp

definition file_text :: "fsys \<Rightarrow> string \<Rightarrow> string option" where
  "file_text fs nm = map_option (\<lambda>i. content (inodes fs i)) (dir fs nm)"

definition fs_ok :: "fsys \<Rightarrow> bool" where
  "fs_ok fs \<longleftrightarrow> (\<forall>nm i. dir fs nm = Some i \<longrightarrow> i < next_ino fs)"

lemma sys_close_frame [simp]:
  "dir (snd (sys_close d fs)) = dir fs" "inodes (snd (sys_close d fs)) = inodes fs"
  "may_open (snd (sys_close d fs)) = may_open fs" "next_ino (snd (sys_close d fs)) = next_ino fs"
  by (simp_all add: sys_close_def)

lemma sys_open_new:
  assumes "may_open fs nm" and "dir fs nm = None"
  shows "sys_open t nm tr fs = (int (next_fd fs),
    fs\<lparr>dir := (dir fs)(nm \<mapsto> next_ino fs), next_ino := next_ino fs + 1,
       inodes := (inodes fs)(next_ino fs := \<lparr>content = [], mtime = t, regular = True\<rparr>),
       fds := (fds fs)(int (next_fd fs) \<mapsto> next_ino fs), next_fd := next_fd fs + 1\<rparr>)"
  using assms by (simp add: sys_open_def Let_def)

lemma rollOver_eq:
  assumes nul: "CHR 0x00 \<notin> set (fileName a)" and n: "0 < maxBackupIndex a" and op: "may_open fs (fileName a)"
    and r: "rollOver t a fs = (a', fs')"
  shows "\<exists>d. dir d (backup_name a 1) = dir fs (fileName a) \<and> dir d (fileName a) = None \<and>
    (\<forall>i. 2 \<le> i \<and> i \<le> unat (maxBackupIndex a) \<longrightarrow> dir d (backup_name a i) = dir fs (backup_name a (i - 1))) \<and>
    (\<forall>x. x \<noteq> fileName a \<longrightarrow> x \<notin> backup_name a ` {1..unat (maxBackupIndex a)} \<longrightarrow> dir d x = dir fs x) \<and>
    inodes d = inodes fs \<and> next_ino d = next_ino fs \<and> may_open d (fileName a) \<and>
    sys_open t (fileName a) (trunc a) d = (fd a', fs') \<and> a' = a\<lparr>fd := fd a'\<rparr>"
proof -
  let ?b = "backup_name a" and ?n = "unat (maxBackupIndex a)" and ?f = "fileName a"
  have n': "0 < ?n" using n by (simp add: unat_gt_0 word_neq_0_conv [symmetric])
  have cf: "c_str ?f = ?f" by (rule c_str_id [OF nul])
  let ?fs1 = "sys_remove (?b ?n) (snd (sys_close (fd a) fs))"
  obtain l fs2 where sh: "shift_backups a ?n (?b ?n) ?fs1 = (l, fs2)" by force
  have "dir ?fs1 (?b ?n) = None" by (simp add: sys_remove_def)
  note S = shift_backups_dir [OF nul n' this sh]
  have d1: "x \<noteq> ?b ?n \<Longrightarrow> dir ?fs1 x = dir fs x" for x by (simp add: sys_remove_def)
  have bf: "?b i \<noteq> ?f" for i using backup_name_not_file [OF nul] .
  have l: "l = ?b 1" using S by blast
  let ?d = "fs2\<lparr>dir := (dir fs2)(?f := None, ?b 1 := dir fs2 ?f)\<rparr>"
  have ren: "snd (sys_rename ?f l fs2) = ?d"
    unfolding l by (rule rename_dir) (use S bf [of 1] in auto)
  have f2: "dir fs2 ?f = dir fs ?f" using S bf d1 by (metis imageE)
  have r': "sys_open t ?f (trunc a) ?d = (fd a', fs') \<and> a' = a\<lparr>fd := fd a'\<rparr>"
    using r n sh ren by (auto simp: rollOver_def Let_def cf split_beta)
  have 1: "dir ?d (?b 1) = dir fs ?f" using f2 by simp
  have 2: "dir ?d ?f = None" using bf [of 1] by simp
  have 3: "dir ?d (?b i) = dir fs (?b (i - 1))" if i: "2 \<le> i" "i \<le> ?n" for i
  proof -
    have "?b i \<noteq> ?b 1" using backup_name_inj [OF nul, of i 1] i by auto
    moreover have "?b (i - 1) \<noteq> ?b ?n" using backup_name_inj [OF nul, of "i - 1" ?n] i by auto
    ultimately show ?thesis using S i bf d1 by simp
  qed
  have 4: "dir ?d x = dir fs x" if x: "x \<noteq> ?f" "x \<notin> ?b ` {1..?n}" for x
  proof -
    have "x \<noteq> ?b 1" "x \<noteq> ?b ?n" using x n' by auto
    then show ?thesis using S x d1 by simp
  qed
  have "fs2 = ?fs1\<lparr>dir := dir fs2\<rparr>" using S by blast
  then have 5: "inodes ?d = inodes fs \<and> next_ino ?d = next_ino fs \<and> may_open ?d ?f"
    using op by (metis (no_types, lifting) fsys.select_convs fsys.surjective fsys.update_convs sys_close_frame sys_remove_def)
  show ?thesis using 1 2 3 4 5 r' by (intro exI [of _ ?d]) blast
qed

lemma rollover_texts:
  assumes "fs_ok fs" and "CHR 0x00 \<notin> set (fileName a)" and "0 < maxBackupIndex a" and "may_open fs (fileName a)"
    and "rollOver t a fs = (a', fs')"
  shows "file_text fs' (fileName a) = Some [] \<and> sys_size (fd a') fs' = 0 \<and>
    file_text fs' (backup_name a 1) = file_text fs (fileName a) \<and>
    (\<forall>i. 2 \<le> i \<and> i \<le> unat (maxBackupIndex a) \<longrightarrow> file_text fs' (backup_name a i) = file_text fs (backup_name a (i - 1))) \<and>
    (\<forall>x. x \<noteq> fileName a \<longrightarrow> x \<notin> backup_name a ` {1..unat (maxBackupIndex a)} \<longrightarrow> file_text fs' x = file_text fs x)"
proof -
  obtain d where d: "dir d (backup_name a 1) = dir fs (fileName a)" "dir d (fileName a) = None"
    "\<forall>i. 2 \<le> i \<and> i \<le> unat (maxBackupIndex a) \<longrightarrow> dir d (backup_name a i) = dir fs (backup_name a (i - 1))"
    "\<forall>x. x \<noteq> fileName a \<longrightarrow> x \<notin> backup_name a ` {1..unat (maxBackupIndex a)} \<longrightarrow> dir d x = dir fs x"
    "inodes d = inodes fs" "next_ino d = next_ino fs" "may_open d (fileName a)"
    "sys_open t (fileName a) (trunc a) d = (fd a', fs')"
    using rollOver_eq [OF assms(2-5)] by blast
  have o: "fd a' = int (next_fd d)" "dir fs' = (dir d)(fileName a \<mapsto> next_ino fs)"
    "inodes fs' = (inodes fs)(next_ino fs := \<lparr>content = [], mtime = t, regular = True\<rparr>)"
    "fds fs' = (fds d)(int (next_fd d) \<mapsto> next_ino fs)"
    using d(8) sys_open_new [OF d(7,2), of t "trunc a"] by (auto simp: d(5,6))
  have keep: "file_text fs' x = file_text fs y" if "x \<noteq> fileName a" "dir d x = dir fs y" for x y
  proof (cases "dir fs y")
    case (Some i)
    then have "i < next_ino fs" using assms(1) by (simp add: fs_ok_def)
    then show ?thesis using that Some by (simp add: file_text_def o)
  qed (use that in \<open>simp add: file_text_def o\<close>)
  show ?thesis
    using d keep backup_name_not_file [OF assms(2)] by (auto simp: o file_text_def [of fs' "fileName a"] sys_size_def)
qed

text \<open>
  C32. Rolling over, with at least one backup, renames without losing anything but the oldest file:
  the log becomes backup 1, every backup takes the next number, the last one is gone, and the log is
  a new empty file. All other files keep their names and contents.
\<close>

theorem rollover_shifts:
  assumes "fs_ok fs" and "CHR 0x00 \<notin> set (fileName a)" and "0 < maxBackupIndex a" and "may_open fs (fileName a)"
    and "rollOver t a fs = (a', fs')"
  shows "file_text fs' (fileName a) = Some [] \<and> sys_size (fd a') fs' = 0 \<and>
    file_text fs' (backup_name a 1) = file_text fs (fileName a) \<and>
    (\<forall>i. 2 \<le> i \<and> i \<le> unat (maxBackupIndex a) \<longrightarrow> file_text fs' (backup_name a i) = file_text fs (backup_name a (i - 1))) \<and>
    (\<forall>x. x \<noteq> fileName a \<longrightarrow> x \<notin> backup_name a ` {1..unat (maxBackupIndex a)} \<longrightarrow> file_text fs' x = file_text fs x)"
  by (rule rollover_texts [OF assms])

definition sample_fs :: fsys where
  "sample_fs = \<lparr>dir = [''l'' \<mapsto> 0, ''l.1'' \<mapsto> 1], inodes = (\<lambda>i. \<lparr>content = (if i = 0 then ''new'' else ''old''), mtime = 0, regular = True\<rparr>),
     fds = [0 \<mapsto> 0], may_open = (\<lambda>_. True), next_ino = 2, next_fd = 1\<rparr>"

definition sample_rolling :: RollingFileAppender where
  "sample_rolling = \<lparr>fileName = ''l'', fd = 0, trunc = False, mode = 420, layout = PassThroughLayout_format, maxBackupIndex = 1,
     maxBackupIndexWidth = 1, maxFileSize = 4\<rparr>"

lemma sample_fs_ok: "fs_ok sample_fs"
  by (auto simp: fs_ok_def sample_fs_def split: if_splits)

theorem rollover_shifts_witness:
  "file_text (snd (rollOver 5 sample_rolling sample_fs)) ''l'' = Some [] \<and>
   file_text (snd (rollOver 5 sample_rolling sample_fs)) ''l.1'' = Some ''new''"
proof -
  obtain a' fs' where r: "rollOver 5 sample_rolling sample_fs = (a', fs')" by force
  have b: "backup_name sample_rolling 1 = ''l.1''"
    unfolding backup_name_def sample_rolling_def by code_simp
  have h: "CHR 0x00 \<notin> set (fileName sample_rolling)" "0 < maxBackupIndex sample_rolling"
    "may_open sample_fs (fileName sample_rolling)" by (simp_all add: sample_rolling_def sample_fs_def)
  have "file_text fs' (fileName sample_rolling) = Some [] \<and>
      file_text fs' (backup_name sample_rolling 1) = file_text sample_fs (fileName sample_rolling)"
    using rollover_shifts [OF sample_fs_ok h r] by blast
  then show ?thesis unfolding r b by (simp add: sample_rolling_def sample_fs_def file_text_def)
qed

text \<open>Without backups the log is only reopened, so that it goes on growing.\<close>

lemma rollover_without_backups:
  assumes "maxBackupIndex a = 0" and "\<not> trunc a" and "dir fs (c_str (fileName a)) = Some i"
  shows "file_text (snd (rollOver t a fs)) (c_str (fileName a)) = file_text fs (c_str (fileName a))"
  using assms by (simp add: rollOver_def Let_def sys_open_def file_text_def)

lemma uint_of_size: "n < 2 ^ 63 \<Longrightarrow> uint (word_of_int (int n) :: u64) = int n"
  by (simp add: unsigned_of_nat take_bit_nat_eq_self)



subsection \<open>Rolling over by day\<close>

text \<open>
  The age limit of the daily appender is what its setting says exactly up to 49710 days; beyond,
  the 32-bit product wraps, and recent files count as too old.
\<close>

theorem daily_limit_wraps:
  "oldest_time now a = now - 86400 * int (unat (maxDaysToKeep a)) \<longleftrightarrow> maxDaysToKeep a \<le> 49710"
proof -
  let ?d = "unat (maxDaysToKeep a)"
  have m: "maxDaysToKeep a * 60 * 60 * 24 = word_of_nat (?d * 86400)" by simp
  have u: "unat (maxDaysToKeep a * 60 * 60 * 24) = (?d * 86400) mod 2 ^ 32"
    unfolding m by (simp only: unat_of_nat take_bit_eq_mod) simp
  have le: "maxDaysToKeep a \<le> 49710 \<longleftrightarrow> ?d \<le> 49710" by (simp add: word_le_nat_alt)
  have "(?d * 86400) mod 2 ^ 32 = ?d * 86400 \<longleftrightarrow> ?d \<le> 49710"
  proof
    assume "(?d * 86400) mod 2 ^ 32 = ?d * 86400"
    then have "?d * 86400 < 2 ^ 32" using mod_less_divisor [of "2 ^ 32" "?d * 86400"] by simp
    then show "?d \<le> 49710" by simp
  next
    assume "?d \<le> 49710"
    then have "?d * 86400 < 2 ^ 32" by simp
    then show "(?d * 86400) mod 2 ^ 32 = ?d * 86400" by (rule mod_less)
  qed
  moreover have "now - int x = now - 86400 * int d \<longleftrightarrow> x = d * 86400" for x d :: nat
    by linarith
  ultimately show ?thesis unfolding oldest_time_def u le by blast
qed

text \<open>What an entry of the directory must be to be deleted.\<close>

definition outdated :: "int \<Rightarrow> string \<Rightarrow> string \<Rightarrow> fsys \<Rightarrow> string \<Rightarrow> bool" where
  "outdated oldest dirname filname fs e \<longleftrightarrow>
     (case dir fs (c_str (dirname @ ''/'' @ e)) of
        None \<Rightarrow> False
      | Some i \<Rightarrow> regular (inodes fs i) \<and> mtime (inodes fs i) < oldest \<and> find_str (c_str filname) e \<noteq> None)"

lemma delete_old_dir:
  "dir (delete_old oldest dirname filname es fs) x =
     (if \<exists>e \<in> set es. x = c_str (dirname @ ''/'' @ e) \<and> outdated oldest dirname filname fs e then None else dir fs x) \<and>
   inodes (delete_old oldest dirname filname es fs) = inodes fs"
proof (induction es arbitrary: fs)
  case (Cons e es)
  let ?full = "\<lambda>e. c_str (dirname @ ''/'' @ e)"
  show ?case
  proof (cases "outdated oldest dirname filname fs e")
    case True
    let ?fs1 = "sys_remove (?full e) fs"
    have r: "delete_old oldest dirname filname (e # es) fs = delete_old oldest dirname filname es ?fs1"
      using True by (auto simp: outdated_def Let_def split: option.splits)
    have "outdated oldest dirname filname ?fs1 e' \<longleftrightarrow> ?full e' \<noteq> ?full e \<and> outdated oldest dirname filname fs e'" for e'
      by (auto simp: outdated_def sys_remove_def split: option.split)
    then show ?thesis unfolding r using Cons.IH [of ?fs1] True by (auto simp: sys_remove_def)
  next
    case False
    then have "delete_old oldest dirname filname (e # es) fs = delete_old oldest dirname filname es fs"
      by (auto simp: outdated_def Let_def split: option.splits)
    then show ?thesis using Cons.IH [of fs] False by auto
  qed
qed simp

lemma sys_open_dir: "x \<noteq> nm \<Longrightarrow> dir (snd (sys_open t nm tr fs)) x = dir fs x"
  by (simp add: sys_open_def Let_def split: option.split)

text \<open>The file system when the directory is read: the log is moved and opened again.\<close>

definition day_moved :: "int \<Rightarrow> DailyRollingFileAppender \<Rightarrow> fsys \<Rightarrow> fsys" where
  "day_moved now a fs =
     snd (sys_open now (c_str (fileName a)) (trunc a)
       (snd (sys_rename (c_str (fileName a)) (dated_name a) (snd (sys_close (fd a) fs)))))"

text \<open>
  Rolling over by day deletes, besides moving the log to its dated name, exactly the entries of
  the log's directory that are regular, old enough and contain the log's name anywhere in theirs, so
  that files of other programs go with them.
\<close>

theorem daily_deletes:
  assumes "daily_rollOver scandir now a fs = (a', fs')" and "x \<noteq> c_str (fileName a)" and "x \<noteq> dated_name a"
    and "scandir (c_str (dir_part (fileName a))) (day_moved now a fs) = Some es"
  shows "dir fs' x =
    (if \<exists>e \<in> set es. x = c_str (dir_part (fileName a) @ ''/'' @ e) \<and>
        outdated (oldest_time now a) (dir_part (fileName a)) (file_part (fileName a)) (day_moved now a fs) e
     then None else dir fs x)"
proof -
  let ?f = "c_str (fileName a)"
  let ?fs2 = "snd (sys_rename ?f (dated_name a) (snd (sys_close (fd a) fs)))"
  obtain d where o: "sys_open now ?f (trunc a) ?fs2 = (d, day_moved now a fs)"
    by (simp add: day_moved_def) (metis prod.collapse)
  have "dir ?fs2 x = dir fs x" using assms(2,3) by (auto simp: sys_rename_def split: option.split)
  then have d3: "dir (day_moved now a fs) x = dir fs x"
    using sys_open_dir [OF assms(2)] by (simp add: day_moved_def)
  have "fs' = delete_old (oldest_time now a) (dir_part (fileName a)) (file_part (fileName a)) es (day_moved now a fs)"
    using assms(1,4) o by (simp add: daily_rollOver_def Let_def)
  then show ?thesis by (simp only: delete_old_dir d3)
qed

definition sample_daily :: DailyRollingFileAppender where
  "sample_daily = \<lparr>fileName = ''app.log'', fd = - 1, trunc = False, mode = 420, layout = PassThroughLayout_format,
     maxDaysToKeep = 1, logsTime = \<lparr>tm_year = 100, tm_mon = 0, tm_mday = 1\<rparr>\<rparr>"

definition day_fs :: fsys where
  "day_fs = \<lparr>dir = [''./webapp.log'' \<mapsto> 0], inodes = (\<lambda>_. \<lparr>content = [], mtime = 0, regular = True\<rparr>), fds = (\<lambda>_. None),
     may_open = (\<lambda>_. False), next_ino = 1, next_fd = 0\<rparr>"

theorem daily_deletes_witness:
  "dir (snd (daily_rollOver (\<lambda>_ _. Some [''webapp.log'']) 100000 sample_daily day_fs)) ''./webapp.log'' = None"
proof -
  obtain a' fs' where r: "daily_rollOver (\<lambda>_ _. Some [''webapp.log'']) 100000 sample_daily day_fs = (a', fs')" by force
  have n: "c_str (fileName sample_daily) = ''app.log''" "dir_part (fileName sample_daily) = ''.''"
    "file_part (fileName sample_daily) = ''app.log''"
    by (simp_all add: sample_daily_def c_str_def dir_part_def file_part_def find_last_def)
  have d: "dated_name sample_daily \<noteq> ''./webapp.log''" by (simp add: dated_name_def sample_daily_def c_str_def)
  have m: "day_moved 100000 sample_daily day_fs = day_fs"
    unfolding day_moved_def n by (simp add: sys_rename_def sys_close_def sys_open_def day_fs_def sample_daily_def)
  have "outdated (oldest_time 100000 sample_daily) ''.'' ''app.log'' day_fs ''webapp.log''"
    by (simp add: outdated_def day_fs_def oldest_time_def sample_daily_def c_str_def)
  then have "dir fs' ''./webapp.log'' = None"
    using daily_deletes [OF r, of "''./webapp.log''" "[''webapp.log'']"] d unfolding n m by (simp add: c_str_def)
  then show ?thesis by (simp add: r)
qed

end
