(* ===== verification/LogSinks.thy ===== *)
theory LogSinks
  imports LogEvents
begin

text \<open>
  \<^verbatim>\<open>src/git/log4cpp/src/\<close>: the appenders that do not write to files: \<^verbatim>\<open>StringQueueAppender.cpp\<close>,
  \<^verbatim>\<open>BufferingAppender.cpp\<close> with \<^verbatim>\<open>LevelEvaluator.hh\<close>, \<^verbatim>\<open>OstreamAppender.cpp\<close>,
  \<^verbatim>\<open>SyslogAppender.cpp\<close> and \<^verbatim>\<open>RemoteSyslogAppender.cpp\<close>.
\<close>

type_synonym formatter = "LoggingEvent \<Rightarrow> string res"

subsection \<open>Queues and streams\<close>

definition queue_append :: "formatter \<Rightarrow> LoggingEvent \<Rightarrow> string list \<Rightarrow> string list res" where
  "queue_append lay event q = bindR (lay event) (\<lambda>s. Inr (q @ [s]))"

definition queueSize :: "string list \<Rightarrow> nat" where
  "queueSize q = length q"

definition popMessage :: "string list \<Rightarrow> string \<times> string list" where
  "popMessage q = (case q of [] \<Rightarrow> ([], []) | m # r \<Rightarrow> (m, r))"

text \<open>A stream as the text written to it, and whether it is good; a stream that is not takes nothing.\<close>

definition ostream_append :: "formatter \<Rightarrow> LoggingEvent \<Rightarrow> bool \<times> string \<Rightarrow> (bool \<times> string) res" where
  "ostream_append lay event st = bindR (lay event) (\<lambda>s. Inr (fst st, if fst st then snd st @ s else snd st))"

subsection \<open>BufferingAppender\<close>

text \<open>\<open>queue\<close> has its front first, so the newest event; \<open>sunk\<close> are the events given to the sink.\<close>

record buffering =
  queue :: "LoggingEvent list"
  max_size :: u64
  lossy :: bool
  sunk :: "LoggingEvent list"

definition BufferingAppender_new :: "u64 \<Rightarrow> buffering" where
  "BufferingAppender_new n = \<lparr>queue = [], max_size = max 1 n, lossy = False, sunk = []\<rparr>"

definition level_eval :: "int \<Rightarrow> LoggingEvent \<Rightarrow> bool" where
  "level_eval lev event \<longleftrightarrow> priority event \<le> lev"

fun format_all :: "formatter \<Rightarrow> LoggingEvent list \<Rightarrow> string res" where
  "format_all lay [] = Inr []"
| "format_all lay (e # es) = bindR (lay e) (\<lambda>s. bindR (format_all lay es) (\<lambda>r. Inr (s @ r)))"

text \<open>\<open>now\<close> is what the event made for the sink takes from the thread and the clock.\<close>

definition dump :: "formatter \<Rightarrow> (string \<Rightarrow> int \<Rightarrow> LoggingEvent) \<Rightarrow> buffering \<Rightarrow> buffering res" where
  "dump lay now b =
     bindR (format_all lay (rev (queue b))) (\<lambda>s. Inr (b\<lparr>sunk := sunk b @ [now s (level NOTSET)]\<rparr>))"

definition buffering_append ::
  "formatter \<Rightarrow> (string \<Rightarrow> int \<Rightarrow> LoggingEvent) \<Rightarrow> (LoggingEvent \<Rightarrow> bool) \<Rightarrow> LoggingEvent \<Rightarrow> buffering \<Rightarrow> buffering res" where
  "buffering_append lay now eval event b =
     bindR (if word_of_nat (length (queue b)) = max_size b
            then (if lossy b then Inr (b\<lparr>queue := butlast (queue b)\<rparr>) else dump lay now b)
            else Inr b) (\<lambda>b1.
       let b2 = b1\<lparr>queue := event # queue b1\<rparr> in
       if eval event then bindR (dump lay now b2) (\<lambda>b3. Inr (b3\<lparr>queue := []\<rparr>)) else Inr b2)"

subsection \<open>Syslog\<close>

definition LOG_USER :: int where "LOG_USER = 8"

definition toSyslogPriority :: "int \<Rightarrow> int res" where
  "toSyslogPriority prio =
     (if prio = 2 ^ 31 - 1 then Inl SignedOverflow
      else
        (let p = c_div (prio + 1) 100
         in Inr (if p < 0 then 0 else if p > 7 then 7 else p)))"

record SyslogAppender =
  syslogName :: string
  facility :: int

text \<open>The call of \<open>syslog\<close>: the priority and the text.\<close>

definition syslog_append :: "formatter \<Rightarrow> LoggingEvent \<Rightarrow> SyslogAppender \<Rightarrow> (int \<times> string) res" where
  "syslog_append lay event a =
     bindR (lay event) (\<lambda>s. bindR (toSyslogPriority (priority event)) (\<lambda>p. Inr (p OR facility a, c_str s)))"

text \<open>\<open>ipAddr\<close> is 0 and \<open>socket\<close> 0 as long as there is none.\<close>

record RemoteSyslogAppender = SyslogAppender +
  relayer :: string
  portNumber :: int
  socket :: int
  ipAddr :: u32

text \<open>
  What \<open>open\<close> takes from the network: the address of a name, which the fallback finds for an address,
  and the next socket, -1 on failure.
\<close>

record netdb =
  resolve :: "string \<Rightarrow> u32 option"
  resolve_addr :: "string \<Rightarrow> u32 option"
  new_socket :: int

definition remote_open :: "netdb \<Rightarrow> RemoteSyslogAppender \<Rightarrow> RemoteSyslogAppender" where
  "remote_open N a =
     (if ipAddr a = 0 then
        (case (case resolve N (c_str (relayer a)) of None \<Rightarrow> resolve_addr N (c_str (relayer a)) | Some i \<Rightarrow> Some i) of
           None \<Rightarrow> a
         | Some i \<Rightarrow> a\<lparr>ipAddr := i, socket := new_socket N\<rparr>)
      else a\<lparr>socket := new_socket N\<rparr>)"

definition RemoteSyslogAppender_new :: "netdb \<Rightarrow> string \<Rightarrow> string \<Rightarrow> int \<Rightarrow> int \<Rightarrow> RemoteSyslogAppender" where
  "RemoteSyslogAppender_new N nm rel fac port =
     remote_open N \<lparr>syslogName = nm, facility = (if fac = - 1 then LOG_USER else fac), relayer = rel,
       portNumber = (if port = - 1 then 514 else port), socket = 0, ipAddr = 0\<rparr>"

definition remote_close :: "RemoteSyslogAppender \<Rightarrow> RemoteSyslogAppender" where
  "remote_close a = (if socket a \<noteq> 0 then a\<lparr>socket := 0\<rparr> else a)"

definition remote_reopen :: "netdb \<Rightarrow> RemoteSyslogAppender \<Rightarrow> RemoteSyslogAppender" where
  "remote_reopen N a = remote_open N (remote_close a)"

text \<open>
  The loop on the buffer \<open>pre @ rest\<close>: the packets sent. It does not end when the preamble alone fills
  a packet.
\<close>

partial_function (option) send_packets :: "string \<Rightarrow> string \<Rightarrow> string list option" where
  "send_packets pre rest =
     (if rest = [] then Some []
      else if length pre + length rest > 900 then
        Option.bind (send_packets pre (drop (900 - length pre) rest)) (\<lambda>ps. Some (take 900 (pre @ rest) # ps))
      else Some [pre @ rest])"

text \<open>The buffer has 16 characters more than the message; \<open>sprintf\<close> also writes a zero.\<close>

definition remote_append :: "formatter \<Rightarrow> LoggingEvent \<Rightarrow> RemoteSyslogAppender \<Rightarrow> string list option res" where
  "remote_append lay event a =
     bindR (lay event) (\<lambda>msg.
     bindR (toSyslogPriority (priority event)) (\<lambda>sev.
       let p = facility a + sev; pre = ''<'' @ show_int p @ ''>'' in
       if \<not> is_int p then Inl SignedOverflow
       else if length pre + 1 > length msg + 16 then Inl OutOfBounds
       else Inr (send_packets pre msg)))"

subsection \<open>Properties\<close>

lemma send_packets_step:
  assumes "length pre < 900"
  shows "\<exists>ps. send_packets pre rest = Some ps \<and> concat (map (drop (length pre)) ps) = rest \<and>
    (\<forall>q \<in> set ps. take (length pre) q = pre \<and> length q \<le> 900)"
proof (induction "length rest" arbitrary: rest rule: less_induct)
  case less
  show ?case
  proof (cases "length pre + length rest > 900")
    case True
    let ?k = "900 - length pre"
    have k: "0 < ?k" "?k < length rest" using assms True by simp_all
    obtain ps where ps: "send_packets pre (drop ?k rest) = Some ps" "concat (map (drop (length pre)) ps) = drop ?k rest"
      "\<forall>q \<in> set ps. take (length pre) q = pre \<and> length q \<le> 900"
      using less.hyps [of "drop ?k rest"] k by fastforce
    have t: "take 900 (pre @ rest) = pre @ take ?k rest" using assms by simp
    have "rest \<noteq> []" using k by auto
    then have "send_packets pre rest = Some ((pre @ take ?k rest) # ps)"
      using True assms by (subst send_packets.simps) (simp add: ps(1))
    then show ?thesis using ps(2,3) k assms by (intro exI [of _ "(pre @ take ?k rest) # ps"]) simp
  next
    case False
    show ?thesis
    proof (cases "rest = []")
      case True
      then show ?thesis by (subst send_packets.simps) simp
    next
      case ne: False
      then show ?thesis using False by (subst send_packets.simps) simp
    qed
  qed
qed

lemma show_int_length:
  assumes "is_int v"
  shows "length (show_int v) \<le> 11"
proof -
  have "nat v < 10 ^ Suc 9" "nat (- v) < 10 ^ Suc 9" using assms by (simp_all add: is_int_def) arith+
  then show ?thesis
    using digits_of_length [of "nat v" 9] digits_of_length [of "nat (- v)" 9] by (simp add: show_int_def)
qed

lemma sev_bounds: "toSyslogPriority p = Inr sev \<Longrightarrow> 0 \<le> sev \<and> sev \<le> 7"
  by (auto simp: toSyslogPriority_def Let_def split: if_splits)

text \<open>
  C36. Sending a message to a remote syslog ends, for every facility that leaves room for the severity;
  each packet has at most 900 characters and begins with the same preamble, and the packets without
  their preambles are the message.
\<close>

theorem syslog_packets:
  assumes "lay e = Inr msg" and "is_int (priority e)" and "priority e \<noteq> 2 ^ 31 - 1"
    and "- (2 ^ 31) \<le> facility a" and "facility a < 2 ^ 31 - 7"
  shows "\<exists>ps pre sev. remote_append lay e a = Inr (Some ps) \<and> pre = ''<'' @ show_int (facility a + sev) @ ''>'' \<and>
    0 \<le> sev \<and> sev \<le> 7 \<and> concat (map (drop (length pre)) ps) = msg \<and>
    (\<forall>q \<in> set ps. take (length pre) q = pre \<and> length q \<le> 900)"
proof -
  obtain sev where sev: "toSyslogPriority (priority e) = Inr sev" "0 \<le> sev" "sev \<le> 7"
    using assms(3) sev_bounds by (auto simp: toSyslogPriority_def Let_def)
  let ?pre = "''<'' @ show_int (facility a + sev) @ ''>''"
  have p: "is_int (facility a + sev)" using sev assms(4,5) by (simp add: is_int_def)
  have l: "length ?pre \<le> 13" using show_int_length [OF p] by simp
  then have "\<exists>ps. send_packets ?pre msg = Some ps \<and> concat (map (drop (length ?pre)) ps) = msg \<and>
      (\<forall>q \<in> set ps. take (length ?pre) q = ?pre \<and> length q \<le> 900)"
    by (intro send_packets_step) simp
  then obtain ps where ps: "send_packets ?pre msg = Some ps" "concat (map (drop (length ?pre)) ps) = msg"
    "\<forall>q \<in> set ps. take (length ?pre) q = ?pre \<and> length q \<le> 900" by blast
  have "remote_append lay e a = Inr (Some ps)"
    using assms(1) sev(1) p l ps(1) by (simp add: remote_append_def Let_def)
  then show ?thesis using ps sev by blast
qed

theorem syslog_packets_witness:
  "\<exists>ps. remote_append PassThroughLayout_format (LoggingEvent_new [] 0 0 [] (replicate 2000 CHR ''x'') [] 300)
      \<lparr>syslogName = [], facility = 8, relayer = [], portNumber = 514, socket = 3, ipAddr = 1\<rparr> = Inr (Some ps) \<and>
     list_all (\<lambda>q. length q \<le> 900) ps"
proof -
  let ?e = "LoggingEvent_new [] 0 0 [] (replicate 2000 CHR ''x'') [] 300"
  let ?a = "\<lparr>syslogName = [], facility = 8, relayer = [], portNumber = 514, socket = 3, ipAddr = 1\<rparr>"
  have "PassThroughLayout_format ?e = Inr (replicate 2000 CHR ''x'')" "is_int (priority ?e)" "priority ?e \<noteq> 2 ^ 31 - 1"
    "- (2 ^ 31) \<le> facility ?a" "facility ?a < 2 ^ 31 - 7"
    by (simp_all add: PassThroughLayout_format_def LoggingEvent_new_def is_int_def)
  from syslog_packets [where lay = PassThroughLayout_format, OF this] show ?thesis unfolding list_all_iff by blast
qed

fun append_events ::
  "formatter \<Rightarrow> (string \<Rightarrow> int \<Rightarrow> LoggingEvent) \<Rightarrow> (LoggingEvent \<Rightarrow> bool) \<Rightarrow> LoggingEvent list \<Rightarrow> buffering \<Rightarrow> buffering res" where
  "append_events lay now eval [] b = Inr b"
| "append_events lay now eval (e # es) b = bindR (buffering_append lay now eval e b) (append_events lay now eval es)"

lemma format_all_defined: "(\<And>e. defined (lay e)) \<Longrightarrow> defined (format_all lay es)"
proof (induction es)
  case (Cons e es)
  then have d: "defined (lay e)" "defined (format_all lay es)" by blast+
  then show ?case by (auto simp: defined_iff)
qed simp

lemma full_word: "n < 2 ^ 64 \<Longrightarrow> (word_of_nat n = (w :: u64)) = (n = unat w)"
  by (auto simp: unat_of_nat)

lemma grow_step:
  assumes "\<And>e. defined (lay e)" and "\<not> eval e" and "\<not> lossy b" and "length (queue b) < 2 ^ 64"
  shows "\<exists>b'. buffering_append lay now eval e b = Inr b' \<and> queue b' = e # queue b \<and> max_size b' = max_size b \<and> \<not> lossy b' \<and>
    length (sunk b') = length (sunk b) + (if length (queue b) = unat (max_size b) then 1 else 0)"
proof -
  obtain s where s: "format_all lay (rev (queue b)) = Inr s"
    using format_all_defined [of lay, OF assms(1)] by (auto simp: defined_iff)
  show ?thesis
    using assms(2,3) full_word [OF assms(4)] by (simp add: buffering_append_def dump_def s Let_def)
qed

lemma grow_all:
  assumes "\<And>e. defined (lay e)"
  shows "\<forall>e \<in> set es. \<not> eval e \<Longrightarrow> \<not> lossy b \<Longrightarrow> length (queue b) + length es < 2 ^ 64 \<Longrightarrow>
    \<exists>b'. append_events lay now eval es b = Inr b' \<and> queue b' = rev es @ queue b \<and>
      length (sunk b') = length (sunk b) +
        (if length (queue b) \<le> unat (max_size b) \<and> unat (max_size b) < length (queue b) + length es then 1 else 0)"
proof (induction es arbitrary: b)
  case (Cons e es)
  obtain b1 where b1: "buffering_append lay now eval e b = Inr b1" "queue b1 = e # queue b" "max_size b1 = max_size b"
    "\<not> lossy b1" "length (sunk b1) = length (sunk b) + (if length (queue b) = unat (max_size b) then 1 else 0)"
    using grow_step [where lay = lay, OF assms, where eval = eval and e = e and b = b and now = now] Cons.prems by auto
  obtain b' where b': "append_events lay now eval es b1 = Inr b'" "queue b' = rev es @ queue b1"
    "length (sunk b') = length (sunk b1) +
        (if length (queue b1) \<le> unat (max_size b1) \<and> unat (max_size b1) < length (queue b1) + length es then 1 else 0)"
    using Cons.IH [of b1] Cons.prems b1(2,4) by auto
  show ?case using b1 b' by (intro exI [of _ b']) auto
qed simp

lemma lossy_step:
  assumes "\<not> eval e" and "lossy b" and "length (queue b) \<le> unat (max_size b)" and "0 < max_size b"
  shows "\<exists>b'. buffering_append lay now eval e b = Inr b' \<and> queue b' = take (unat (max_size b)) (e # queue b) \<and>
    max_size b' = max_size b \<and> lossy b' \<and> sunk b' = sunk b"
proof -
  have "unat (max_size b) < 2 ^ LENGTH(64)" by (rule unsigned_less)
  then have "length (queue b) < 2 ^ 64" using assms(3) by simp
  note F = full_word [OF this, of "max_size b"]
  obtain k where k: "unat (max_size b) = Suc k" using assms(4) by (cases "unat (max_size b)") (auto simp: unat_eq_0)
  show ?thesis
    using assms k F by (auto simp: buffering_append_def Let_def butlast_conv_take)
qed

lemma lossy_all:
  shows "\<forall>e \<in> set es. \<not> eval e \<Longrightarrow> lossy b \<Longrightarrow> length (queue b) \<le> unat (max_size b) \<Longrightarrow> 0 < max_size b \<Longrightarrow>
    \<exists>b'. append_events lay now eval es b = Inr b' \<and> queue b' = take (unat (max_size b)) (rev es @ queue b) \<and> sunk b' = sunk b"
proof (induction es arbitrary: b)
  case (Cons e es)
  obtain b1 where b1: "buffering_append lay now eval e b = Inr b1" "queue b1 = take (unat (max_size b)) (e # queue b)"
    "max_size b1 = max_size b" "lossy b1" "sunk b1 = sunk b"
    using lossy_step [where eval = eval and e = e and b = b and lay = lay and now = now] Cons.prems by auto
  obtain b' where b': "append_events lay now eval es b1 = Inr b'"
    "queue b' = take (unat (max_size b1)) (rev es @ queue b1)" "sunk b' = sunk b1"
    using Cons.IH [of b1] Cons.prems b1 by auto
  show ?case using b1 b' by (intro exI [of _ b']) (simp add: min_def)
qed simp

text \<open>
  As long as the evaluator does not fire, a buffering appender that is not lossy keeps every event:
  it dumps its queue once, when it is full, but does not empty it, and so it grows beyond its limit. A
  lossy one keeps the newest events up to the limit.
\<close>

theorem buffering_growth:
  assumes "\<And>e. defined (lay e)" and "\<forall>e \<in> set es. \<not> eval e" and "length es < 2 ^ 64"
    and "b = BufferingAppender_new n"
  shows "\<exists>b1 b2. append_events lay now eval es b = Inr b1 \<and> queue b1 = rev es \<and>
      length (sunk b1) = (if length es > unat (max_size b) then 1 else 0) \<and>
    append_events lay now eval es (b\<lparr>lossy := True\<rparr>) = Inr b2 \<and> queue b2 = take (unat (max_size b)) (rev es) \<and> sunk b2 = []"
proof -
  have pos: "0 < max_size b" by (simp add: assms(4) BufferingAppender_new_def less_max_iff_disj)
  obtain b1 where b1: "append_events lay now eval es b = Inr b1" "queue b1 = rev es"
    "length (sunk b1) = (if length es > unat (max_size b) then 1 else 0)"
    using grow_all [where lay = lay, OF assms(1,2), where b = b and now = now] assms(3,4) by (auto simp: BufferingAppender_new_def)
  obtain b2 where b2: "append_events lay now eval es (b\<lparr>lossy := True\<rparr>) = Inr b2"
    "queue b2 = take (unat (max_size b)) (rev es)" "sunk b2 = []"
    using lossy_all [OF assms(2), where b = "b\<lparr>lossy := True\<rparr>" and lay = lay and now = now] pos assms(4) by (auto simp: BufferingAppender_new_def)
  show ?thesis using b1 b2 by blast
qed

theorem buffering_growth_witness:
  "\<exists>b1. append_events PassThroughLayout_format (\<lambda>s p. LoggingEvent_new [] 0 0 [] s [] p) (\<lambda>_. False)
      (replicate 3 (LoggingEvent_new [] 0 0 [] ''m'' [] 300)) (BufferingAppender_new 1) = Inr b1 \<and> length (queue b1) = 3"
proof -
  let ?es = "replicate 3 (LoggingEvent_new [] 0 0 [] ''m'' [] 300)"
  have "\<forall>e \<in> set ?es. \<not> (\<lambda>_. False) e" "length ?es < 2 ^ 64" by simp_all
  from buffering_growth [where lay = PassThroughLayout_format, OF _ this refl, where now = "\<lambda>s p. LoggingEvent_new [] 0 0 [] s [] p" and n = 1]
  obtain b1 where "append_events PassThroughLayout_format (\<lambda>s p. LoggingEvent_new [] 0 0 [] s [] p) (\<lambda>_. False) ?es
      (BufferingAppender_new 1) = Inr b1" "queue b1 = rev ?es"
    by (auto simp: PassThroughLayout_format_def)
  then show ?thesis by (intro exI [of _ b1]) simp
qed

end
