(* ===== verification/LogReopen.thy ===== *)
theory LogReopen
  imports LogFiles LogSinks
begin

text \<open>
  Reopening and closing all appenders of a process: \<open>reopenAll\<close> and \<open>closeAll\<close> of
  \<^verbatim>\<open>src/git/log4cpp/src/Appender.cpp\<close>, which call the virtual operations of the file appenders, of
  \<^verbatim>\<open>SyslogAppender.cpp\<close> and of the other appenders on one file system and one connection to syslog.
\<close>

subsection \<open>The appenders of a process\<close>

text \<open>
  An appender by its class; \<open>BufferSink\<close> holds the address of the appender it owns, \<open>PlainSink\<close> is
  one whose \<open>reopen\<close> is true and whose \<open>close\<close> is empty (streams, queues, mail, abort).
\<close>

datatype sink =
    FileSink FileAppender
  | RollingSink RollingFileAppender
  | DailySink DailyRollingFileAppender
  | SyslogSink SyslogAppender
  | RemoteSink RemoteSyslogAppender
  | BufferSink nat
  | PlainSink

text \<open>\<open>ident\<close> is what \<open>openlog\<close> was last given; \<open>closelog\<close> returns to the name of the program.\<close>

record process =
  sinks :: "nat \<rightharpoonup> sink"
  files :: fsys
  ident :: "(string \<times> int) option"

definition syslog_open :: "SyslogAppender \<Rightarrow> process \<Rightarrow> process" where
  "syslog_open a s = s\<lparr>ident := Some (c_str (syslogName a), facility a)\<rparr>"

definition syslog_close :: "process \<Rightarrow> process" where
  "syslog_close s = s\<lparr>ident := None\<rparr>"

definition syslog_reopen :: "SyslogAppender \<Rightarrow> process \<Rightarrow> bool \<times> process" where
  "syslog_reopen a s = (True, syslog_open a (syslog_close s))"

definition set_sink :: "nat \<Rightarrow> sink \<Rightarrow> process \<Rightarrow> process" where
  "set_sink a x s = s\<lparr>sinks := (sinks s)(a \<mapsto> x)\<rparr>"

definition syslog_new :: "nat \<Rightarrow> string \<Rightarrow> int \<Rightarrow> process \<Rightarrow> process" where
  "syslog_new a nm fac s =
     (let l = \<lparr>syslogName = nm, facility = fac\<rparr> in syslog_open l (set_sink a (SyslogSink l) s))"

definition syslog_destroy :: "nat \<Rightarrow> process \<Rightarrow> process" where
  "syslog_destroy a s = (syslog_close s)\<lparr>sinks := (sinks s)(a := None)\<rparr>"

text \<open>\<open>now\<close> is the time, and \<open>N a\<close> what the network answers to the appender at \<open>a\<close>.\<close>

definition reopen_file :: "int \<Rightarrow> ('a FileAppender_scheme \<Rightarrow> sink) \<Rightarrow> nat \<Rightarrow> 'a FileAppender_scheme \<Rightarrow> process \<Rightarrow> bool \<times> process" where
  "reopen_file now K a f s =
     (let (ok, f', fs') = file_reopen now f (files s) in (ok, set_sink a (K f') (s\<lparr>files := fs'\<rparr>)))"

definition Appender_reopen :: "int \<Rightarrow> (nat \<Rightarrow> netdb) \<Rightarrow> nat \<Rightarrow> process \<Rightarrow> (bool \<times> process) res" where
  "Appender_reopen now N a s =
     bindR (deref (sinks s) (Ptr a)) (\<lambda>x. Inr (case x of
         FileSink f \<Rightarrow> reopen_file now FileSink a f s
       | RollingSink f \<Rightarrow> reopen_file now RollingSink a f s
       | DailySink f \<Rightarrow> reopen_file now DailySink a f s
       | SyslogSink l \<Rightarrow> syslog_reopen l s
       | RemoteSink r \<Rightarrow> (True, set_sink a (RemoteSink (remote_reopen (N a) r)) s)
       | BufferSink b \<Rightarrow> (True, s)
       | PlainSink \<Rightarrow> (True, s)))"

text \<open>The loops over the registry; \<open>result && reopen()\<close> stops calling after a failure.\<close>

fun reopen_from :: "int \<Rightarrow> (nat \<Rightarrow> netdb) \<Rightarrow> (string \<times> nat) list \<Rightarrow> bool \<Rightarrow> process \<Rightarrow> (bool \<times> process) res" where
  "reopen_from now N [] result s = Inr (result, s)"
| "reopen_from now N ((nm, a) # reg) result s =
     bindR (if result then Appender_reopen now N a s else Inr (False, s)) (\<lambda>(result', s1).
       reopen_from now N reg result' s1)"

definition reopenAll :: "int \<Rightarrow> (nat \<Rightarrow> netdb) \<Rightarrow> (string \<times> nat) list \<Rightarrow> process \<Rightarrow> (bool \<times> process) res" where
  "reopenAll now N reg s = reopen_from now N reg True s"

definition close_file :: "('a FileAppender_scheme \<Rightarrow> sink) \<Rightarrow> nat \<Rightarrow> 'a FileAppender_scheme \<Rightarrow> process \<Rightarrow> process" where
  "close_file K a f s = (let (f', fs') = file_close f (files s) in set_sink a (K f') (s\<lparr>files := fs'\<rparr>))"

text \<open>A buffering appender closes the one it owns.\<close>

partial_function (option) Appender_close :: "nat \<Rightarrow> process \<Rightarrow> process res option" where
  "Appender_close a s =
     (case sinks s a of
        None \<Rightarrow> Some (Inl UseAfterFree)
      | Some x \<Rightarrow>
          (case x of
             FileSink f \<Rightarrow> Some (Inr (close_file FileSink a f s))
           | RollingSink f \<Rightarrow> Some (Inr (close_file RollingSink a f s))
           | DailySink f \<Rightarrow> Some (Inr (close_file DailySink a f s))
           | SyslogSink l \<Rightarrow> Some (Inr (syslog_close s))
           | RemoteSink r \<Rightarrow> Some (Inr (set_sink a (RemoteSink (remote_close r)) s))
           | BufferSink b \<Rightarrow> Appender_close b s
           | PlainSink \<Rightarrow> Some (Inr s)))"

fun close_from :: "(string \<times> nat) list \<Rightarrow> process \<Rightarrow> process res option" where
  "close_from [] s = Some (Inr s)"
| "close_from ((nm, a) # reg) s =
     Option.bind (Appender_close a s) (\<lambda>r. case r of Inl e \<Rightarrow> Some (Inl e) | Inr s1 \<Rightarrow> close_from reg s1)"

definition closeAll :: "(string \<times> nat) list \<Rightarrow> process \<Rightarrow> process res option" where
  "closeAll reg s = close_from reg s"

text \<open>The file an appender writes to and its descriptor.\<close>

fun log_file :: "sink \<Rightarrow> (string \<times> int) option" where
  "log_file (FileSink f) = Some (fileName f, fd f)"
| "log_file (RollingSink f) = Some (fileName f, fd f)"
| "log_file (DailySink f) = Some (fileName f, fd f)"
| "log_file x = None"

subsection \<open>Reopening\<close>

text \<open>A descriptor that writes to the file that now has the name.\<close>

definition refers :: "fsys \<Rightarrow> string \<Rightarrow> int \<Rightarrow> bool" where
  "refers fs nm d \<longleftrightarrow> (\<exists>i. fds fs d = Some i \<and> dir fs (c_str nm) = Some i)"

text \<open>What opening and closing leave alone: names keep their files, new descriptors are new.\<close>

definition grown :: "int set \<Rightarrow> fsys \<Rightarrow> fsys \<Rightarrow> bool" where
  "grown D fs fs' \<longleftrightarrow> dir fs \<subseteq>\<^sub>m dir fs' \<and> next_fd fs \<le> next_fd fs' \<and> may_open fs' = may_open fs \<and>
     (\<forall>d. d < int (next_fd fs) \<and> d \<notin> D \<longrightarrow> fds fs' d = fds fs d) \<and>
     (\<forall>d\<in>D. d < int (next_fd fs) \<and> fds fs d = None \<longrightarrow> fds fs' d = None)"

lemma grown_refl [simp]: "grown D fs fs"
  by (simp add: grown_def)

lemma grown_trans:
  assumes "grown D fs fs1" and "grown D' fs1 fs2"
  shows "grown (D \<union> D') fs fs2"
proof -
  have n: "next_fd fs \<le> next_fd fs1" using assms(1) by (simp add: grown_def)
  have "fds fs2 d = None" if "d < int (next_fd fs)" "fds fs d = None" for d
    using assms that n by (cases "d \<in> D"; cases "d \<in> D'") (auto simp: grown_def)
  moreover have "fds fs2 d = fds fs d" if "d < int (next_fd fs)" "d \<notin> D" "d \<notin> D'" for d
    using assms that n by (auto simp: grown_def)
  ultimately show ?thesis using assms by (auto simp: grown_def intro: map_le_trans)
qed

lemma sys_open_grown:
  assumes "may_open fs nm" and "sys_open t nm tr fs = (d, fs')"
  shows "d = int (next_fd fs)" and "grown {} fs fs'" and "next_fd fs' = Suc (next_fd fs)"
    and "\<exists>i. fds fs' d = Some i \<and> dir fs' nm = Some i"
  using assms by (auto simp: sys_open_def grown_def map_le_def Let_def split: option.splits if_splits)

lemma file_reopen_ok:
  assumes "fileName f \<noteq> []" and "may_open fs (c_str (fileName f))" and "fd f < int (next_fd fs)"
  obtains f' fs' where "file_reopen t f fs = (True, f', fs')" and "f' = f\<lparr>fd := fd f'\<rparr>" and "grown {fd f} fs fs'"
    and "refers fs' (fileName f) (fd f')" and "fd f' = int (next_fd fs)" and "next_fd fs' = Suc (next_fd fs)"
    and "fd f \<noteq> - 1 \<Longrightarrow> fds fs' (fd f) = None"
proof -
  obtain d fs1 where o1: "sys_open t (c_str (fileName f)) (trunc f) fs = (d, fs1)" by (rule prod.exhaust)
  note O = sys_open_grown [OF assms(2) o1]
  let ?fs' = "if fd f \<noteq> - 1 then snd (sys_close (fd f) fs1) else fs1"
  have ne: "d \<noteq> fd f" using O(1) assms(3) by simp
  have c: "dir ?fs' = dir fs1" "next_fd ?fs' = next_fd fs1" "may_open ?fs' = may_open fs1"
    "\<And>e. e \<noteq> fd f \<Longrightarrow> fds ?fs' e = fds fs1 e" "fd f \<noteq> - 1 \<Longrightarrow> fds ?fs' (fd f) = None"
    "fds fs1 (fd f) = None \<Longrightarrow> fds ?fs' (fd f) = None"
    by (auto simp: sys_close_def)
  show thesis
  proof (rule that [of "f\<lparr>fd := d\<rparr>" ?fs'])
    show "file_reopen t f fs = (True, f\<lparr>fd := d\<rparr>, ?fs')"
      using assms(1) o1 O(1) by (simp add: file_reopen_def)
    show "refers ?fs' (fileName f) (fd (f\<lparr>fd := d\<rparr>))" using O(4) c ne by (auto simp: refers_def)
    show "grown {fd f} fs ?fs'" using O(2) c assms(3) unfolding grown_def by auto
  qed (use O c in simp_all)
qed

text \<open>Before: the appender exists and its file can be opened. After: it writes to the file of that name and its old descriptor is closed.\<close>

definition openable :: "process \<Rightarrow> nat \<Rightarrow> bool" where
  "openable s a \<longleftrightarrow> (\<exists>x. sinks s a = Some x \<and> (case log_file x of None \<Rightarrow> True
     | Some (nm, d) \<Rightarrow> (nm \<noteq> [] \<longrightarrow> may_open (files s) (c_str nm)) \<and> d < int (next_fd (files s))))"

definition old_fds :: "sink \<Rightarrow> int set" where
  "old_fds x = (case log_file x of None \<Rightarrow> {} | Some (nm, d) \<Rightarrow> if nm = [] then {} else {d})"

definition renewed :: "fsys \<Rightarrow> sink \<Rightarrow> sink \<Rightarrow> bool" where
  "renewed fs x x' \<longleftrightarrow> (case log_file x of None \<Rightarrow> log_file x' = None
     | Some (nm, d) \<Rightarrow>
         if nm = [] then log_file x' = log_file x
         else \<exists>d'. log_file x' = Some (nm, d') \<and> refers fs nm d' \<and> (d \<noteq> - 1 \<longrightarrow> fds fs d = None))"

text \<open>The descriptors of reopened appenders are new.\<close>

definition new_fds :: "fsys \<Rightarrow> fsys \<Rightarrow> sink \<Rightarrow> bool" where
  "new_fds fs fs' x \<longleftrightarrow> (\<forall>d\<in>old_fds x. int (next_fd fs) \<le> d \<and> d < int (next_fd fs'))"

lemma openable_less: "openable s a \<Longrightarrow> sinks s a = Some x \<Longrightarrow> d \<in> old_fds x \<Longrightarrow> d < int (next_fd (files s))"
  by (auto simp: openable_def old_fds_def split: option.splits if_splits)

lemma openable_grown:
  assumes "openable s a" and "sinks s' a = sinks s a" and "grown D (files s) (files s')"
  shows "openable s' a"
  using assms by (fastforce simp: openable_def grown_def split: option.splits)

lemma renewed_grown:
  assumes "renewed fs1 x x1" and "grown D fs1 fs'" and "\<And>d. d \<in> D \<Longrightarrow> d < int (next_fd fs)"
    and "new_fds fs fs1 x1" and "\<And>d. d \<in> old_fds x \<Longrightarrow> d < int (next_fd fs1)"
  shows "renewed fs' x x1"
proof (cases "log_file x")
  case (Some p)
  obtain nm d where p: "p = (nm, d)" by (rule prod.exhaust)
  show ?thesis
  proof (cases "nm = []")
    case False
    then obtain d' i where d': "log_file x1 = Some (nm, d')" "fds fs1 d' = Some i" "dir fs1 (c_str nm) = Some i"
        "d \<noteq> - 1 \<Longrightarrow> fds fs1 d = None"
      using assms(1) Some p by (auto simp: renewed_def refers_def)
    have "d' \<in> old_fds x1" "d \<in> old_fds x" using d'(1) Some p False by (simp_all add: old_fds_def)
    then have b: "int (next_fd fs) \<le> d'" "d' < int (next_fd fs1)" "d < int (next_fd fs1)"
      using assms(4,5) by (auto simp: new_fds_def)
    then have "d' \<notin> D" using assms(3) by force
    then have "fds fs' d' = Some i" "d \<noteq> - 1 \<Longrightarrow> fds fs' d = None"
      using assms(2) b d' by (auto simp: grown_def)
    moreover have "dir fs' (c_str nm) = Some i"
      using assms(2) d'(3) map_le_def [of "dir fs1" "dir fs'"] by (force simp: grown_def)
    ultimately show ?thesis using d' Some p False by (auto simp: renewed_def refers_def)
  qed (use assms(1) Some p in \<open>simp add: renewed_def\<close>)
qed (use assms(1) in \<open>simp add: renewed_def\<close>)

definition reopened_one :: "process \<Rightarrow> nat \<Rightarrow> sink \<Rightarrow> process \<Rightarrow> bool" where
  "reopened_one s a x s1 \<longleftrightarrow> grown (old_fds x) (files s) (files s1) \<and> (\<forall>b. b \<noteq> a \<longrightarrow> sinks s1 b = sinks s b) \<and>
     (\<exists>x1. sinks s1 a = Some x1 \<and> renewed (files s1) x x1 \<and> new_fds (files s) (files s1) x1)"

text \<open>The classes that write to a file share these operations; what is proved of them rests on one law.\<close>

locale file_sink =
  fixes K :: "'a FileAppender_scheme \<Rightarrow> sink"
  assumes K_file: "log_file (K g) = Some (fileName g, fd g)"
begin

lemma reopen_ok:
  assumes "sinks s a = Some (K f)" and "openable s a"
  shows "\<exists>s1. reopen_file t K a f s = (True, s1) \<and> reopened_one s a (K f) s1"
proof (cases "fileName f = []")
  case True
  then have "reopen_file t K a f s = (True, s)"
    using assms(1) by (cases s) (auto simp: reopen_file_def file_reopen_def set_sink_def)
  then show ?thesis
    using True K_file assms(1) by (simp add: reopened_one_def renewed_def new_fds_def old_fds_def)
next
  case False
  have o1: "may_open (files s) (c_str (fileName f))" "fd f < int (next_fd (files s))"
    using assms K_file False by (auto simp: openable_def)
  obtain f' fs' where r: "file_reopen t f (files s) = (True, f', fs')" "f' = f\<lparr>fd := fd f'\<rparr>" "grown {fd f} (files s) fs'"
      "refers fs' (fileName f) (fd f')" "fd f' = int (next_fd (files s))" "next_fd fs' = Suc (next_fd (files s))"
      "fd f \<noteq> - 1 \<Longrightarrow> fds fs' (fd f) = None"
    using file_reopen_ok [OF False o1] by metis
  have nm: "fileName f' = fileName f" by (subst r(2)) simp
  have "reopen_file t K a f s = (True, set_sink a (K f') (s\<lparr>files := fs'\<rparr>))"
    using r(1) by (simp add: reopen_file_def)
  moreover have "reopened_one s a (K f) (set_sink a (K f') (s\<lparr>files := fs'\<rparr>))"
    using False r(3-7) nm K_file by (auto simp: reopened_one_def renewed_def new_fds_def old_fds_def set_sink_def)
  ultimately show ?thesis by blast
qed

lemma reopen_fails:
  assumes "fileName f \<noteq> []" and "\<not> may_open (files s) (c_str (fileName f))" and "sinks s a = Some (K f)"
  shows "reopen_file t K a f s = (False, s)"
  using assms by (cases s) (auto simp: reopen_file_def file_reopen_def sys_open_def set_sink_def)

end

interpretation plain_log: file_sink FileSink
  by unfold_locales simp

interpretation rolling_log: file_sink RollingSink
  by unfold_locales simp

interpretation daily_log: file_sink DailySink
  by unfold_locales simp

lemma reopened_plain:
  assumes "log_file x = None" and "sinks s a = Some x" and "files s1 = files s" and "\<forall>b. b \<noteq> a \<longrightarrow> sinks s1 b = sinks s b"
    and "sinks s1 a = Some x1" and "log_file x1 = None"
  shows "reopened_one s a x s1"
  using assms by (simp add: reopened_one_def renewed_def new_fds_def old_fds_def)

lemma Appender_reopen_ok:
  assumes "sinks s a = Some x" and "openable s a"
  shows "\<exists>s1. Appender_reopen t N a s = Inr (True, s1) \<and> reopened_one s a x s1"
proof (cases x)
  case (FileSink f)
  then show ?thesis using plain_log.reopen_ok [of s a f t] assms by (auto simp: Appender_reopen_def)
next
  case (RollingSink f)
  then show ?thesis using rolling_log.reopen_ok [of s a f t] assms by (auto simp: Appender_reopen_def)
next
  case (DailySink f)
  then show ?thesis using daily_log.reopen_ok [of s a f t] assms by (auto simp: Appender_reopen_def)
qed (use assms in \<open>auto simp: Appender_reopen_def syslog_reopen_def syslog_open_def syslog_close_def set_sink_def
      intro!: reopened_plain\<close>)

lemma reopen_from_ok:
  assumes "distinct (map snd reg)" and "list_all (\<lambda>(_, a). openable s a) reg"
  shows "\<exists>s'. reopen_from t N reg True s = Inr (True, s') \<and>
    grown (\<Union>(_, a)\<in>set reg. \<Union> (old_fds ` set_option (sinks s a))) (files s) (files s') \<and>
    (\<forall>b. b \<notin> snd ` set reg \<longrightarrow> sinks s' b = sinks s b) \<and>
    list_all (\<lambda>(_, a). \<exists>x x'. sinks s a = Some x \<and> sinks s' a = Some x' \<and> renewed (files s') x x') reg"
  using assms
proof (induction reg arbitrary: s)
  case (Cons p reg)
  obtain nm a where p: "p = (nm, a)" by (rule prod.exhaust)
  obtain x where x: "sinks s a = Some x" "openable s a" using Cons.prems(2) p by (auto simp: openable_def)
  obtain s1 where s1: "Appender_reopen t N a s = Inr (True, s1)" "reopened_one s a x s1"
    using Appender_reopen_ok [OF x] by blast
  then obtain x1 where x1: "grown (old_fds x) (files s) (files s1)" "\<And>b. b \<noteq> a \<Longrightarrow> sinks s1 b = sinks s b"
      "sinks s1 a = Some x1" "renewed (files s1) x x1" "new_fds (files s) (files s1) x1"
    by (auto simp: reopened_one_def)
  have same: "sinks s1 b = sinks s b" if "(n, b) \<in> set reg" for n b
    using x1(2) that Cons.prems(1) p by (force simp: image_iff)
  have "list_all (\<lambda>(_, a). openable s1 a) reg"
    using Cons.prems(2) p same openable_grown [OF _ _ x1(1)] by (fastforce simp: list_all_iff)
  from Cons.IH [OF _ this] Cons.prems(1) p
  obtain s' where s': "reopen_from t N reg True s1 = Inr (True, s')"
      "grown (\<Union>(_, a)\<in>set reg. \<Union> (old_fds ` set_option (sinks s1 a))) (files s1) (files s')"
      "\<And>b. b \<notin> snd ` set reg \<Longrightarrow> sinks s' b = sinks s1 b"
      "list_all (\<lambda>(_, a). \<exists>x x'. sinks s1 a = Some x \<and> sinks s' a = Some x' \<and> renewed (files s') x x') reg"
    by auto
  let ?D = "\<Union>(_, a)\<in>set reg. \<Union> (old_fds ` set_option (sinks s a))"
  have D: "(\<Union>(_, a)\<in>set reg. \<Union> (old_fds ` set_option (sinks s1 a))) = ?D" using same by (intro SUP_cong) auto
  have less: "d < int (next_fd (files s))" if "d \<in> ?D" for d
    using that Cons.prems(2) openable_less by (force simp: list_all_iff)
  have "d < int (next_fd (files s1))" if "d \<in> old_fds x" for d
    using openable_less [OF x(2,1) that] x1(1) by (simp add: grown_def)
  then have "renewed (files s') x x1" using renewed_grown [OF x1(4) s'(2) _ x1(5)] less unfolding D by blast
  moreover have "sinks s' a = Some x1" using s'(3) [of a] x1(3) Cons.prems(1) p by (auto simp: image_iff)
  moreover have "list_all (\<lambda>(_, a). \<exists>x x'. sinks s a = Some x \<and> sinks s' a = Some x' \<and> renewed (files s') x x') reg"
    using s'(4) same by (auto simp: list_all_iff)
  moreover have "grown (old_fds x \<union> ?D) (files s) (files s')" using grown_trans [OF x1(1) s'(2)] unfolding D .
  moreover have "reopen_from t N (p # reg) True s = Inr (True, s')" using p s1(1) s'(1) by simp
  ultimately show ?case using p x(1) s'(3) x1(2) by (intro exI [of _ s']) auto
qed simp


definition rotated_fs :: fsys where
  "rotated_fs = \<lparr>dir = [''/log.1'' \<mapsto> 0], inodes = (\<lambda>_. \<lparr>content = ''old'', mtime = 1, regular = True\<rparr>), fds = [3 \<mapsto> 0],
     may_open = (\<lambda>_. True), next_ino = 1, next_fd = 4\<rparr>"

definition rotated :: process where
  "rotated = \<lparr>sinks = [5 \<mapsto> FileSink \<lparr>fileName = ''/log'', fd = 3, trunc = False, mode = 420, layout = (\<lambda>e. Inr (message e))\<rparr>,
       6 \<mapsto> SyslogSink \<lparr>syslogName = ''bike'', facility = 8\<rparr>], files = rotated_fs, ident = None\<rparr>"

definition no_net :: netdb where
  "no_net = \<lparr>resolve = (\<lambda>_. None), resolve_addr = (\<lambda>_. None), new_socket = - 1\<rparr>"


text \<open>An event that is appended through a descriptor that refers to a name ends up in the file of that name.\<close>

lemma append_to_name:
  assumes "refers fs nm (fd f)" and "layout f event = Inr msg"
  shows "\<exists>fs' old. file_append t event f fs = Inr fs' \<and> file_text fs (c_str nm) = Some old \<and>
    file_text fs' (c_str nm) = Some (old @ msg)"
  using assms by (auto simp: refers_def file_append_def sys_write_def file_text_def)

subsection \<open>A failure\<close>

lemma reopen_from_False: "reopen_from t N reg False s = Inr (False, s)"
  by (induction reg) auto

lemma reopen_from_append:
  "reopen_from t N (r1 @ r2) res s = bindR (reopen_from t N r1 res s) (\<lambda>(res', s'). reopen_from t N r2 res' s')"
proof (induction r1 arbitrary: res s)
  case (Cons p r1)
  then show ?case
    by (cases p, cases "if res then Appender_reopen t N (snd p) s else Inr (False, s)") auto
qed simp

lemma Appender_reopen_fails:
  assumes "sinks s a = Some x" and "log_file x = Some (nm, d)" and "nm \<noteq> []" and "\<not> may_open (files s) (c_str nm)"
  shows "Appender_reopen t N a s = Inr (False, s)"
  using assms by (cases x) (auto simp: Appender_reopen_def plain_log.reopen_fails rolling_log.reopen_fails daily_log.reopen_fails)

text \<open>
  The first appender whose file cannot be opened ends the round: the ones after it in the order of
  their names are not reopened, whatever their files, and go on writing to the old ones.
\<close>

theorem reopen_all_stops:
  assumes "distinct (map snd (r1 @ (n, a) # r2))" and "list_all (\<lambda>(_, a). openable s a) r1"
    and "sinks s a = Some x" and "log_file x = Some (nm, d)" and "nm \<noteq> []" and "\<not> may_open (files s) (c_str nm)"
  shows "\<exists>s'. reopenAll t N (r1 @ (n, a) # r2) s = Inr (False, s') \<and>
    list_all (\<lambda>(_, b). \<exists>x x'. sinks s b = Some x \<and> sinks s' b = Some x' \<and> renewed (files s') x x') r1 \<and>
    (\<forall>b. b \<notin> snd ` set r1 \<longrightarrow> sinks s' b = sinks s b)"
proof -
  have "distinct (map snd r1)" using assms(1) by simp
  from reopen_from_ok [OF this assms(2), of t N]
  obtain s' where s': "reopen_from t N r1 True s = Inr (True, s')" "may_open (files s') = may_open (files s)"
      "\<forall>b. b \<notin> snd ` set r1 \<longrightarrow> sinks s' b = sinks s b"
      "list_all (\<lambda>(_, b). \<exists>x x'. sinks s b = Some x \<and> sinks s' b = Some x' \<and> renewed (files s') x x') r1"
    by (auto simp: grown_def)
  have "a \<notin> snd ` set r1" using assms(1) by auto
  then have "Appender_reopen t N a s' = Inr (False, s')"
    using Appender_reopen_fails [of s' a x nm d] assms(3-6) s'(2,3) by simp
  then have "reopenAll t N (r1 @ (n, a) # r2) s = Inr (False, s')"
    using s'(1) by (simp add: reopenAll_def reopen_from_append reopen_from_False)
  then show ?thesis using s' by blast
qed

theorem reopen_all_stops_witness:
  "\<exists>s'. reopenAll 9 (\<lambda>_. no_net) ([] @ (''file'', 5) # [(''syslog'', 6)]) (rotated\<lparr>files := rotated_fs\<lparr>may_open := (\<lambda>nm. nm \<noteq> ''/log'')\<rparr>\<rparr>) =
     Inr (False, s')"
proof -
  let ?s = "rotated\<lparr>files := rotated_fs\<lparr>may_open := (\<lambda>nm. nm \<noteq> ''/log'')\<rparr>\<rparr>"
  have "distinct (map snd ([] @ (''file'', 5 :: nat) # [(''syslog'', 6)]))" "list_all (\<lambda>(_, a). openable ?s a) []"
    by simp_all
  note R = reopen_all_stops [OF this]
  show ?thesis using R [of _ _ _ 9 "\<lambda>_. no_net"] by (fastforce simp: rotated_def c_str_def)
qed

text \<open>Destroying the second of two syslog appenders leaves the first one without its name.\<close>

theorem syslog_name_lost:
  assumes "a \<noteq> b"
  shows "ident (syslog_destroy b (syslog_new b nm2 f2 (syslog_new a nm1 f1 s))) = None \<and>
    sinks (syslog_destroy b (syslog_new b nm2 f2 (syslog_new a nm1 f1 s))) a = Some (SyslogSink \<lparr>syslogName = nm1, facility = f1\<rparr>)"
  using assms by (simp add: syslog_destroy_def syslog_new_def syslog_open_def syslog_close_def set_sink_def Let_def)

subsection \<open>Closing\<close>

text \<open>A buffering appender is created after the one it owns, which exists.\<close>

definition buffers_ok :: "process \<Rightarrow> bool" where
  "buffers_ok s \<longleftrightarrow> (\<forall>a b. sinks s a = Some (BufferSink b) \<longrightarrow> b < a \<and> sinks s b \<noteq> None)"

definition shut :: "fsys \<Rightarrow> sink \<Rightarrow> sink \<Rightarrow> bool" where
  "shut fs x x' \<longleftrightarrow> (\<forall>nm d. log_file x = Some (nm, d) \<longrightarrow> log_file x' = Some (nm, - 1) \<and> (d \<noteq> - 1 \<longrightarrow> fds fs d = None))"

definition closing :: "process \<Rightarrow> process \<Rightarrow> bool" where
  "closing s s' \<longleftrightarrow> (\<forall>d. fds (files s) d = None \<longrightarrow> fds (files s') d = None) \<and>
     (\<forall>b. sinks s' b = None \<longleftrightarrow> sinks s b = None) \<and>
     (\<forall>b x x'. sinks s b = Some x \<longrightarrow> sinks s' b = Some x' \<longrightarrow>
        (\<forall>c. x = BufferSink c \<longleftrightarrow> x' = BufferSink c) \<and> (log_file x' = log_file x \<or> shut (files s') x x'))"

lemma closing_refl: "closing s s"
  by (simp add: closing_def)

lemma closingD:
  assumes "closing s s'"
  shows "fds (files s) d = None \<Longrightarrow> fds (files s') d = None"
    and "sinks s' b = None \<longleftrightarrow> sinks s b = None"
    and "sinks s b = Some x \<Longrightarrow> sinks s' b = Some x' \<Longrightarrow> x = BufferSink c \<longleftrightarrow> x' = BufferSink c"
    and "sinks s b = Some x \<Longrightarrow> sinks s' b = Some x' \<Longrightarrow> log_file x' = log_file x \<or> shut (files s') x x'"
  using assms by (simp_all add: closing_def)

lemma shut_again:
  assumes "closing s s'" and "sinks s b = Some x1" and "sinks s' b = Some x2" and "shut (files s) x x1"
  shows "shut (files s') x x2"
  unfolding shut_def
proof (intro allI impI)
  fix nm d
  assume "log_file x = Some (nm, d)"
  then have 1: "log_file x1 = Some (nm, - 1)" "d \<noteq> - 1 \<longrightarrow> fds (files s) d = None" using assms(4) by (simp_all add: shut_def)
  then have "log_file x2 = Some (nm, - 1)" using closingD(4) [OF assms(1-3)] by (auto simp: shut_def)
  then show "log_file x2 = Some (nm, - 1) \<and> (d \<noteq> - 1 \<longrightarrow> fds (files s') d = None)"
    using 1(2) closingD(1) [OF assms(1), of d] by simp
qed

lemma shut_cong: "log_file x = log_file y \<Longrightarrow> shut fs x z \<longleftrightarrow> shut fs y z"
  by (simp add: shut_def)

lemma closing_trans:
  assumes "closing s s1" and "closing s1 s2"
  shows "closing s s2"
  unfolding closing_def
proof (intro conjI allI impI)
  fix b x x2
  assume b: "sinks s b = Some x" "sinks s2 b = Some x2"
  obtain x1 where x1: "sinks s1 b = Some x1" using closingD(2) [OF assms(1), of b] b(1) by (cases "sinks s1 b") auto
  show "x = BufferSink c \<longleftrightarrow> x2 = BufferSink c" for c
    using closingD(3) [OF assms(1) b(1) x1, of c] closingD(3) [OF assms(2) x1 b(2), of c] by simp
  from closingD(4) [OF assms(1) b(1) x1] show "log_file x2 = log_file x \<or> shut (files s2) x x2"
  proof
    assume e: "log_file x1 = log_file x"
    then show ?thesis using closingD(4) [OF assms(2) x1 b(2)] shut_cong [OF e] by simp
  next
    assume "shut (files s1) x x1"
    from shut_again [OF assms(2) x1 b(2) this] show ?thesis ..
  qed
qed (use closingD(1,2) [OF assms(1)] closingD(1,2) [OF assms(2)] in simp_all)

context file_sink begin

lemma close_closing:
  assumes "sinks s a = Some (K f)"
  shows "closing s (close_file K a f s) \<and> (\<exists>x'. sinks (close_file K a f s) a = Some x' \<and> shut (files (close_file K a f s)) (K f) x')"
proof -
  have nb: "K g \<noteq> BufferSink c" for g c using K_file [of g] by auto
  show ?thesis
    using assms K_file nb by (cases "fd f = - 1") (auto simp: close_file_def file_close_def set_sink_def closing_def shut_def sys_close_def)
qed

end

lemma closing_plain:
  assumes "sinks s a = Some x" and "log_file x = None" and "\<And>c. x \<noteq> BufferSink c"
    and "log_file x1 = None" and "\<And>c. x1 \<noteq> BufferSink c"
  shows "closing s (set_sink a x1 s)"
  using assms by (auto simp: closing_def set_sink_def)

lemma buffers_ok_closing:
  assumes "buffers_ok s" and "closing s s'"
  shows "buffers_ok s'"
  unfolding buffers_ok_def
proof (intro allI impI)
  fix a b
  assume a: "sinks s' a = Some (BufferSink b)"
  then obtain x where x: "sinks s a = Some x" using closingD(2) [OF assms(2), of a] by (cases "sinks s a") auto
  then have "x = BufferSink b" using closingD(3) [OF assms(2) x a, of b] by simp
  then show "b < a \<and> sinks s' b \<noteq> None" using assms(1) x closingD(2) [OF assms(2), of b] by (auto simp: buffers_ok_def)
qed

lemma Appender_close_ok:
  assumes "buffers_ok s" and "sinks s a = Some x"
  shows "\<exists>s' x'. Appender_close a s = Some (Inr s') \<and> closing s s' \<and> sinks s' a = Some x' \<and> shut (files s') x x'"
  using assms
proof (induction a arbitrary: x rule: less_induct)
  case (less a)
  note e = Appender_close.simps [of a s]
  have plain: "shut fs x x'" if "log_file x = None" for fs x' using that by (simp add: shut_def)
  show ?case
  proof (cases x)
    case (BufferSink b)
    then obtain y where y: "b < a" "sinks s b = Some y" using less.prems by (auto simp: buffers_ok_def)
    then obtain s' where s': "Appender_close b s = Some (Inr s')" "closing s s'" using less.IH [OF y(1) less.prems(1) y(2)] by blast
    moreover obtain x' where "sinks s' a = Some x'" using closingD(2) [OF s'(2), of a] less.prems(2) by (cases "sinks s' a") auto
    ultimately show ?thesis using e BufferSink less.prems(2) plain by simp
  next
    case (FileSink f)
    then show ?thesis using e less.prems(2) plain_log.close_closing [of s a f] by simp
  next
    case (RollingSink f)
    then show ?thesis using e less.prems(2) rolling_log.close_closing [of s a f] by simp
  next
    case (DailySink f)
    then show ?thesis using e less.prems(2) daily_log.close_closing [of s a f] by simp
  next
    case (SyslogSink l)
    then show ?thesis using e less.prems(2) plain by (simp add: syslog_close_def closing_def)
  next
    case (RemoteSink r)
    then show ?thesis using e less.prems(2) plain closing_plain [of s a x "RemoteSink (remote_close r)"]
      by (simp add: set_sink_def)
  next
    case PlainSink
    then show ?thesis using e less.prems(2) plain closing_refl by simp
  qed
qed

text \<open>
  Closing all appenders returns, and afterwards no registered appender has a descriptor and the ones
  they had are closed, also when an appender is closed twice, by itself and by the one that owns it.
\<close>

theorem close_all_files:
  assumes "buffers_ok s" and "list_all (\<lambda>(_, a). sinks s a \<noteq> None) reg"
  shows "\<exists>s'. closeAll reg s = Some (Inr s') \<and> closing s s' \<and>
    list_all (\<lambda>(_, a). \<exists>x x'. sinks s a = Some x \<and> sinks s' a = Some x' \<and> shut (files s') x x') reg"
  using assms unfolding closeAll_def
proof (induction reg arbitrary: s)
  case (Cons p reg)
  obtain n a where p: "p = (n, a)" by (rule prod.exhaust)
  obtain x where x: "sinks s a = Some x" using Cons.prems(2) p by auto
  obtain s1 x1 where s1: "Appender_close a s = Some (Inr s1)" "closing s s1" "sinks s1 a = Some x1" "shut (files s1) x x1"
    using Appender_close_ok [OF Cons.prems(1) x] by blast
  have "list_all (\<lambda>(_, a). sinks s1 a \<noteq> None) reg"
    using Cons.prems(2) closingD(2) [OF s1(2)] by (auto simp: list_all_iff)
  from Cons.IH [OF buffers_ok_closing [OF Cons.prems(1) s1(2)] this]
  obtain s' where s': "close_from reg s1 = Some (Inr s')" "closing s1 s'"
      "list_all (\<lambda>(_, a). \<exists>x x'. sinks s1 a = Some x \<and> sinks s' a = Some x' \<and> shut (files s') x x') reg" by blast
  note tr = closing_trans [OF s1(2) s'(2)]
  obtain x2 where x2: "sinks s' a = Some x2" using closingD(2) [OF tr, of a] x by (cases "sinks s' a") auto
  have "\<exists>x x'. sinks s b = Some x \<and> sinks s' b = Some x' \<and> shut (files s') x x'" if "(m, b) \<in> set reg" for m b
  proof -
    obtain y1 y2 where y: "sinks s1 b = Some y1" "sinks s' b = Some y2" "shut (files s') y1 y2"
      using s'(3) \<open>(m, b) \<in> set reg\<close> by (auto simp: list_all_iff)
    obtain y where y0: "sinks s b = Some y" using closingD(2) [OF s1(2), of b] y(1) by (cases "sinks s b") auto
    from closingD(4) [OF s1(2) y0 y(1)] have "shut (files s') y y2"
    proof
      assume "log_file y1 = log_file y"
      then show ?thesis using y(3) shut_cong by blast
    qed (rule shut_again [OF s'(2) y(1,2)])
    then show ?thesis using y0 y(2) by blast
  qed
  then show ?case
    using p x x2 s1 s' tr shut_again [OF s'(2) s1(3) x2 s1(4)] by (auto simp: list_all_iff)
qed (simp add: closing_refl)

theorem close_all_files_witness:
  "\<exists>s'. closeAll [(''file'', 5), (''syslog'', 6)] rotated = Some (Inr s') \<and> closing rotated s'"
proof -
  have "buffers_ok rotated" "list_all (\<lambda>(_, a). sinks rotated a \<noteq> None) [(''file'', 5), (''syslog'', 6)]"
    by (simp_all add: buffers_ok_def rotated_def)
  from close_all_files [OF this] show ?thesis by blast
qed

end
