(* ===== verification/PropertyConfig.thy ===== *)
theory PropertyConfig
  imports LogCategory LogSinks PatternLayout
begin

text \<open>
  \<^verbatim>\<open>src/git/log4cpp/src/PropertyConfiguratorImpl.cpp\<close>: the logging system built from a properties
  file, as for Linux with \<open>syslog\<close>. What the appenders do with files and sockets is in
  \<^verbatim>\<open>LogFiles\<close> and \<^verbatim>\<open>LogSinks\<close>; here an appender is its place in the registry, the constructor
  call that made it and its layout.
\<close>

subsection \<open>State, exceptions\<close>

datatype layout_obj = BasicLayout | SimpleLayout | PatternLayoutObj PatternLayout

datatype appender_call =
    ConsoleCall bool
  | DescriptorCall bool
  | FileCall string bool
  | RollingCall string u64 u32 bool
  | DailyCall string u32 bool
  | RemoteSyslogCall string string int int
  | SyslogCall string int
  | AbortCall

record pconf =
  logsys :: logs
  calls :: "nat \<rightharpoonup> appender_call"
  layouts :: "nat \<rightharpoonup> layout_obj"
  configured :: "(string \<times> nat) list"
  properties :: props

text \<open>A step ends with the text of a \<open>ConfigureFailure\<close> or a value, and the state it has reached.\<close>

type_synonym 'a cfg = "pconf \<Rightarrow> ((string + 'a) \<times> pconf) res"

definition retC :: "'a \<Rightarrow> 'a cfg" where
  "retC x s = Inr (Inr x, s)"

definition throwC :: "string \<Rightarrow> 'a cfg" where
  "throwC e s = Inr (Inl e, s)"

definition bindC :: "'a cfg \<Rightarrow> ('a \<Rightarrow> 'b cfg) \<Rightarrow> 'b cfg" where
  "bindC m f s = bindR (m s) (\<lambda>(r, s1). case r of Inl e \<Rightarrow> Inr (Inl e, s1) | Inr x \<Rightarrow> f x s1)"

definition getC :: "(pconf \<Rightarrow> 'a) \<Rightarrow> 'a cfg" where
  "getC f s = Inr (Inr (f s), s)"

text \<open>A step of the logging system.\<close>

definition logsC :: "(logs \<Rightarrow> ('a \<times> logs) res) \<Rightarrow> 'a cfg" where
  "logsC m s = bindR (m (logsys s)) (\<lambda>(x, l). Inr (Inr x, s\<lparr>logsys := l\<rparr>))"

definition logsC_unit :: "(logs \<Rightarrow> logs res) \<Rightarrow> unit cfg" where
  "logsC_unit m = logsC (\<lambda>l. bindR (m l) (\<lambda>l1. Inr ((), l1)))"

lemma cfg_simps [simp, run_simps]:
  "bindC (retC x) f = f x" "bindC (throwC e) f = throwC e" "bindC (getC g) f s = f (g s) s"
  by (simp_all add: fun_eq_iff bindC_def retC_def throwC_def getC_def)

definition quoted :: "string \<Rightarrow> string" where
  "quoted s = [CHR 0x27] @ s @ [CHR 0x27]"

subsection \<open>Appenders\<close>

definition class_of :: "string \<Rightarrow> string" where
  "class_of v = (case find_last CHR ''.'' v of None \<Rightarrow> v | Some k \<Rightarrow> drop (k + 1) v)"

definition to_lower :: "char \<Rightarrow> char" where
  "to_lower c = (if 65 \<le> (of_char c :: nat) \<and> (of_char c :: nat) \<le> 90 then char_of (of_char c + 32 :: nat) else c)"

definition facility_of :: "props \<Rightarrow> string \<Rightarrow> int res" where
  "facility_of ps key =
     (let f = sint (getInt ps key (- 1)) * 8 in if is_int f then Inr f else Inl SignedOverflow)"

text \<open>The constructor call for the type, or the text of the exception.\<close>

definition appender_of_type :: "props \<Rightarrow> string \<Rightarrow> string \<Rightarrow> (string + appender_call) res" where
  "appender_of_type ps nm ty =
     (let pre = ''appender.'' @ nm; file = getString ps (pre @ ''.fileName'') ''foobar'';
          app = getBool ps (pre @ ''.append'') True in
      if ty = ''ConsoleAppender'' then
        (let target = map to_lower (getString ps (pre @ ''.target'') ''stdout'') in
         if target = ''stdout'' then Inr (Inr (ConsoleCall False))
         else if target = ''stderr'' then Inr (Inr (ConsoleCall True))
         else Inr (Inl (nm @ [CHR 0x27] @ '' has invalid target '' @ quoted target)))
      else if ty = ''FileAppender'' then Inr (Inr (FileCall file app))
      else if ty = ''RollingFileAppender'' then
        Inr (Inr (RollingCall file (scast (getInt ps (pre @ ''.maxFileSize'') 10485760))
          (getInt ps (pre @ ''.maxBackupIndex'') 1) app))
      else if ty = ''DailyRollingFileAppender'' then
        Inr (Inr (DailyCall file (getInt ps (pre @ ''.maxDaysKeep'') 0) app))
      else if ty = ''SyslogAppender'' then
        bindR (facility_of ps (pre @ ''.facility'')) (\<lambda>f.
          Inr (Inr (RemoteSyslogCall (getString ps (pre @ ''.syslogName'') ''syslog'')
            (getString ps (pre @ ''.syslogHost'') ''localhost'') f (sint (getInt ps (pre @ ''.portNumber'') (- 1))))))
      else if ty = ''LocalSyslogAppender'' then
        bindR (facility_of ps (pre @ ''.facility'')) (\<lambda>f.
          Inr (Inr (SyslogCall (getString ps (pre @ ''.syslogName'') ''syslog'') f)))
      else if ty = ''AbortAppender'' then Inr (Inr AbortCall)
      else Inr (Inl (''Appender '' @ quoted nm @ '' has unknown type '' @ quoted ty)))"

definition requiresLayout :: "appender_call \<Rightarrow> bool" where
  "requiresLayout c \<longleftrightarrow> c \<noteq> AbortCall"

definition new_appender :: "string \<Rightarrow> appender_call \<Rightarrow> nat cfg" where
  "new_appender nm c s =
     (let (a, l) = Appender_new nm (logsys s)
      in Inr (Inr a, s\<lparr>logsys := l, calls := (calls s)(a \<mapsto> c)\<rparr>))"

definition put_layout :: "nat \<Rightarrow> layout_obj \<Rightarrow> unit cfg" where
  "put_layout a lay s = Inr (Inr (), s\<lparr>layouts := (layouts s)(a \<mapsto> lay)\<rparr>)"

definition setLayout :: "char \<Rightarrow> int \<Rightarrow> nat \<Rightarrow> string \<Rightarrow> unit cfg" where
  "setLayout junk junkp a nm =
     bindC (getC properties) (\<lambda>ps.
       case map_of ps (''appender.'' @ nm @ ''.layout'') of
         None \<Rightarrow> throwC (''Missing layout property for appender '' @ quoted nm)
       | Some v \<Rightarrow>
           (let ty = class_of v in
            if ty = ''BasicLayout'' then put_layout a BasicLayout
            else if ty = ''SimpleLayout'' then put_layout a SimpleLayout
            else if ty = ''PatternLayout'' then
              (\<lambda>s. bindR (PatternLayout_new junk junkp) (\<lambda>l.
                 case map_of ps (''appender.'' @ nm @ ''.layout.ConversionPattern'') of
                   None \<Rightarrow> put_layout a (PatternLayoutObj l) s
                 | Some pat \<Rightarrow>
                     bindR (setConversionPattern junk junkp pat l) (\<lambda>(e, l1).
                       case e of None \<Rightarrow> put_layout a (PatternLayoutObj l1) s | Some msg \<Rightarrow> throwC msg s)))
            else throwC (''Unknown layout type '' @ quoted ty @ '' for appender '' @ quoted nm)))"

definition instantiateAppender :: "char \<Rightarrow> int \<Rightarrow> string \<Rightarrow> nat cfg" where
  "instantiateAppender junk junkp nm =
     bindC (getC properties) (\<lambda>ps.
       case map_of ps (''appender.'' @ nm) of
         None \<Rightarrow> throwC (''Appender '' @ quoted nm @ '' not defined'')
       | Some v \<Rightarrow>
           (\<lambda>s. bindR (appender_of_type ps nm (class_of v)) (\<lambda>r.
              case r of
                Inl e \<Rightarrow> throwC e s
              | Inr c \<Rightarrow>
                  bindC (new_appender nm c) (\<lambda>a.
                  bindC (if requiresLayout c then setLayout junk junkp a nm else retC ()) (\<lambda>_.
                    (let thresholdName = getString ps (''appender.'' @ nm @ ''.threshold'') [] in
                     if thresholdName \<noteq> [] then
                       (case getPriorityValue thresholdName of
                          Inr p \<Rightarrow> bindC (logsC_unit (setThreshold a p)) (\<lambda>_. retC a)
                        | Inl e \<Rightarrow>
                            bindC (logsC_unit (Appender_delete a)) (\<lambda>_.
                              throwC (e @ '' for threshold of appender '' @ quoted nm)))
                     else retC a))) s)))"

definition put_configured :: "string \<Rightarrow> nat \<Rightarrow> unit cfg" where
  "put_configured nm a s = Inr (Inr (), s\<lparr>configured := map_assign nm a (configured s)\<rparr>)"

text \<open>The loop over the keys that begin with \<open>appender.\<close>.\<close>

fun appender_loop :: "char \<Rightarrow> int \<Rightarrow> string \<Rightarrow> string list \<Rightarrow> unit cfg" where
  "appender_loop junk junkp currentAppender [] = retC ()"
| "appender_loop junk junkp currentAppender (key # keys) =
     (let parts = fst (split key CHR ''.'' INT_MAX) in
      if length parts < 2 then throwC ''missing appender name''
      else
        (let appenderName = parts ! 1 in
         if appenderName = currentAppender then appender_loop junk junkp currentAppender keys
         else if length parts = 2 then
           bindC (instantiateAppender junk junkp appenderName) (\<lambda>a.
           bindC (put_configured appenderName a) (\<lambda>_. appender_loop junk junkp appenderName keys))
         else throwC (''partial appender definition : '' @ key)))"

definition keys_from :: "string \<Rightarrow> string \<Rightarrow> props \<Rightarrow> string list" where
  "keys_from lo hi ps = map fst (takeWhile (\<lambda>(k, _). k < hi) (lower_bound lo ps))"

definition instantiateAllAppenders :: "char \<Rightarrow> int \<Rightarrow> unit cfg" where
  "instantiateAllAppenders junk junkp =
     bindC (getC properties) (\<lambda>ps. appender_loop junk junkp [] (keys_from ''appender.'' ''appender/'' ps))"

subsection \<open>Categories\<close>

definition getCategories :: "props \<Rightarrow> string list" where
  "getCategories ps = ''rootCategory'' # map (drop 9) (keys_from ''category.'' ''category/'' ps)"

definition priority_token :: "string \<Rightarrow> string list \<Rightarrow> string + int" where
  "priority_token catName tokens =
     (case tokens of
        [] \<Rightarrow> Inr (level NOTSET)
      | t # _ \<Rightarrow>
          (let priorityName = trim t in
           if priorityName = [] then Inr (level NOTSET)
           else (case getPriorityValue priorityName of
               Inr p \<Rightarrow> Inr p
             | Inl e \<Rightarrow> Inl (e @ '' for category '' @ quoted catName))))"

fun attach_loop :: "nat \<Rightarrow> string \<Rightarrow> string list \<Rightarrow> unit cfg" where
  "attach_loop c catName [] = retC ()"
| "attach_loop c catName (t # ts) =
     bindC (getC configured) (\<lambda>m.
       case map_of m (trim t) of
         None \<Rightarrow> throwC (''Appender '' @ quoted (trim t) @ '' not found for category '' @ quoted catName)
       | Some a \<Rightarrow> bindC (logsC (addAppender False c (Ptr a))) (\<lambda>_. attach_loop c catName ts))"

definition configureCategory :: "string \<Rightarrow> unit cfg" where
  "configureCategory catName =
     bindC (getC properties) (\<lambda>ps.
       let tempCatName = (if catName = ''rootCategory'' then catName else ''category.'' @ catName) in
       case map_of ps tempCatName of
         None \<Rightarrow> throwC (''Unable to find category: '' @ tempCatName)
       | Some v \<Rightarrow>
           bindC (logsC (\<lambda>l. Inr (if catName = ''rootCategory'' then getRoot l else getInstance catName l))) (\<lambda>c.
             (let tokens = fst (split v CHR '','' INT_MAX) in
              case priority_token catName tokens of
                Inl e \<Rightarrow> throwC e
              | Inr p \<Rightarrow>
                  bindC (logsC (setPriority c p)) (\<lambda>e.
                    case e of
                      Some msg \<Rightarrow> throwC (msg @ '' for category '' @ quoted catName)
                    | None \<Rightarrow>
                        bindC (logsC_unit (setAdditivity c (getBool ps (''additivity.'' @ catName) True))) (\<lambda>_.
                        bindC (logsC_unit (removeAllAppenders c)) (\<lambda>_. attach_loop c catName (tl tokens)))))))"

fun configure_all :: "string list \<Rightarrow> unit cfg" where
  "configure_all [] = retC ()"
| "configure_all (n # ns) = bindC (configureCategory n) (\<lambda>_. configure_all ns)"

definition doConfigure :: "(string \<Rightarrow> string option) \<Rightarrow> char \<Rightarrow> int \<Rightarrow> string \<Rightarrow> unit cfg" where
  "doConfigure getenv junk junkp text s =
     bindC (instantiateAllAppenders junk junkp) (\<lambda>_.
     bindC (getC properties) (\<lambda>ps. configure_all (getCategories ps))) (s\<lparr>properties := load getenv text\<rparr>)"

text \<open>The file's content, if it can be opened.\<close>

definition doConfigure_file ::
  "(string \<Rightarrow> string option) \<Rightarrow> char \<Rightarrow> int \<Rightarrow> (string \<Rightarrow> string option) \<Rightarrow> string \<Rightarrow> unit cfg" where
  "doConfigure_file getenv junk junkp files initFileName =
     (case files (c_str initFileName) of
        None \<Rightarrow> throwC (''File '' @ initFileName @ '' does not exist'')
      | Some text \<Rightarrow> doConfigure getenv junk junkp text)"

subsection \<open>What a category looks like after its line\<close>

lemma bindC_eq_Inr:
  "bindC m f s = Inr (Inr y, s') \<longleftrightarrow> (\<exists>x s1. m s = Inr (Inr x, s1) \<and> f x s1 = Inr (Inr y, s'))"
proof (cases "m s")
  case (Inr p)
  obtain v s1 where "p = (v, s1)" by (cases p)
  then show ?thesis using Inr by (cases v) (auto simp: bindC_def)
qed (simp add: bindC_def)

lemma logsC_eq_Inr:
  "logsC m s = Inr (Inr x, s') \<longleftrightarrow> (\<exists>l. m (logsys s) = Inr (x, l) \<and> s' = s\<lparr>logsys := l\<rparr>)"
  by (auto simp: logsC_def bindR_eq_Inr)

lemma logsC_unit_eq_Inr:
  "logsC_unit m s = Inr (Inr x, s') \<longleftrightarrow> (\<exists>l. m (logsys s) = Inr l \<and> s' = s\<lparr>logsys := l\<rparr>)"
  by (auto simp: logsC_unit_def logsC_eq_Inr bindR_eq_Inr)

lemmas cfg_inv = bindC_eq_Inr logsC_eq_Inr logsC_unit_eq_Inr

lemma not_retC [simp]: "throwC e s \<noteq> Inr (Inr y, s')" "retC x s = Inr (Inr y, s') \<longleftrightarrow> x = y \<and> s = s'"
  by (auto simp: throwC_def retC_def)

lemma hier_ok_upd:
  assumes "hier_ok l" and "cats l c = Some x" and "cat_name x' = cat_name x" and "parent x' = parent x"
    and "prio x' = prio x"
  shows "hier_ok (l\<lparr>cats := (cats l)(c \<mapsto> x')\<rparr>)"
proof -
  let ?l = "l\<lparr>cats := (cats l)(c \<mapsto> x')\<rparr>"
  have "node_ok ?l n b" if "map_of (categoryMap l) n = Some b" for n b
    using hier_ok_node [OF assms(1) that] assms(2-5) by (cases "b = c") (auto simp: node_ok_def)
  moreover have "c < next_addr l"
    using assms(1,2) by (auto simp: hier_ok_def) (metis linorder_not_le option.distinct(1))
  ultimately show ?thesis using assms(1) by (auto simp: hier_ok_def)
qed

lemma deleteAll_apps: "deleteAllAppendersWOLock as1 l = Inr l' \<Longrightarrow> apps l a = None \<Longrightarrow> apps l' a = None"
  using deleteAll_defined [of as1 l] by (auto simp: restrict_map_def split: if_splits)

lemma hier_ok_delete:
  assumes "hier_ok l" and "deleteAllAppendersWOLock as1 l = Inr l'"
  shows "hier_ok l'"
proof -
  have "node_ok l' = node_ok l" using deleteAll_frame(2) [OF assms(2)] by (simp add: node_ok_def fun_eq_iff)
  then show ?thesis
    using assms(1) deleteAll_frame(2) [OF assms(2)] deleteAll_apps [OF assms(2)] by (simp add: hier_ok_def)
qed

text \<open>The fields of a category that attaching appenders leaves.\<close>

definition same_node :: "category \<Rightarrow> category \<Rightarrow> bool" where
  "same_node x y \<longleftrightarrow> cat_name y = cat_name x \<and> parent y = parent x \<and> prio y = prio x \<and> additive y = additive x"

definition borrows :: "category \<Rightarrow> bool" where
  "borrows x \<longleftrightarrow> (\<forall>a. \<not> owns x a)"

lemma attach_loop_spec:
  assumes "attach_loop c nm ts s = Inr (Inr (), s')" and "hier_ok (logsys s)" and "cats (logsys s) c = Some x" and "borrows x"
  shows "hier_ok (logsys s') \<and> categoryMap (logsys s') = categoryMap (logsys s) \<and>
    (\<exists>y. cats (logsys s') c = Some y \<and> same_node x y \<and> borrows y \<and>
       set (appenders y) = set (appenders x) \<union> {a. \<exists>t \<in> set ts. map_of (configured s) (trim t) = Some a})"
  using assms
proof (induction ts arbitrary: s x)
  case Nil
  then show ?case by (simp add: same_node_def)
next
  case (Cons t ts)
  obtain a where a: "map_of (configured s) (trim t) = Some a"
    using Cons.prems(1) by (cases "map_of (configured s) (trim t)") simp_all
  let ?x = "if a \<notin> set (appenders x) then x\<lparr>appenders := set_insert a (appenders x), ownsMap := map_assign a False (ownsMap x)\<rparr> else x"
  let ?s1 = "s\<lparr>logsys := (logsys s)\<lparr>cats := (cats (logsys s))(c \<mapsto> ?x)\<rparr>\<rparr>"
  have id: "(logsys s)\<lparr>cats := (cats (logsys s))(c \<mapsto> x)\<rparr> = logsys s" using Cons.prems(3) by (simp add: fun_upd_idem)
  have "addAppender False c (Ptr a) (logsys s) = Inr (None, logsys ?s1)"
    using Cons.prems(3) id by (auto simp: addAppender_def)
  then have 1: "attach_loop c nm ts ?s1 = Inr (Inr (), s')"
    using Cons.prems(1) a by (auto simp: cfg_inv)
  have 2: "hier_ok (logsys ?s1)" using hier_ok_upd [OF Cons.prems(2,3), of ?x] by simp
  have 3: "cats (logsys ?s1) c = Some ?x" by simp
  have 4: "borrows ?x" using Cons.prems(4) by (auto simp: borrows_def owns_def map_of_assign)
  have sn: "same_node x ?x" by (simp add: same_node_def)
  have st: "set (appenders ?x) = insert a (set (appenders x))" by (auto simp: set_insert_def set_insort_key)
  obtain y where y: "cats (logsys s') c = Some y" "same_node ?x y" "borrows y"
    "set (appenders y) = set (appenders ?x) \<union> {a. \<exists>t \<in> set ts. map_of (configured s) (trim t) = Some a}"
    using Cons.IH [OF 1 2 3 4] by auto
  have "set (appenders y) = set (appenders x) \<union> {a. \<exists>t \<in> set (t # ts). map_of (configured s) (trim t) = Some a}"
    using y(4) a unfolding st by auto
  moreover have "same_node x y" using sn y(2) by (simp add: same_node_def)
  ultimately show ?case using Cons.IH [OF 1 2 3 4] y(1,3) by auto
qed

lemma priority_set:
  assumes "hier_ok l" and "cats l c = Some x" and "map_of (categoryMap l) nm = Some c" and "setPriority c p l = Inr (None, l')"
  shows "hier_ok l' \<and> categoryMap l' = categoryMap l \<and> cats l' c = Some (x\<lparr>prio := p\<rparr>)"
  using setPriority_ok [OF assms(1,3,4)] assms(2,4) by (auto simp: setPriority_def split: if_splits)

lemma additivity_set:
  assumes "hier_ok l" and "cats l c = Some x" and "setAdditivity c b l = Inr l'"
  shows "hier_ok l' \<and> categoryMap l' = categoryMap l \<and> cats l' c = Some (x\<lparr>additive := b\<rparr>)"
  using hier_ok_upd [OF assms(1,2), of "x\<lparr>additive := b\<rparr>"] assms(2,3) by (auto simp: setAdditivity_def)

lemma appenders_removed:
  assumes "hier_ok l" and "cats l c = Some x" and "removeAllAppenders c l = Inr l'"
  shows "hier_ok l' \<and> categoryMap l' = categoryMap l \<and> cats l' c = Some (x\<lparr>ownsMap := [], appenders := []\<rparr>)"
proof -
  obtain l1 where l1: "deleteAllAppendersWOLock (List.filter (owns x) (appenders x)) l = Inr l1"
    "l' = l1\<lparr>cats := (cats l1)(c \<mapsto> x\<lparr>ownsMap := [], appenders := []\<rparr>)\<rparr>"
    using assms(2,3) by (auto simp: removeAllAppenders_def delete_owned_filter bindR_eq_Inr)
  note F = deleteAll_frame(2) [OF l1(1)]
  have "cats l1 c = Some x" using F assms(2) by simp
  then show ?thesis
    using hier_ok_upd [OF hier_ok_delete [OF assms(1) l1(1)], of c x "x\<lparr>ownsMap := [], appenders := []\<rparr>"] F l1(2) by simp
qed

text \<open>The key of a category and the name it has in the tree.\<close>

definition category_key :: "string \<Rightarrow> string" where
  "category_key nm = (if nm = ''rootCategory'' then nm else ''category.'' @ nm)"

definition tree_name :: "string \<Rightarrow> string" where
  "tree_name nm = (if nm = ''rootCategory'' then [] else nm)"

text \<open>
  C34. A category that is configured without an exception has, in a consistent tree, the priority and
  the additivity of its properties, and exactly the appenders its line names, none of which it owns:
  the configured appenders are never deleted by a shutdown.
\<close>

theorem category_configured:
  assumes "hier_ok (logsys s)" and "configureCategory nm s = Inr (Inr (), s')"
  shows "\<exists>v c x. map_of (properties s) (category_key nm) = Some v \<and>
    hier_ok (logsys s') \<and> map_of (categoryMap (logsys s')) (tree_name nm) = Some c \<and> cats (logsys s') c = Some x \<and>
    priority_token nm (fst (split v CHR '','' INT_MAX)) = Inr (prio x) \<and>
    additive x = getBool (properties s) (''additivity.'' @ nm) True \<and>
    set (appenders x) = {a. \<exists>t \<in> set (tl (fst (split v CHR '','' INT_MAX))). map_of (configured s) (trim t) = Some a} \<and>
    (\<forall>a. \<not> owns x a)"
proof -
  obtain v where v: "map_of (properties s) (category_key nm) = Some v"
    using assms(2) by (cases "map_of (properties s) (category_key nm)") (simp_all add: configureCategory_def category_key_def)
  let ?tokens = "fst (split v CHR '','' INT_MAX)"
  obtain c l1 where g: "getInstance (tree_name nm) (logsys s) = (c, l1)" by force
  note I = getInstance_inv [OF assms(1) g]
  have gi: "(if nm = ''rootCategory'' then getRoot (logsys s) else getInstance nm (logsys s)) = (c, l1)"
    using g by (auto simp: tree_name_def getRoot_def)
  obtain p where p: "priority_token nm ?tokens = Inr p"
    using assms(2) v gi
    by (cases "priority_token nm ?tokens") (auto simp: configureCategory_def category_key_def [symmetric] cfg_inv)
  obtain l2 l3 l4 where l2: "setPriority c p l1 = Inr (None, l2)"
    and l3: "setAdditivity c (getBool (properties s) (''additivity.'' @ nm) True) l2 = Inr l3"
    and l4: "removeAllAppenders c l3 = Inr l4"
    and at: "attach_loop c nm (tl ?tokens) (s\<lparr>logsys := l4\<rparr>) = Inr (Inr (), s')"
    using assms(2) v gi p by (auto simp: configureCategory_def category_key_def [symmetric] cfg_inv split: option.splits)
  obtain x1 where x1: "cats l1 c = Some x1" using hier_ok_node [of l1 "tree_name nm" c] I by (auto simp: node_ok_def)
  note P = priority_set [OF _ x1 _ l2]
  have h2: "hier_ok l2" "categoryMap l2 = categoryMap l1" "cats l2 c = Some (x1\<lparr>prio := p\<rparr>)" using P I by auto
  note A = additivity_set [OF h2(1,3) l3]
  note R = appenders_removed [OF _ _ l4]
  let ?x4 = "x1\<lparr>prio := p, additive := getBool (properties s) (''additivity.'' @ nm) True, ownsMap := [], appenders := []\<rparr>"
  have h4: "hier_ok l4" "categoryMap l4 = categoryMap l1" "cats l4 c = Some ?x4" using R A h2(2) by auto
  have "borrows ?x4" by (simp add: borrows_def owns_def)
  then obtain y where y: "hier_ok (logsys s')" "categoryMap (logsys s') = categoryMap l1" "cats (logsys s') c = Some y"
    "same_node ?x4 y" "borrows y"
    "set (appenders y) = {a. \<exists>t \<in> set (tl ?tokens). map_of (configured s) (trim t) = Some a}"
    using attach_loop_spec [OF at, of ?x4] h4 by auto
  then show ?thesis using v p I by (intro exI [of _ v] exI [of _ c] exI [of _ y]) (simp add: same_node_def borrows_def)
qed

definition sample_conf :: pconf where
  "sample_conf = \<lparr>logsys = sample_logs, calls = (\<lambda>_. None), layouts = (\<lambda>_. None), configured = [(''x'', 0)],
     properties = [(''rootCategory'', ''INFO, x'')]\<rparr>"

theorem category_configured_witness:
  "\<exists>s' c x. configureCategory ''rootCategory'' sample_conf = Inr (Inr (), s') \<and>
     map_of (categoryMap (logsys s')) [] = Some c \<and> cats (logsys s') c = Some x \<and> set (appenders x) = {0}"
proof -
  have s: "fst (split ''INFO, x'' CHR '','' INT_MAX) = [''INFO'', '' x'']"
    by (simp add: split_def split_loop.simps find_from_def INT_MAX_def)
  have t: "trim ''INFO'' = ''INFO''" "trim '' x'' = ''x''" by (simp_all add: trim_def find_last_not_of_def)
  have p: "getPriorityValue ''INFO'' = Inr 600" by (simp add: getPriorityValue_def names_def)
  have "\<exists>s'. configureCategory ''rootCategory'' sample_conf = Inr (Inr (), s')"
    by (simp add: configureCategory_def sample_conf_def priority_token_def s t p bindC_def getC_def logsC_def logsC_unit_def
        retC_def throwC_def sample_logs_eq getRoot_def getInstance.simps getExistingInstance_def setPriority_def level_def
        Category_new_def setAdditivity_def removeAllAppenders_def owns_def addAppender_def Let_def)
  then obtain s' where s': "configureCategory ''rootCategory'' sample_conf = Inr (Inr (), s')" by blast
  have "hier_ok (logsys sample_conf)" using sample_ok by (simp add: sample_conf_def)
  from category_configured [OF this s'] obtain v c x where "map_of (properties sample_conf) (category_key ''rootCategory'') = Some v"
    "map_of (categoryMap (logsys s')) (tree_name ''rootCategory'') = Some c" "cats (logsys s') c = Some x"
    "set (appenders x) = {a. \<exists>t \<in> set (tl (fst (split v CHR '','' INT_MAX))). map_of (configured sample_conf) (trim t) = Some a}"
    by blast
  moreover from this(1) have "v = ''INFO, x''" by (simp add: sample_conf_def category_key_def)
  ultimately show ?thesis using s' by (intro exI [of _ s'] exI [of _ c] exI [of _ x]) (simp add: s t tree_name_def, auto simp: sample_conf_def)
qed

subsection \<open>Names of appenders\<close>

definition conf_of :: "props \<Rightarrow> pconf" where
  "conf_of ps = \<lparr>logsys = logs0, calls = (\<lambda>_. None), layouts = (\<lambda>_. None), configured = [], properties = ps\<rparr>"

definition clash_props :: "string \<Rightarrow> string \<Rightarrow> props" where
  "clash_props a b =
     map_insert (''appender.'' @ a) ''ConsoleAppender'' (map_insert (''appender.'' @ a @ ''.layout'') ''BasicLayout''
       (map_insert (''appender.'' @ b) ''ConsoleAppender'' (map_insert (''appender.'' @ b @ ''.layout'') ''BasicLayout'' [])))"

lemma clash_props_eq:
  "clash_props ''A'' ''A-b'' = [(''appender.A'', ''ConsoleAppender''), (''appender.A-b'', ''ConsoleAppender''),
     (''appender.A-b.layout'', ''BasicLayout''), (''appender.A.layout'', ''BasicLayout'')]"
  "clash_props ''A'' ''B'' = [(''appender.A'', ''ConsoleAppender''), (''appender.A.layout'', ''BasicLayout''),
     (''appender.B'', ''ConsoleAppender''), (''appender.B.layout'', ''BasicLayout'')]"
  by (simp_all add: clash_props_def less_char_def)

lemma split_keys:
  "fst (split ''appender.A'' CHR ''.'' INT_MAX) = [''appender'', ''A'']"
  "fst (split ''appender.A.layout'' CHR ''.'' INT_MAX) = [''appender'', ''A'', ''layout'']"
  "fst (split ''appender.B'' CHR ''.'' INT_MAX) = [''appender'', ''B'']"
  "fst (split ''appender.B.layout'' CHR ''.'' INT_MAX) = [''appender'', ''B'', ''layout'']"
  "fst (split ''appender.A-b'' CHR ''.'' INT_MAX) = [''appender'', ''A-b'']"
  "fst (split ''appender.A-b.layout'' CHR ''.'' INT_MAX) = [''appender'', ''A-b'', ''layout'']"
  by (simp_all add: split_def split_loop.simps find_from_def INT_MAX_def)

lemma console_instantiated:
  assumes "map_of (properties s) (''appender.'' @ nm) = Some ''ConsoleAppender''"
    and "map_of (properties s) (''appender.'' @ nm @ ''.layout'') = Some ''BasicLayout''"
    and "map_of (properties s) (''appender.'' @ nm @ ''.target'') = None"
    and "map_of (properties s) (''appender.'' @ nm @ ''.threshold'') = None"
  shows "\<exists>a s1. instantiateAppender j jp nm s = Inr (Inr a, s1) \<and> properties s1 = properties s"
proof -
  have c: "class_of ''ConsoleAppender'' = ''ConsoleAppender''" "class_of ''BasicLayout'' = ''BasicLayout''"
    by (simp_all add: class_of_def find_last_def)
  have l: "to_lower CHR ''s'' = CHR ''s''" "to_lower CHR ''t'' = CHR ''t''" "to_lower CHR ''d'' = CHR ''d''"
    "to_lower CHR ''o'' = CHR ''o''" "to_lower CHR ''u'' = CHR ''u''" by (simp_all add: to_lower_def)
  show ?thesis
    using assms by (simp add: instantiateAppender_def appender_of_type_def c l getString_def Let_def bindC_def getC_def new_appender_def
        requiresLayout_def setLayout_def put_layout_def retC_def split_beta)
qed

text \<open>A key of a new appender, and a key of the current one.\<close>

lemma new_key:
  assumes "fst (split key CHR ''.'' INT_MAX) = [''appender'', nm]" and "nm \<noteq> cur"
    and "properties s = clash_props ''A'' b"
    and "b = ''B'' \<and> (nm = ''A'' \<or> nm = ''B'') \<or> b = ''A-b'' \<and> (nm = ''A'' \<or> nm = ''A-b'')"
  shows "\<exists>s1. appender_loop j jp cur (key # keys) s = appender_loop j jp nm keys s1 \<and> properties s1 = properties s"
proof -
  have "\<exists>a s1. instantiateAppender j jp nm s = Inr (Inr a, s1) \<and> properties s1 = properties s"
    using assms(3,4) by (intro console_instantiated) (auto simp: clash_props_eq)
  then show ?thesis using assms(1,2) by (auto simp: bindC_def put_configured_def)
qed

lemma own_key:
  "fst (split key CHR ''.'' INT_MAX) = [''appender'', cur, r] \<Longrightarrow>
   appender_loop j jp cur (key # keys) s = appender_loop j jp cur keys s"
  by simp

lemma partial_key:
  "fst (split key CHR ''.'' INT_MAX) = [''appender'', nm, r] \<Longrightarrow> nm \<noteq> cur \<Longrightarrow>
   appender_loop j jp cur (key # keys) s = throwC (''partial appender definition : '' @ key) s"
  by simp

lemma clash_keys:
  "keys_from ''appender.'' ''appender/'' (clash_props ''A'' ''A-b'') =
     [''appender.A'', ''appender.A-b'', ''appender.A-b.layout'', ''appender.A.layout'']"
  "keys_from ''appender.'' ''appender/'' (clash_props ''A'' ''B'') =
     [''appender.A'', ''appender.A.layout'', ''appender.B'', ''appender.B.layout'']"
  by (simp_all add: keys_from_def lower_bound_def clash_props_eq less_char_def)

lemma instantiate_conf_of:
  "instantiateAllAppenders j jp (conf_of ps) =
     appender_loop j jp [] (keys_from ''appender.'' ''appender/'' ps) (conf_of ps)"
  by (simp add: instantiateAllAppenders_def conf_of_def)

text \<open>
  Two well-defined appenders are accepted or rejected by their names: \<open>A\<close> and \<open>B\<close> are
  instantiated, but beside \<open>A-b\<close> the definition of \<open>A\<close> counts as partial, because the keys of
  \<open>A-b\<close> come between the keys of \<open>A\<close>.
\<close>

theorem appender_name_order:
  "(\<exists>s. instantiateAllAppenders j jp (conf_of (clash_props ''A'' ''B'')) = Inr (Inr (), s)) \<and>
   (\<exists>s. instantiateAllAppenders j jp (conf_of (clash_props ''A'' ''A-b'')) =
     Inr (Inl ''partial appender definition : appender.A.layout'', s))"
proof
  let ?s = "conf_of (clash_props ''A'' ''B'')"
  have p: "properties ?s = clash_props ''A'' ''B''" by (simp only: conf_of_def pconf.simps)
  have n: "''A'' \<noteq> []" "''B'' \<noteq> ''A''" by simp_all
  obtain s1 where s1: "instantiateAllAppenders j jp ?s =
      appender_loop j jp ''A'' [''appender.A.layout'', ''appender.B'', ''appender.B.layout''] s1" "properties s1 = properties ?s"
    using new_key [OF split_keys(1) n(1) p, of j jp "[''appender.A.layout'', ''appender.B'', ''appender.B.layout'']"]
    unfolding instantiate_conf_of clash_keys by blast
  obtain s2 where "appender_loop j jp ''A'' [''appender.B'', ''appender.B.layout''] s1 =
      appender_loop j jp ''B'' [''appender.B.layout''] s2"
    using new_key [OF split_keys(3) n(2) s1(2) [unfolded p], of j jp "[''appender.B.layout'']"] by blast
  then show "\<exists>s. instantiateAllAppenders j jp ?s = Inr (Inr (), s)"
    unfolding s1(1) own_key [OF split_keys(2)] own_key [OF split_keys(4)] by (simp only: own_key [OF split_keys(4)]) simp
next
  let ?s = "conf_of (clash_props ''A'' ''A-b'')"
  have p: "properties ?s = clash_props ''A'' ''A-b''" by (simp only: conf_of_def pconf.simps)
  have n: "''A'' \<noteq> []" "''A-b'' \<noteq> ''A''" "''A'' \<noteq> ''A-b''" by simp_all
  obtain s1 where s1: "instantiateAllAppenders j jp ?s =
      appender_loop j jp ''A'' [''appender.A-b'', ''appender.A-b.layout'', ''appender.A.layout''] s1" "properties s1 = properties ?s"
    using new_key [OF split_keys(1) n(1) p, of j jp "[''appender.A-b'', ''appender.A-b.layout'', ''appender.A.layout'']"]
    unfolding instantiate_conf_of clash_keys by blast
  obtain s2 where s2: "appender_loop j jp ''A'' [''appender.A-b'', ''appender.A-b.layout'', ''appender.A.layout''] s1 =
      appender_loop j jp ''A-b'' [''appender.A-b.layout'', ''appender.A.layout''] s2"
    using new_key [OF split_keys(5) n(2) s1(2) [unfolded p], of j jp "[''appender.A-b.layout'', ''appender.A.layout'']"] by blast
  show "\<exists>s. instantiateAllAppenders j jp ?s = Inr (Inl ''partial appender definition : appender.A.layout'', s)"
    unfolding s1(1) s2 own_key [OF split_keys(6)] partial_key [OF split_keys(2) n(3)] by (simp add: throwC_def)
qed

text \<open>
  The facility of a syslog appender without one is -8: the default -1 is multiplied by 8 before the
  constructor compares it with -1.
\<close>

lemma default_facility:
  "map_of ps (''appender.'' @ nm @ ''.facility'') = None \<Longrightarrow>
   \<exists>name host port. appender_of_type ps nm ''SyslogAppender'' = Inr (Inr (RemoteSyslogCall name host (- 8) port)) \<and>
     facility (RemoteSyslogAppender_new N name host (- 8) port) = - 8"
  by (simp add: appender_of_type_def facility_of_def getInt_def Let_def is_int_def RemoteSyslogAppender_new_def remote_open_def
      split: option.split)

end
