(* ===== verification/SimpleConfig.thy ===== *)
theory SimpleConfig
  imports PropertyConfig
begin

text \<open>
  \<^verbatim>\<open>src/git/log4cpp/src/SimpleConfigurator.cpp\<close>: the logging system built from a text of commands,
  as for Linux with \<open>syslog\<close>. The steps are those of \<^verbatim>\<open>PropertyConfig\<close>, on the same state.
\<close>

subsection \<open>The stream\<close>

text \<open>
  The characters left and whether the stream is good. At the end of the text every extraction fails, so
  \<open>eofbit\<close> needs no place of its own; a stream that has failed fails for good.
\<close>

type_synonym cmd_stream = "string \<times> bool"

definition read_word :: "cmd_stream \<Rightarrow> string option \<times> cmd_stream" where
  "read_word st =
     (let t = dropWhile is_space (fst st) in
      if snd st \<and> t \<noteq> [] then (Some (takeWhile (\<lambda>c. \<not> is_space c) t), dropWhile (\<lambda>c. \<not> is_space c) t, True)
      else (None, fst st, False))"

definition read_number :: "(string \<Rightarrow> 'a \<times> string \<times> bool) \<Rightarrow> cmd_stream \<Rightarrow> 'a option \<times> cmd_stream" where
  "read_number ext st =
     (if snd st then (case ext (fst st) of (v, r, fail) \<Rightarrow> if fail then (None, r, False) else (Some v, r, True))
      else (None, st))"

definition skip_line :: "cmd_stream \<Rightarrow> cmd_stream" where
  "skip_line st = (drop 1 (dropWhile (\<lambda>c. c \<noteq> nl_char) (fst st)), snd st \<and> fst st \<noteq> [])"

text \<open>\<open>ws\<close> and \<open>getline(pattern, 1000)\<close>; a line that is not read leaves the empty string.\<close>

definition read_pattern :: "cmd_stream \<Rightarrow> string \<times> cmd_stream" where
  "read_pattern st =
     (let t = dropWhile is_space (fst st); l = takeWhile (\<lambda>c. c \<noteq> nl_char) t in
      if \<not> snd st \<or> t = [] then ([], t, False)
      else if length l \<le> 999 then (c_str l, drop (Suc (length l)) t, True)
      else (c_str (take 999 t), drop 999 t, False))"

subsection \<open>Commands\<close>

definition missing :: "string \<Rightarrow> string \<Rightarrow> string" where
  "missing what catName = ''Missing '' @ what @ '' for category: '' @ catName"

text \<open>Reading on with what is needed, or the text of the exception.\<close>

definition needed ::
  "('a option \<times> cmd_stream) \<Rightarrow> string \<Rightarrow> ('a \<Rightarrow> cmd_stream \<Rightarrow> ((string + 'b) \<times> cmd_stream) res) \<Rightarrow> ((string + 'b) \<times> cmd_stream) res" where
  "needed r err f = (case r of (None, st) \<Rightarrow> Inr (Inl err, st) | (Some v, st) \<Rightarrow> f v st)"

definition read_appender :: "string \<Rightarrow> string \<Rightarrow> cmd_stream \<Rightarrow> ((string + appender_call) \<times> cmd_stream) res" where
  "read_appender catName nm st =
     (let noFile = missing ''filename for log file logging configuration file'' catName in
      if nm = ''file'' then
        needed (read_word st) noFile (\<lambda>f st1. Inr (Inr (FileCall f True), st1))
      else if nm = ''rolling'' then
        needed (read_word st) noFile (\<lambda>f st1.
        needed (read_number extract_size st1) (missing ''maximum size for log file logging configuration file'' catName) (\<lambda>n st2.
        needed (read_number extract_u32 st2) (missing ''maximum backup index for log file logging configuration file'' catName) (\<lambda>k st3.
          Inr (Inr (RollingCall f n k True), st3))))
      else if nm = ''dailyrolling'' then
        needed (read_word st) noFile (\<lambda>f st1.
        needed (read_number extract_u32 st1) (missing ''maximum keep days for log file logging configuration file'' catName) (\<lambda>k st2.
          Inr (Inr (DailyCall f k True), st2)))
      else if nm = ''console'' then Inr (Inr (ConsoleCall False), st)
      else if nm = ''stdout'' then Inr (Inr (DescriptorCall False), st)
      else if nm = ''stderr'' then Inr (Inr (DescriptorCall True), st)
      else if nm = ''syslog'' then
        needed (read_word st) (missing ''syslogname for SysLogAppender'' catName) (\<lambda>s st1.
          case read_number extract_int st1 of
            (None, st2) \<Rightarrow> Inr (Inr (SyslogCall s LOG_USER), st2)
          | (Some f, st2) \<Rightarrow> if is_int (f * 8) then Inr (Inr (SyslogCall s (f * 8)), st2) else Inl SignedOverflow)
      else if nm = ''remotesyslog'' then
        needed (read_word st) (missing ''syslogname for SysLogAppender'' catName) (\<lambda>s st1.
        needed (read_word st1) (missing ''syslog host for SysLogAppender'' catName) (\<lambda>h st2.
          let (f, st3) = read_number extract_int st2; (p, st4) = read_number extract_int st3
          in Inr (Inr (RemoteSyslogCall s h (case f of None \<Rightarrow> LOG_USER | Some v \<Rightarrow> v) (case p of None \<Rightarrow> 514 | Some v \<Rightarrow> v)), st4)))
      else Inr (Inl (''Invalid appender name ('' @ nm @ '') in logging configuration file for category: '' @ catName), st))"

definition read_layout :: "char \<Rightarrow> int \<Rightarrow> string \<Rightarrow> nat \<Rightarrow> string \<Rightarrow> cmd_stream \<Rightarrow> cmd_stream cfg" where
  "read_layout junk junkp catName a layout st =
     (if layout = ''basic'' then bindC (put_layout a BasicLayout) (\<lambda>_. retC st)
      else if layout = ''simple'' then bindC (put_layout a SimpleLayout) (\<lambda>_. retC st)
      else if layout = ''pattern'' then
        (\<lambda>s. bindR (PatternLayout_new junk junkp) (\<lambda>l.
           let (pat, st1) = read_pattern st in
           bindR (setConversionPattern junk junkp pat l) (\<lambda>(e, l1).
             case e of None \<Rightarrow> bindC (put_layout a (PatternLayoutObj l1)) (\<lambda>_. retC st1) s | Some msg \<Rightarrow> throwC msg s)))
      else throwC (''Invalid layout ('' @ layout @ '') in logging configuration file for category: '' @ catName))"

definition appender_command :: "char \<Rightarrow> int \<Rightarrow> nat \<Rightarrow> string \<Rightarrow> cmd_stream \<Rightarrow> cmd_stream cfg" where
  "appender_command junk junkp c catName st =
     (case read_word st of
        (None, st1) \<Rightarrow> retC st1
      | (Some layout, st1) \<Rightarrow>
          (case read_word st1 of
             (None, st2) \<Rightarrow> retC st2
           | (Some nm, st2) \<Rightarrow>
               (\<lambda>s. bindR (read_appender catName nm st2) (\<lambda>(r, st3).
                  case r of
                    Inl e \<Rightarrow> throwC e s
                  | Inr call \<Rightarrow>
                      bindC (new_appender catName call) (\<lambda>a.
                      bindC (read_layout junk junkp catName a layout st3) (\<lambda>st4.
                      bindC (logsC (addAppender True c (Ptr a))) (\<lambda>_. retC st4))) s))))"

definition priority_command :: "nat \<Rightarrow> string \<Rightarrow> cmd_stream \<Rightarrow> cmd_stream cfg" where
  "priority_command c catName st =
     (case read_word st of
        (None, _) \<Rightarrow> throwC (''Missing priority in logging configuration file for category: '' @ catName)
      | (Some p, st1) \<Rightarrow>
          (let err = ''Invalid priority ('' @ p @ '') in logging configuration file for category: '' @ catName in
           case getPriorityValue p of
             Inl _ \<Rightarrow> throwC err
           | Inr v \<Rightarrow> bindC (logsC (setPriority c v)) (\<lambda>e. case e of None \<Rightarrow> retC st1 | Some _ \<Rightarrow> throwC err)))"

text \<open>One round of the loop; without a stream the loop ends.\<close>

definition next_command :: "char \<Rightarrow> int \<Rightarrow> cmd_stream \<Rightarrow> cmd_stream option cfg" where
  "next_command junk junkp st =
     (case read_word st of
        (None, _) \<Rightarrow> retC None
      | (Some command, st1) \<Rightarrow>
          if hd command = CHR ''#'' then retC (Some (skip_line st1))
          else
            (case read_word st1 of
               (None, _) \<Rightarrow> retC None
             | (Some catName, st2) \<Rightarrow>
                 bindC (logsC (\<lambda>l. Inr (if catName = ''root'' then getRoot l else getInstance catName l))) (\<lambda>c.
                   if command = ''appender'' then bindC (appender_command junk junkp c catName st2) (\<lambda>st3. retC (Some st3))
                   else if command = ''priority'' then bindC (priority_command c catName st2) (\<lambda>st3. retC (Some st3))
                   else if command = ''category'' then retC (Some st2)
                   else throwC (''Invalid format in logging configuration file. Command: '' @ command))))"

subsection \<open>The loop\<close>

lemma bindC_outcome:
  assumes "bindC m f s = Inr (r, s')"
  obtains (thrown) e where "m s = Inr (Inl e, s')" "r = Inl e"
    | (returned) x s1 where "m s = Inr (Inr x, s1)" "f x s1 = Inr (r, s')"
proof (cases "m s")
  case (Inr p)
  obtain v s1 where "p = (v, s1)" by (cases p)
  then show ?thesis using Inr assms that by (cases v) (auto simp: bindC_def)
qed (use assms in \<open>simp add: bindC_def\<close>)

lemma word_rest:
  "read_word st = (w, st1) \<Longrightarrow> length (fst st1) \<le> length (fst st)"
  "read_word st = (Some v, st1) \<Longrightarrow> length (fst st1) < length (fst st)"
proof -
  let ?t = "dropWhile is_space (fst st)"
  have 1: "length ?t \<le> length (fst st)" by (rule length_dropWhile_le)
  have 2: "length (dropWhile (\<lambda>c. \<not> is_space c) ?t) \<le> length ?t" by (rule length_dropWhile_le)
  show "read_word st = (w, st1) \<Longrightarrow> length (fst st1) \<le> length (fst st)"
    using 1 2 by (auto simp: read_word_def Let_def split: if_splits)
  assume a: "read_word st = (Some v, st1)"
  then obtain c r where c: "?t = c # r" "st1 = (dropWhile (\<lambda>c. \<not> is_space c) ?t, True)"
    by (cases ?t) (auto simp: read_word_def Let_def split: if_splits)
  have "\<not> is_space c" using c(1) by (metis dropWhile_eq_Cons_conv)
  then show "length (fst st1) < length (fst st)"
    using c 1 length_dropWhile_le [of "\<lambda>c. \<not> is_space c" r] by (simp del: length_dropWhile_le)
qed

lemma number_rest:
  "read_number extract_int st = (w1, st1) \<Longrightarrow> length (fst st1) \<le> length (fst st)"
  "read_number extract_size st = (w2, st1) \<Longrightarrow> length (fst st1) \<le> length (fst st)"
  "read_number extract_u32 st = (w3, st1) \<Longrightarrow> length (fst st1) \<le> length (fst st)"
  using extract_length [of "fst st"] by (auto simp: read_number_def split: if_splits prod.splits)

lemma skip_rest: "length (fst (skip_line st)) \<le> length (fst st)"
  using length_dropWhile_le [of "\<lambda>c. c \<noteq> nl_char" "fst st"] by (simp add: skip_line_def)

lemma pattern_rest: "read_pattern st = (p, st1) \<Longrightarrow> length (fst st1) \<le> length (fst st)"
  using length_dropWhile_le [of is_space "fst st"] by (auto simp: read_pattern_def Let_def split: if_splits)

lemma needed_eq_Inr:
  "needed r err f = Inr (v, st') \<longleftrightarrow>
   (r = (None, st') \<and> v = Inl err) \<or> (\<exists>x st. r = (Some x, st) \<and> f x st = Inr (v, st'))"
  by (cases r) (auto simp: needed_def split: option.splits)

lemma read_appender_rest:
  assumes "read_appender catName nm st = Inr (r, st')"
  shows "length (fst st') \<le> length (fst st)"
proof -
  have i: "length (fst (snd (read_number extract_int st1))) \<le> length (fst st1)" for st1
    using number_rest(1) [of st1] by (cases "read_number extract_int st1") auto
  consider "nm = ''syslog''" | "nm = ''remotesyslog''" | "nm \<noteq> ''syslog''" "nm \<noteq> ''remotesyslog''" by blast
  then show ?thesis
  proof cases
    case 1
    obtain w st1 where w: "read_word st = (w, st1)" by (rule prod.exhaust)
    obtain f st2 where f: "read_number extract_int st1 = (f, st2)" by (rule prod.exhaust)
    show ?thesis
      using assms 1 word_rest(1) [OF w] number_rest(1) [OF f] w f
      by (cases w; cases f) (auto simp: read_appender_def Let_def needed_def split: if_split_asm)
  next
    case 2
    then show ?thesis
      using assms by (auto simp: read_appender_def Let_def needed_eq_Inr split_beta
          dest!: word_rest(1) intro!: le_trans [OF i] le_trans [OF i [of "(_, _)"]])
  next
    case 3
    then show ?thesis
      using assms unfolding read_appender_def Let_def
      by (auto simp: needed_eq_Inr split: if_split_asm dest!: word_rest(1) number_rest)
  qed
qed

lemma read_layout_rest:
  assumes "read_layout junk junkp catName a layout st s = Inr (Inr st', s')"
  shows "length (fst st') \<le> length (fst st)"
  using assms pattern_rest [of st "fst (read_pattern st)" "snd (read_pattern st)"] unfolding read_layout_def
  by (auto simp: cfg_inv bindR_eq_Inr Let_def split_beta split: if_split_asm option.split_asm)

lemma appender_command_rest:
  assumes "appender_command junk junkp c catName st s = Inr (Inr st', s')"
  shows "length (fst st') \<le> length (fst st)"
proof -
  obtain w1 st1 where 1: "read_word st = (w1, st1)" by (rule prod.exhaust)
  obtain w2 st2 where 2: "read_word st1 = (w2, st2)" by (rule prod.exhaust)
  note le = word_rest(1) [OF 1] word_rest(1) [OF 2]
  show ?thesis
  proof (cases "w1 = None \<or> w2 = None")
    case True
    then show ?thesis using assms 1 2 le by (cases w1) (auto simp: appender_command_def)
  next
    case False
    then obtain layout nm r st3 where 3: "w1 = Some layout" "w2 = Some nm" "read_appender catName nm st2 = Inr (r, st3)"
      using assms 1 2 by (auto simp: appender_command_def bindR_eq_Inr)
    obtain call where "r = Inr call" using assms 1 2 3 by (cases r) (auto simp: appender_command_def)
    then obtain a s1 s2 where "read_layout junk junkp catName a layout st3 s1 = Inr (Inr st', s2)"
      using assms 1 2 3 by (auto simp: appender_command_def cfg_inv)
    then show ?thesis using read_layout_rest read_appender_rest [OF 3(3)] le by fastforce
  qed
qed

lemma priority_command_rest:
  assumes "priority_command c catName st s = Inr (Inr st', s')"
  shows "length (fst st') \<le> length (fst st)"
  using assms unfolding priority_command_def
  by (auto simp: cfg_inv Let_def split: option.split_asm prod.split_asm sum.split_asm dest!: word_rest(1))

lemma next_command_rest:
  assumes "next_command junk junkp st s = Inr (Inr (Some st'), s')"
  shows "length (fst st') < length (fst st)"
proof -
  obtain command st1 where 1: "read_word st = (Some command, st1)"
    using assms by (cases "read_word st") (auto simp: next_command_def split: option.splits)
  note less = word_rest(2) [OF 1]
  show ?thesis
  proof (cases "hd command = CHR ''#''")
    case True
    then show ?thesis using assms 1 less skip_rest [of st1] by (simp add: next_command_def)
  next
    case False
    then obtain catName st2 where 2: "read_word st1 = (Some catName, st2)"
      using assms 1 by (cases "read_word st1") (auto simp: next_command_def split: option.splits)
    have "length (fst st') \<le> length (fst st2)"
      using assms 1 2 False
      by (auto simp: next_command_def cfg_inv split: if_splits dest: appender_command_rest priority_command_rest)
    then show ?thesis using less word_rest(1) [OF 2] by simp
  qed
qed

function configure_from :: "char \<Rightarrow> int \<Rightarrow> cmd_stream \<Rightarrow> unit cfg" where
  "configure_from junk junkp st s =
     (case next_command junk junkp st s of
        Inl f \<Rightarrow> Inl f
      | Inr (Inl e, s1) \<Rightarrow> Inr (Inl e, s1)
      | Inr (Inr None, s1) \<Rightarrow> Inr (Inr (), s1)
      | Inr (Inr (Some st1), s1) \<Rightarrow> configure_from junk junkp st1 s1)"
  by pat_completeness auto
termination
  by (relation "measure (\<lambda>(junk, junkp, st, s). length (fst st))") (auto dest: next_command_rest)

declare configure_from.simps [simp del]

definition configure :: "char \<Rightarrow> int \<Rightarrow> string \<Rightarrow> unit cfg" where
  "configure junk junkp text = configure_from junk junkp (text, True)"

definition configure_file :: "char \<Rightarrow> int \<Rightarrow> (string \<Rightarrow> string option) \<Rightarrow> string \<Rightarrow> unit cfg" where
  "configure_file junk junkp files initFileName =
     (case files (c_str initFileName) of
        None \<Rightarrow> throwC (''Config File '' @ initFileName @ '' does not exist or is unreadable'')
      | Some text \<Rightarrow> configure junk junkp text)"

subsection \<open>Ownership\<close>

text \<open>Every owned appender is alive and owned by one category.\<close>

definition sole :: "logs \<Rightarrow> bool" where
  "sole l \<longleftrightarrow>
     (\<forall>c x. cats l c = Some x \<longrightarrow> distinct (appenders x) \<and> (\<forall>a \<in> set (appenders x). owns x a \<longrightarrow> apps l a \<noteq> None)) \<and>
     (\<forall>c d x y a. cats l c = Some x \<longrightarrow> cats l d = Some y \<longrightarrow> a \<in> set (appenders x) \<longrightarrow> owns x a \<longrightarrow>
        a \<in> set (appenders y) \<longrightarrow> owns y a \<longrightarrow> c = d)"

lemma sole_logs0: "sole logs0"
  by (simp add: sole_def logs0_def)

lemma distinct_concat_map:
  assumes "distinct cs" and "\<And>c. c \<in> set cs \<Longrightarrow> distinct (f c)"
    and "\<And>c d a. a \<in> set (f c) \<Longrightarrow> a \<in> set (f d) \<Longrightarrow> c = d"
  shows "distinct (concat (map f cs))"
  using assms(1,2)
proof (induction cs)
  case (Cons c cs)
  then have "c \<noteq> d" if "d \<in> set cs" for d using that by auto
  then have "set (f c) \<inter> set (f d) = {}" if "d \<in> set cs" for d using assms(3) that by blast
  then show ?case using Cons by auto
qed simp

lemma sole_owned:
  assumes "hier_ok l" and "sole l"
  shows "distinct (owned l)" and "set (owned l) \<subseteq> dom (apps l)"
proof -
  have o: "a \<in> set (owned_by l c) \<longleftrightarrow> (\<exists>x. cats l c = Some x \<and> a \<in> set (appenders x) \<and> owns x a)" for a c
    by (cases "cats l c") (auto simp: owned_by_def)
  have d: "distinct (owned_by l c)" for c using assms(2) by (auto simp: owned_by_def sole_def split: option.split)
  have u: "c = c'" if "a \<in> set (owned_by l c)" "a \<in> set (owned_by l c')" for a c c'
    using that assms(2) unfolding o sole_def by blast
  show "distinct (owned l)"
    unfolding owned_def using hier_ok_distinct(1) [OF assms(1)] d u by (rule distinct_concat_map)
  show "set (owned l) \<subseteq> dom (apps l)"
  proof
    fix a assume "a \<in> set (owned l)"
    then obtain c where "a \<in> set (owned_by l c)" by (auto simp: owned_def)
    then show "a \<in> dom (apps l)" using assms(2) unfolding o sole_def by blast
  qed
qed

lemma getInstance_new:
  assumes "getInstance nm s = (a, s')" and "cats s' c = Some x"
  shows "cats s c = Some x \<or> appenders x = []"
  using assms
proof (induction nm s arbitrary: a s' rule: getInstance.induct)
  case (1 nm s)
  have n: "cats s2 c = Some x \<or> appenders x = []" if "new_category nm p pr s2 = (a, s')" for p pr s2
    using that 1(3) by (auto simp: new_category_def Let_def Category_new_def split: if_splits)
  show ?case
  proof (cases "getExistingInstance nm s")
    case (Ptr b)
    then show ?thesis using 1(2,3) by (subst (asm) getInstance.simps) simp
  next
    case Null
    show ?thesis
    proof (cases "nm = []")
      case True
      then show ?thesis using 1(2) Null n by (subst (asm) getInstance.simps) simp
    next
      case False
      obtain pa s1 where g: "getInstance (parent_name nm) s = (pa, s1)" by force
      have "new_category nm (Ptr pa) (level NOTSET) s1 = (a, s')"
        using 1(2) Null False g by (subst (asm) getInstance.simps) simp
      then show ?thesis using n 1(1) [OF Null False g] by blast
    qed
  qed
qed

lemma soleI:
  assumes "\<And>c x. cats l c = Some x \<Longrightarrow> distinct (appenders x)"
    and "\<And>c x a. cats l c = Some x \<Longrightarrow> a \<in> set (appenders x) \<Longrightarrow> owns x a \<Longrightarrow> apps l a \<noteq> None"
    and "\<And>c d x y a. cats l c = Some x \<Longrightarrow> cats l d = Some y \<Longrightarrow> a \<in> set (appenders x) \<Longrightarrow> owns x a \<Longrightarrow>
        a \<in> set (appenders y) \<Longrightarrow> owns y a \<Longrightarrow> c = d"
  shows "sole l"
  using assms unfolding sole_def by blast

lemma soleD:
  assumes "sole l"
  shows "cats l c = Some x \<Longrightarrow> distinct (appenders x)"
    and "cats l c = Some x \<Longrightarrow> a \<in> set (appenders x) \<Longrightarrow> owns x a \<Longrightarrow> apps l a \<noteq> None"
    and "cats l c = Some x \<Longrightarrow> cats l d = Some y \<Longrightarrow> a \<in> set (appenders x) \<Longrightarrow> owns x a \<Longrightarrow>
        a \<in> set (appenders y) \<Longrightarrow> owns y a \<Longrightarrow> c = d"
  using assms unfolding sole_def by blast+

text \<open>A step that leaves the ownership of every category that has appenders, and frees no appender.\<close>

lemma sole_mono:
  assumes "sole l" and "\<And>a. apps l a \<noteq> None \<Longrightarrow> apps l' a \<noteq> None"
    and "\<And>c x. cats l' c = Some x \<Longrightarrow>
      appenders x = [] \<or> (\<exists>y. cats l c = Some y \<and> appenders x = appenders y \<and> owns x = owns y)"
  shows "sole l'"
proof (rule soleI)
  have origin: "\<exists>y. cats l c = Some y \<and> appenders x = appenders y \<and> owns x = owns y"
    if "cats l' c = Some x" "a \<in> set (appenders x)" for c x a
    using assms(3) [OF that(1)] that(2) by auto
  show "distinct (appenders x)" if "cats l' c = Some x" for c x
    using assms(3) [OF that] soleD(1) [OF assms(1)] by auto
  show "apps l' a \<noteq> None" if "cats l' c = Some x" "a \<in> set (appenders x)" "owns x a" for c x a
    using origin [OF that(1,2)] soleD(2) [OF assms(1), of c _ a] assms(2) that by auto
  show "c = d" if y: "cats l' c = Some x" "cats l' d = Some y" "a \<in> set (appenders x)" "owns x a"
    "a \<in> set (appenders y)" "owns y a" for c d x y a
  proof -
    obtain x0 where "cats l c = Some x0" "appenders x = appenders x0" "owns x = owns x0"
      using origin [OF y(1,3)] by blast
    moreover obtain y0 where "cats l d = Some y0" "appenders y = appenders y0" "owns y = owns y0"
      using origin [OF y(2,5)] by blast
    ultimately show ?thesis using soleD(3) [OF assms(1), of c x0 d y0 a] y by simp
  qed
qed

lemma sole_getInstance:
  assumes "hier_ok l" and "sole l" and "getInstance nm l = (c, l')"
  shows "sole l'"
proof (rule sole_mono [OF assms(2)])
  show "apps l' a \<noteq> None" if "apps l a \<noteq> None" for a using getInstance_inv [OF assms(1,3)] that by simp
  show "appenders x = [] \<or> (\<exists>y. cats l d = Some y \<and> appenders x = appenders y \<and> owns x = owns y)"
    if "cats l' d = Some x" for d x
    using getInstance_new [OF assms(3) that] by blast
qed

lemma sole_upd:
  assumes "sole l" and "cats l c = Some x" and "appenders x' = appenders x" and "ownsMap x' = ownsMap x"
  shows "sole (l\<lparr>cats := (cats l)(c \<mapsto> x')\<rparr>)"
proof (rule sole_mono [OF assms(1)])
  show "appenders y = [] \<or> (\<exists>z. cats l d = Some z \<and> appenders y = appenders z \<and> owns y = owns z)"
    if "cats (l\<lparr>cats := (cats l)(c \<mapsto> x')\<rparr>) d = Some y" for d y
    using that assms(2-4) by (cases "d = c") (auto simp: owns_def fun_eq_iff)
qed simp

lemma hier_ok_new:
  assumes "hier_ok l" and "Appender_new nm l = (a, l1)"
  shows "hier_ok l1" and "cats l1 = cats l" and "categoryMap l1 = categoryMap l" and "apps l a = None"
    and "\<And>b. apps l b \<noteq> None \<Longrightarrow> apps l1 b \<noteq> None" and "apps l1 a \<noteq> None"
proof -
  have a: "a = next_addr l" and l1: "cats l1 = cats l" "categoryMap l1 = categoryMap l" "next_addr l1 = Suc a"
    "\<exists>x. apps l1 = (apps l)(a \<mapsto> x)"
    using assms(2) by (auto simp: Appender_new_def Let_def)
  show "cats l1 = cats l" "categoryMap l1 = categoryMap l" by (rule l1)+
  show "apps l a = None" using assms(1) by (simp add: hier_ok_def a)
  show "apps l b \<noteq> None \<Longrightarrow> apps l1 b \<noteq> None" "apps l1 a \<noteq> None" for b using l1(4) by auto
  have "node_ok l nm b \<Longrightarrow> node_ok l1 nm b" for nm b using l1 a by (auto simp: node_ok_def)
  then show "hier_ok l1" using assms(1) l1 a by (auto simp: hier_ok_def)
qed

lemma sole_new:
  assumes "hier_ok l" and "sole l" and "Appender_new nm l = (a, l1)"
  shows "sole l1"
  using hier_ok_new(2,5) [OF assms(1,3)] by (intro sole_mono [OF assms(2)]) auto

lemma sole_attach:
  assumes "hier_ok l" and "sole l" and "Appender_new nm l = (a, l1)" and "addAppender True c (Ptr a) l1 = Inr (e, l2)"
  shows "hier_ok l2 \<and> sole l2 \<and> categoryMap l2 = categoryMap l"
proof -
  note N = hier_ok_new [OF assms(1,3)]
  obtain x where x: "cats l1 c = Some x" using assms(4) by (cases "cats l1 c") (simp_all add: addAppender_def)
  show ?thesis
  proof (cases "a \<in> set (appenders x)")
    case True
    then show ?thesis using assms(4) x N sole_new [OF assms(1-3)] by (simp add: addAppender_def)
  next
    case False
    let ?x = "x\<lparr>appenders := set_insert a (appenders x), ownsMap := map_assign a True (ownsMap x)\<rparr>"
    have l2: "l2 = l1\<lparr>cats := (cats l1)(c \<mapsto> ?x)\<rparr>" using assms(4) x False by (simp add: addAppender_def)
    have xl: "cats l c = Some x" using x N(2) by simp
    have o: "owns ?x b \<longleftrightarrow> b = a \<or> owns x b" for b by (auto simp: owns_def map_of_assign)
    have st: "set (appenders ?x) = insert a (set (appenders x))" "distinct (appenders ?x)"
      using assms(2) xl False by (auto simp: set_insert_def set_insort_key distinct_insort sole_def)
    have fresh: "\<not> owns y a \<or> a \<notin> set (appenders y)" if "cats l d = Some y" for d y
      using assms(2) N(4) that unfolding sole_def by blast
    have ap: "apps l2 = apps l1" by (simp add: l2)
    have cases_at: "(d = c \<and> y = ?x) \<or> (d \<noteq> c \<and> cats l d = Some y)" if "cats l2 d = Some y" for d y
      using that N(2) by (auto simp: l2 split: if_splits)
    have here: "d = c" if "cats l2 d = Some y" "a \<in> set (appenders y)" "owns y a" for d y
      using cases_at [OF that(1)] fresh that(2,3) by blast
    have old: "\<exists>z. cats l d = Some z \<and> b \<in> set (appenders z) \<and> owns z b"
      if "cats l2 d = Some y" "b \<in> set (appenders y)" "owns y b" "b \<noteq> a" for d y b
      using cases_at [OF that(1)] that(2-4) xl st(1) o by auto
    have "sole l2"
    proof (rule soleI)
      show "distinct (appenders y)" if "cats l2 d = Some y" for d y
        using cases_at [OF that] st(2) soleD(1) [OF assms(2)] by auto
      show "apps l2 b \<noteq> None" if y: "cats l2 d = Some y" "b \<in> set (appenders y)" "owns y b" for d y b
        unfolding ap using old [OF y] soleD(2) [OF assms(2), of d _ b] N(5,6) by (cases "b = a") blast+
      show "d = d'" if y: "cats l2 d = Some y" "cats l2 d' = Some y'" "b \<in> set (appenders y)" "owns y b"
        "b \<in> set (appenders y')" "owns y' b" for d d' y y' b
      proof (cases "b = a")
        case True
        then show ?thesis using here y by blast
      next
        case False
        obtain z where z: "cats l d = Some z" "b \<in> set (appenders z)" "owns z b" using old [OF y(1,3,4) False] by blast
        obtain z' where "cats l d' = Some z'" "b \<in> set (appenders z')" "owns z' b" using old [OF y(2,5,6) False] by blast
        then show ?thesis using soleD(3) [OF assms(2) z(1)] z(2,3) by blast
      qed
    qed
    moreover have "hier_ok l2" unfolding l2 by (rule hier_ok_upd [OF N(1) x]) simp_all
    ultimately show ?thesis using N(3) by (simp add: l2)
  qed
qed

definition owner_ok :: "logs \<Rightarrow> bool" where
  "owner_ok l \<longleftrightarrow> hier_ok l \<and> sole l"

lemma put_layout_outcome: "bindC (put_layout a x) (\<lambda>_. retC y) s = Inr (r, s') \<Longrightarrow> logsys s' = logsys s"
  by (auto simp: put_layout_def bindC_def retC_def)

lemma read_layout_logs:
  assumes "read_layout junk junkp catName a layout st s = Inr (r, s')"
  shows "logsys s' = logsys s"
  using assms unfolding read_layout_def
  by (auto simp: throwC_def Let_def bindR_eq_Inr split_beta split: if_split_asm option.split_asm
      dest: put_layout_outcome)

lemma appender_command_owner:
  assumes "owner_ok (logsys s)" and "appender_command junk junkp c catName st s = Inr (r, s')"
  shows "owner_ok (logsys s')"
proof -
  obtain w1 st1 where 1: "read_word st = (w1, st1)" by (rule prod.exhaust)
  obtain w2 st2 where 2: "read_word st1 = (w2, st2)" by (rule prod.exhaust)
  show ?thesis
  proof (cases "w1 = None \<or> w2 = None")
    case True
    then show ?thesis using assms 1 2 by (cases w1) (auto simp: appender_command_def retC_def)
  next
    case False
    then obtain layout nm v st3 where 3: "w1 = Some layout" "w2 = Some nm" "read_appender catName nm st2 = Inr (v, st3)"
      using assms 1 2 by (auto simp: appender_command_def bindR_eq_Inr)
    show ?thesis
    proof (cases v)
      case (Inl e)
      then show ?thesis using assms 1 2 3 by (simp add: appender_command_def throwC_def)
    next
      case (Inr call)
      obtain a l1 where n: "Appender_new catName (logsys s) = (a, l1)" by force
      let ?s1 = "s\<lparr>logsys := l1, calls := (calls s)(a \<mapsto> call)\<rparr>"
      have N: "new_appender catName call s = Inr (Inr a, ?s1)" by (simp add: new_appender_def n)
      have "bindC (read_layout junk junkp catName a layout st3) (\<lambda>st4. bindC (logsC (addAppender True c (Ptr a))) (\<lambda>_. retC st4)) ?s1 = Inr (r, s')"
        using assms(2) 1 2 3 Inr by (simp add: appender_command_def bindC_def [of "new_appender _ _"] N)
      then show ?thesis
      proof (cases rule: bindC_outcome)
        case (thrown e)
        have "logsys s' = l1" using read_layout_logs [OF thrown(1)] by simp
        then show ?thesis
          using assms(1) hier_ok_new(1) [OF _ n] sole_new [OF _ _ n] by (simp add: owner_ok_def)
      next
        case (returned st4 s2)
        have "logsys s2 = l1" using read_layout_logs [OF returned(1)] by simp
        then obtain x where "addAppender True c (Ptr a) l1 = Inr (x, logsys s')"
          using returned(2) by (auto simp: bindC_def logsC_def retC_def bindR_eq_Inr)
        then show ?thesis using sole_attach [OF _ _ n] assms(1) by (simp add: owner_ok_def)
      qed
    qed
  qed
qed

lemma priority_command_owner:
  assumes "owner_ok (logsys s)" and "map_of (categoryMap (logsys s)) nm = Some c"
    and "priority_command c catName st s = Inr (r, s')"
  shows "owner_ok (logsys s')"
proof -
  have set_ok: "owner_ok l'" if sp: "setPriority c v (logsys s) = Inr (e, l')" for v e l'
  proof -
    obtain x where x: "cats (logsys s) c = Some x"
      using sp by (cases "cats (logsys s) c") (simp_all add: setPriority_def)
    have "sole l'"
      using assms(1) sp x sole_upd [of "logsys s" c x "x\<lparr>prio := v\<rparr>"]
      by (auto simp: owner_ok_def setPriority_def split: if_splits)
    then show ?thesis using setPriority_ok(1) [OF _ assms(2) sp] assms(1) by (simp add: owner_ok_def)
  qed
  obtain w st1 where w: "read_word st = (w, st1)" by (rule prod.exhaust)
  show ?thesis
  proof (cases "\<exists>p v. w = Some p \<and> getPriorityValue p = Inr v")
    case False
    then show ?thesis
      using assms(1,3) w
      by (auto simp: priority_command_def throwC_def Let_def split: option.split_asm sum.split_asm)
  next
    case True
    then obtain p v where v: "w = Some p" "getPriorityValue p = Inr v" by blast
    obtain e l' where e: "setPriority c v (logsys s) = Inr (e, l')"
      using assms(3) w v by (cases "setPriority c v (logsys s)") (auto simp: priority_command_def bindC_def logsC_def Let_def)
    have "logsys s' = l'"
      using assms(3) w v e
      by (cases e) (auto simp: priority_command_def bindC_def logsC_def Let_def throwC_def retC_def)
    then show ?thesis using set_ok [OF e] by simp
  qed
qed

lemma next_command_owner:
  assumes "owner_ok (logsys s)" and "next_command junk junkp st s = Inr (r, s')"
  shows "owner_ok (logsys s')"
proof -
  obtain w1 st1 where 1: "read_word st = (w1, st1)" by (rule prod.exhaust)
  obtain w2 st2 where 2: "read_word st1 = (w2, st2)" by (rule prod.exhaust)
  show ?thesis
  proof (cases "\<exists>command catName. w1 = Some command \<and> hd command \<noteq> CHR ''#'' \<and> w2 = Some catName")
    case False
    then show ?thesis
      using assms 1 2 by (cases w1; cases w2) (auto simp: next_command_def retC_def split: if_split_asm)
  next
    case True
    then obtain command catName where w: "w1 = Some command" "hd command \<noteq> CHR ''#''" "w2 = Some catName" by blast
    let ?nm = "if catName = ''root'' then [] else catName"
    obtain c l1 where g: "getInstance ?nm (logsys s) = (c, l1)" by force
    have gi: "(if catName = ''root'' then getRoot (logsys s) else getInstance catName (logsys s)) = (c, l1)"
      using g by (auto simp: getRoot_def)
    let ?s1 = "s\<lparr>logsys := l1\<rparr>"
    have ok: "owner_ok (logsys ?s1)" "map_of (categoryMap (logsys ?s1)) ?nm = Some c"
      using assms(1) getInstance_inv [OF _ g] sole_getInstance [OF _ _ g] by (simp_all add: owner_ok_def)
    show ?thesis
      using assms(2) 1 2 w gi ok
      by (auto simp: next_command_def bindC_def [of "logsC _"] logsC_def retC_def throwC_def split: if_split_asm
          elim!: bindC_outcome dest: appender_command_owner [OF ok(1)] priority_command_owner [OF ok])
  qed
qed

lemma configure_owner:
  "configure_from junk junkp st s = Inr (r, s') \<Longrightarrow> owner_ok (logsys s) \<Longrightarrow> owner_ok (logsys s')"
proof (induction junk junkp st s arbitrary: r s' rule: configure_from.induct)
  case (1 junk junkp st s)
  obtain v s1 where n: "next_command junk junkp st s = Inr (v, s1)"
    using 1(2) by (subst (asm) configure_from.simps) (auto split: sum.split_asm)
  have ok: "owner_ok (logsys s1)" by (rule next_command_owner [OF 1(3) n])
  consider e where "v = Inl e" | "v = Inr None" | st1 where "v = Inr (Some st1)" by (metis sum.exhaust option.exhaust)
  then show ?case
  proof cases
    case 3
    have "configure_from junk junkp st1 s1 = Inr (r, s')"
      using 1(2) n 3 by (subst (asm) configure_from.simps) simp
    then show ?thesis using 1(1) [OF n _ 3] ok by simp
  qed (use 1(2) n ok in \<open>subst (asm) configure_from.simps, auto\<close>)+
qed

text \<open>
  C35. However a configuration ends, with or without an exception, and whatever its text, a shutdown
  afterwards is defined: it deletes every appender that a category owns, once, and no other.
\<close>

theorem simple_config_shutdown:
  assumes "hier_ok (logsys s)" and "sole (logsys s)" and "configure junk junkp cmds s = Inr (r, s')"
  shows "\<exists>l. shutdown [] (logsys s') = Inr l \<and> apps l = apps (logsys s') |` (- set (owned (logsys s'))) \<and>
    distinct (owned (logsys s'))"
proof -
  have ok: "hier_ok (logsys s')" "sole (logsys s')"
    using configure_owner assms by (simp_all add: configure_def owner_ok_def)
  show ?thesis using shutdown_owned [OF ok(1)] sole_owned [OF ok] by blast
qed

subsection \<open>A stream that has failed\<close>

definition word_chars :: "string \<Rightarrow> bool" where
  "word_chars w \<longleftrightarrow> w \<noteq> [] \<and> (\<forall>c \<in> set w. \<not> is_space c)"

definition blank_or_end :: "string \<Rightarrow> bool" where
  "blank_or_end r \<longleftrightarrow> r = [] \<or> is_space (hd r)"

definition number_next :: "string \<Rightarrow> bool" where
  "number_next r \<longleftrightarrow> (case dropWhile is_space r of [] \<Rightarrow> False | c # _ \<Rightarrow> is_digit c \<or> c = CHR ''-'' \<or> c = CHR ''+'')"

lemma read_word_chars:
  assumes "word_chars w" and "blank_or_end r"
  shows "read_word (w @ r, True) = (Some w, r, True)" and "read_word (CHR '' '' # w @ r, True) = (Some w, r, True)"
proof -
  have "dropWhile is_space (w @ r) = w @ r" using assms(1) by (cases w) (auto simp: word_chars_def)
  moreover have "takeWhile (\<lambda>c. \<not> is_space c) (w @ r) = w" "dropWhile (\<lambda>c. \<not> is_space c) (w @ r) = r"
    using assms by (cases r; simp add: word_chars_def blank_or_end_def takeWhile_append2 dropWhile_append2)+
  moreover have "is_space CHR '' ''" by (simp add: is_space_def)
  ultimately show "read_word (w @ r, True) = (Some w, r, True)" "read_word (CHR '' '' # w @ r, True) = (Some w, r, True)"
    using assms(1) by (simp_all add: read_word_def word_chars_def)
qed

lemma no_number:
  assumes "\<not> number_next r"
  shows "\<exists>z. read_number extract_int (r, True) = (None, z, False)"
proof -
  obtain neg x where x: "sign_of (dropWhile is_space r) = (neg, x)" by force
  have "x = [] \<or> \<not> is_digit (hd x)"
  proof (cases "dropWhile is_space r")
    case Nil
    show ?thesis using x unfolding Nil by (simp add: sign_of_def)
  next
    case (Cons c cs)
    show ?thesis using assms x unfolding number_next_def Cons by (auto simp: sign_of_def)
  qed
  then show ?thesis by (simp add: read_number_def extract_int_def x split_beta)
qed

lemma configure_failed: "configure_from junk junkp (z, False) s = Inr (Inr (), s)"
  by (subst configure_from.simps) (simp add: next_command_def read_word_def retC_def)

text \<open>What the line of an appender for the local syslog does.\<close>

definition syslog_step :: "string \<Rightarrow> string \<Rightarrow> unit cfg" where
  "syslog_step catName nm =
     bindC (logsC (\<lambda>l. Inr (if catName = ''root'' then getRoot l else getInstance catName l))) (\<lambda>c.
     bindC (new_appender catName (SyslogCall nm LOG_USER)) (\<lambda>a.
     bindC (put_layout a BasicLayout) (\<lambda>_.
     bindC (logsC (addAppender True c (Ptr a))) (\<lambda>_. retC ()))))"

lemma bindC_assoc: "bindC (bindC m f) g = bindC m (\<lambda>x. bindC (f x) g)"
  by (auto simp: bindC_def fun_eq_iff bindR_def split: sum.split)

lemma configure_step:
  assumes "next_command junk junkp st s = bindC m (\<lambda>_. retC (Some st1)) s"
  shows "configure_from junk junkp st s = bindC m (\<lambda>_. configure_from junk junkp st1) s"
  using assms by (subst configure_from.simps)
    (auto simp: bindC_def retC_def bindR_def split: sum.split prod.split)

lemma syslog_command:
  assumes "word_chars catName" and "word_chars nm" and "blank_or_end r" and "\<not> number_next r"
  shows "\<exists>z. next_command junk junkp (''appender '' @ catName @ '' basic syslog '' @ nm @ r, True) s =
    bindC (syslog_step catName nm) (\<lambda>_. retC (Some (z, False))) s"
proof -
  obtain z where z: "read_number extract_int (r, True) = (None, z, False)" using no_number [OF assms(4)] by blast
  have w: "word_chars ''appender''" "word_chars ''basic''" "word_chars ''syslog''" by (simp_all add: word_chars_def is_space_def)
  have b: "blank_or_end (CHR '' '' # x)" for x by (simp add: blank_or_end_def is_space_def)
  note W = read_word_chars(1) [OF w(1) b] read_word_chars(2) [OF assms(1) b] read_word_chars(2) [OF w(2) b]
    read_word_chars(2) [OF w(3) b] read_word_chars(2) [OF assms(2,3)]
  have c: "appender_command junk junkp c catName ('' basic syslog '' @ nm @ r, True) =
      bindC (new_appender catName (SyslogCall nm LOG_USER)) (\<lambda>a.
      bindC (put_layout a BasicLayout) (\<lambda>_.
      bindC (logsC (addAppender True c (Ptr a))) (\<lambda>_. retC (z, False))))" for c
    using W(3) [of "''syslog '' @ nm @ r"] W(4) [of "nm @ r"] W(5) z
    by (simp add: appender_command_def read_appender_def needed_def read_layout_def bindC_assoc)
  show ?thesis
    using W(1) [of "catName @ '' basic syslog '' @ nm @ r"] W(2) [of "''basic syslog '' @ nm @ r"]
    by (intro exI [of _ z]) (simp add: next_command_def c [simplified] syslog_step_def bindC_assoc)
qed

lemma configure_syslog:
  assumes "word_chars catName" and "word_chars nm" and "blank_or_end rest" and "\<not> number_next rest"
  shows "configure junk junkp (''appender '' @ catName @ '' basic syslog '' @ nm @ rest) s = syslog_step catName nm s"
proof -
  obtain z where "next_command junk junkp (''appender '' @ catName @ '' basic syslog '' @ nm @ rest, True) s =
    bindC (syslog_step catName nm) (\<lambda>_. retC (Some (z, False))) s"
    using syslog_command [OF assms] by blast
  moreover have "configure_from junk junkp (z, False) = retC ()" by (simp add: fun_eq_iff configure_failed retC_def)
  moreover have "bindC m (\<lambda>_. retC ()) s = m s" for m :: "unit cfg"
    by (auto simp: bindC_def retC_def bindR_def split: sum.split)
  ultimately show ?thesis using configure_step unfolding configure_def by metis
qed

text \<open>
  A syslog appender without a facility is configured for \<open>LOG_USER\<close>, and then the rest of the
  file is silently ignored: the number that could not be read has made the stream fail.
\<close>

theorem syslog_ends_configuration:
  assumes "word_chars catName" and "word_chars nm" and "blank_or_end rest" and "\<not> number_next rest"
  shows "configure junk junkp (''appender '' @ catName @ '' basic syslog '' @ nm @ rest) s = syslog_step catName nm s"
  using assms by (rule configure_syslog)

theorem syslog_ends_configuration_witness:
  "configure CHR ''x'' 0 (''appender root basic syslog s'' @ [nl_char] @ ''priority root DEBUG'') (conf_of []) =
   configure CHR ''x'' 0 ''appender root basic syslog s'' (conf_of [])"
proof -
  have w: "word_chars ''root''" "word_chars ''s''" by (simp_all add: word_chars_def is_space_def)
  have r: "blank_or_end ([nl_char] @ ''priority root DEBUG'')" "\<not> number_next ([nl_char] @ ''priority root DEBUG'')"
    "blank_or_end []" "\<not> number_next []"
    by (simp_all add: blank_or_end_def number_next_def nl_char_def is_space_def is_digit_def)
  show ?thesis
    using syslog_ends_configuration [OF w r(1,2), of "CHR ''x''" 0 "conf_of []"]
      syslog_ends_configuration [OF w r(3,4), of "CHR ''x''" 0 "conf_of []"] by simp
qed

theorem simple_config_shutdown_witness:
  "\<exists>s' l. configure CHR ''x'' 0 ''appender root basic syslog s'' (conf_of []) = Inr (Inr (), s') \<and>
     apps (logsys s') 1 \<noteq> None \<and> shutdown [] (logsys s') = Inr l \<and> apps l = apps (logsys s') |` (- set (owned (logsys s')))"
proof -
  have w: "word_chars ''root''" "word_chars ''s''" by (simp_all add: word_chars_def is_space_def)
  have r: "blank_or_end []" "\<not> number_next []" by (simp_all add: blank_or_end_def number_next_def)
  have c: "configure CHR ''x'' 0 ''appender root basic syslog s'' (conf_of []) = syslog_step ''root'' ''s'' (conf_of [])"
    using configure_syslog [OF w r, of "CHR ''x''" 0 "conf_of []"] by simp
  have "\<exists>s'. syslog_step ''root'' ''s'' (conf_of []) = Inr (Inr (), s') \<and> apps (logsys s') 1 \<noteq> None"
    by (simp add: syslog_step_def conf_of_def logs0_def bindC_def logsC_def new_appender_def Appender_new_def put_layout_def
        addAppender_def getRoot_def getInstance.simps getExistingInstance_def new_category_def Category_new_def retC_def Let_def)
  then obtain s' where s': "configure CHR ''x'' 0 ''appender root basic syslog s'' (conf_of []) = Inr (Inr (), s')"
    "apps (logsys s') 1 \<noteq> None" unfolding c by blast
  have "hier_ok (logsys (conf_of []))" "sole (logsys (conf_of []))" by (simp_all add: conf_of_def hier_ok_logs0 sole_logs0)
  from simple_config_shutdown [OF this s'(1)] show ?thesis using s' by blast
qed

end
