(* ===== verification/BasicConfig.thy ===== *)
theory BasicConfig
  imports SimpleConfig
begin

text \<open>
  \<^verbatim>\<open>src/git/log4cpp/src/BasicConfigurator.cpp\<close>: the default configuration, a root category with one
  appender on the standard output, which keeps the \<open>BasicLayout\<close> of its constructor.
\<close>

definition basic_configure :: "unit cfg" where
  "basic_configure =
     bindC (logsC (\<lambda>l. Inr (getRoot l))) (\<lambda>root.
     bindC (logsC (setPriority root (level INFO))) (\<lambda>_.
     bindC (logsC_unit (removeAllAppenders root)) (\<lambda>_.
     bindC (new_appender ''_'' (DescriptorCall False)) (\<lambda>a.
     bindC (logsC (addAppender True root (Ptr a))) (\<lambda>_. retC ())))))"

text \<open>A category whose owned appenders are alive can be emptied.\<close>

lemma sole_removeAll:
  assumes "hier_ok l" and "sole l" and "cats l c = Some x"
  shows "\<exists>l'. removeAllAppenders c l = Inr l' \<and> hier_ok l' \<and> sole l' \<and> categoryMap l' = categoryMap l \<and>
    cats l' = (cats l)(c \<mapsto> x\<lparr>ownsMap := [], appenders := []\<rparr>)"
proof -
  let ?as = "List.filter (owns x) (appenders x)"
  have "distinct ?as" "set ?as \<subseteq> dom (apps l)" using soleD(1,2) [OF assms(2,3)] by auto
  then obtain l1 where l1: "deleteAllAppendersWOLock ?as l = Inr l1" "apps l1 = apps l |` (- set ?as)"
    using deleteAll_defined [of ?as l] by auto
  have f: "cats l1 = cats l" "categoryMap l1 = categoryMap l" using deleteAll_frame(2) [OF l1(1)] by simp_all
  let ?x = "x\<lparr>ownsMap := [], appenders := []\<rparr>"
  let ?l = "l1\<lparr>cats := (cats l1)(c \<mapsto> ?x)\<rparr>"
  have r: "removeAllAppenders c l = Inr ?l" using assms(3) l1(1) by (simp add: removeAllAppenders_def delete_owned_filter)
  have origin: "d \<noteq> c \<and> cats l d = Some y" if "cats ?l d = Some y" "a \<in> set (appenders y)" for d y a
    using that f(1) by (auto split: if_splits)
  have "sole ?l"
  proof (rule soleI)
    show "distinct (appenders y)" if "cats ?l d = Some y" for d y
      using that f(1) soleD(1) [OF assms(2)] by (auto split: if_splits)
    show "apps ?l a \<noteq> None" if y: "cats ?l d = Some y" "a \<in> set (appenders y)" "owns y a" for d y a
    proof -
      have d: "d \<noteq> c" "cats l d = Some y" using origin [OF y(1,2)] by auto
      have "a \<notin> set ?as" using soleD(3) [OF assms(2) d(2) assms(3) y(2,3)] d(1) by auto
      then show ?thesis using soleD(2) [OF assms(2) d(2) y(2,3)] l1(2) by simp
    qed
    show "d = e" if y: "cats ?l d = Some y" "cats ?l e = Some z" "a \<in> set (appenders y)" "owns y a"
      "a \<in> set (appenders z)" "owns z a" for d e y z a
      using origin [OF y(1,3)] origin [OF y(2,5)] soleD(3) [OF assms(2) _ _ y(3,4,5,6)] by blast
  qed
  then show ?thesis using r f appenders_removed [OF assms(1,3) r] by (intro exI [of _ ?l]) simp
qed

text \<open>
  Configuring the defaults always succeeds, whatever was configured before: the root then has the
  priority INFO and exactly one appender, a new one on the standard output that it owns, and every
  appender still has one owner.
\<close>

theorem basic_configured:
  assumes "hier_ok (logsys s)" and "sole (logsys s)"
  shows "\<exists>s' c x a. basic_configure s = Inr (Inr (), s') \<and> map_of (categoryMap (logsys s')) [] = Some c \<and>
    cats (logsys s') c = Some x \<and> prio x = level INFO \<and> appenders x = [a] \<and> owns x a \<and>
    calls s' a = Some (DescriptorCall False) \<and> hier_ok (logsys s') \<and> sole (logsys s')"
proof -
  obtain c l1 where g: "getRoot (logsys s) = (c, l1)" by force
  then have gi: "getInstance [] (logsys s) = (c, l1)" by (simp add: getRoot_def)
  note I = getInstance_inv [OF assms(1) gi]
  have s1: "sole l1" by (rule sole_getInstance [OF assms gi])
  have "node_ok l1 [] c" using hier_ok_node [of l1 "[]" c] I by blast
  then obtain x where x: "cats l1 c = Some x" by (auto simp: node_ok_def)
  let ?x = "x\<lparr>prio := level INFO\<rparr>"
  let ?l2 = "l1\<lparr>cats := (cats l1)(c \<mapsto> ?x)\<rparr>"
  have p: "setPriority c (level INFO) l1 = Inr (None, ?l2)" using x by (simp add: setPriority_def level_def)
  have h2: "hier_ok ?l2" "sole ?l2" "cats ?l2 c = Some ?x"
    using priority_set [OF _ x _ p] sole_upd [OF s1 x, of ?x] I by auto
  obtain l3 where l3: "removeAllAppenders c ?l2 = Inr l3" "hier_ok l3" "sole l3" "categoryMap l3 = categoryMap l1"
    "cats l3 c = Some (?x\<lparr>ownsMap := [], appenders := []\<rparr>)"
    using sole_removeAll [OF h2] by auto
  obtain a l4 where n: "Appender_new ''_'' l3 = (a, l4)" by force
  note N = hier_ok_new [OF l3(2) n]
  let ?y = "?x\<lparr>appenders := [a], ownsMap := [(a, True)]\<rparr>"
  let ?l5 = "l4\<lparr>cats := (cats l4)(c \<mapsto> ?y)\<rparr>"
  have ad: "addAppender True c (Ptr a) l4 = Inr (None, ?l5)"
    using l3(5) N(2) by (simp add: addAppender_def set_insert_def)
  let ?s = "s\<lparr>logsys := ?l5, calls := (calls s)(a \<mapsto> DescriptorCall False)\<rparr>"
  have "basic_configure s = Inr (Inr (), ?s)"
    by (simp add: basic_configure_def bindC_def logsC_def logsC_unit_def g p l3(1) new_appender_def n ad retC_def)
  moreover have "hier_ok ?l5" "sole ?l5" using sole_attach [OF l3(2,3) n ad] by auto
  ultimately show ?thesis using I N(3) l3(4) by (intro exI [of _ ?s] exI [of _ c] exI [of _ ?y] exI [of _ a]) (simp add: owns_def)
qed

theorem basic_configured_witness:
  "\<exists>s' c x. basic_configure (conf_of []) = Inr (Inr (), s') \<and> map_of (categoryMap (logsys s')) [] = Some c \<and>
     cats (logsys s') c = Some x \<and> length (appenders x) = 1"
proof -
  have "hier_ok (logsys (conf_of []))" "sole (logsys (conf_of []))" by (simp_all add: conf_of_def hier_ok_logs0 sole_logs0)
  from basic_configured [OF this] show ?thesis by fastforce
qed

end
