(* ===== verification/MailSender.thy ===== *)
theory MailSender
  imports LogEvents
begin

text \<open>
  \<^verbatim>\<open>src/git/log4cpp/src/SmtpAppender.cpp\<close>: the appender that mails its events, with the thread
  that sends them. Every access to the list of mails is inside its mutex, so a step is one critical
  section or the code between two; the mail connection is a parameter.
\<close>

subsection \<open>Mails\<close>

record mail_params =
  mail_host :: string
  mail_from :: string
  mail_to :: string
  mail_subject :: string

type_synonym mail = "mail_params \<times> LoggingEvent"

definition crlf :: string where
  "crlf = [CHR 0x0D, CHR 0x0A]"

text \<open>What is written, one text after each line that is read.\<close>

definition mail_writes :: "mail \<Rightarrow> string list" where
  "mail_writes m =
     [''HELO test'' @ crlf,
      ''MAIL FROM:'' @ mail_from (fst m) @ crlf,
      ''RCPT TO:'' @ mail_to (fst m) @ crlf,
      ''DATA'' @ crlf,
      ''Subject: '' @ mail_subject (fst m) @ crlf @ ''Content-Transfer-Encoding: 8bit'' @ crlf @ crlf
        @ message (snd m) @ crlf @ ''.'' @ crlf,
      ''QUIT'' @ crlf]"

text \<open>
  \<open>net k\<close> tells whether the operation number \<open>k\<close> on the stream succeeds; one that fails throws, and
  the rest is left out.
\<close>

fun converse :: "(nat \<Rightarrow> bool) \<Rightarrow> nat \<Rightarrow> string list \<Rightarrow> string list" where
  "converse net k [] = []"
| "converse net k (w # ws) = (if net k \<and> net (k + 1) then w # converse net (k + 2) ws else [])"

definition talk :: "(nat \<Rightarrow> bool) \<Rightarrow> mail \<Rightarrow> string list" where
  "talk net m = (if net 0 then converse net 1 (mail_writes m) else [])"

subsection \<open>State\<close>

text \<open>
  Where the thread is: at the test of the loop, before its first critical section, waiting, woken from
  the wait, with the iterator before the connection (\<open>None\<close> is \<open>end()\<close>), before the erasure, and returned.
\<close>

datatype sender_pc = Testing | Locking | Blocked | Woken | Sending "nat option" | Erasing nat | Finished

text \<open>
  A node of the list keeps its identity, which an iterator names. \<open>posted\<close> and \<open>talks\<close> record what was
  given to \<open>send\<close> and what was said to mail servers.
\<close>

record sender =
  mails :: "(nat \<times> mail) list"
  next_node :: nat
  should_exit :: bool
  spc :: sender_pc
  deleted :: bool
  posted :: "mail list"
  talks :: "(mail \<times> string list) list"

definition sender_new :: sender where
  "sender_new = \<lparr>mails = [], next_node = 0, should_exit = False, spc = Testing, deleted = False, posted = [], talks = []\<rparr>"

definition notified :: "sender_pc \<Rightarrow> sender_pc" where
  "notified p = (if p = Blocked then Woken else p)"

definition mails_begin :: "sender \<Rightarrow> nat option" where
  "mails_begin s = (case mails s of [] \<Rightarrow> None | (n, _) # _ \<Rightarrow> Some n)"

subsection \<open>Operations\<close>

definition send :: "mail \<Rightarrow> sender \<Rightarrow> sender res" where
  "send m s =
     (if deleted s then Inl UseAfterFree
      else Inr (s\<lparr>mails := mails s @ [(next_node s, m)], next_node := next_node s + 1, spc := notified (spc s),
             posted := posted s @ [m]\<rparr>))"

definition smtp_append :: "mail_params \<Rightarrow> LoggingEvent \<Rightarrow> sender \<Rightarrow> sender res" where
  "smtp_append mp event s = send (mp, event) s"

text \<open>The critical section of \<open>shutdown\<close>, and what follows when the thread has ended.\<close>

definition shutdown_begin :: "sender \<Rightarrow> sender res" where
  "shutdown_begin s =
     (if deleted s then Inl UseAfterFree else Inr (s\<lparr>should_exit := True, spc := notified (spc s)\<rparr>))"

definition shutdown_end :: "sender \<Rightarrow> sender option" where
  "shutdown_end s = (if should_exit s \<and> spc s = Finished \<and> \<not> deleted s then Some (s\<lparr>deleted := True\<rparr>) else None)"

text \<open>The thread's next step; none when it waits or has returned.\<close>

definition thread_step :: "(nat \<Rightarrow> bool) \<Rightarrow> sender \<Rightarrow> sender res option" where
  "thread_step net s =
     (case spc s of
        Testing \<Rightarrow> Some (Inr (s\<lparr>spc := if should_exit s then Finished else Locking\<rparr>))
      | Locking \<Rightarrow>
          Some (Inr (s\<lparr>spc := if should_exit s \<and> mails s = [] then Finished
                    else if mails s = [] then Blocked else Sending (mails_begin s)\<rparr>))
      | Blocked \<Rightarrow> None
      | Woken \<Rightarrow> Some (Inr (s\<lparr>spc := if should_exit s \<and> mails s = [] then Finished else Sending (mails_begin s)\<rparr>))
      | Sending i \<Rightarrow>
          Some (case i of
              None \<Rightarrow> Inl OutOfBounds
            | Some n \<Rightarrow>
                (case map_of (mails s) n of
                   None \<Rightarrow> Inl UseAfterFree
                 | Some m \<Rightarrow> Inr (s\<lparr>talks := talks s @ [(m, talk net m)], spc := Erasing n\<rparr>)))
      | Erasing n \<Rightarrow> Some (Inr (s\<lparr>mails := List.filter (\<lambda>(k, _). k \<noteq> n) (mails s), spc := Testing\<rparr>))
      | Finished \<Rightarrow> None)"

subsection \<open>Runs\<close>

text \<open>\<open>Wake\<close> is a spurious wake-up. Shutting down begins once.\<close>

datatype event_label = Post mail | Shutdown | Join | Thread "nat \<Rightarrow> bool" | Wake

definition sender_step :: "event_label \<Rightarrow> sender \<Rightarrow> sender res option" where
  "sender_step l s =
     (case l of
        Post m \<Rightarrow> Some (send m s)
      | Shutdown \<Rightarrow> if should_exit s \<and> \<not> deleted s then None else Some (shutdown_begin s)
      | Join \<Rightarrow> map_option Inr (shutdown_end s)
      | Thread net \<Rightarrow> thread_step net s
      | Wake \<Rightarrow> if spc s = Blocked then Some (Inr (s\<lparr>spc := Woken\<rparr>)) else None)"

text \<open>A sequence of steps, each of them possible.\<close>

fun sender_run :: "event_label list \<Rightarrow> sender \<Rightarrow> sender res option" where
  "sender_run [] s = Some (Inr s)"
| "sender_run (l # ls) s =
     (case sender_step l s of
        None \<Rightarrow> None
      | Some (Inl f) \<Rightarrow> Some (Inl f)
      | Some (Inr s1) \<Rightarrow> sender_run ls s1)"

inductive sender_reach :: "sender \<Rightarrow> bool" where
  new: "sender_reach sender_new"
| step: "sender_reach s \<Longrightarrow> l \<noteq> Wake \<Longrightarrow> sender_step l s = Some (Inr s') \<Longrightarrow> sender_reach s'"

subsection \<open>The invariant\<close>

text \<open>The mails the thread has not begun to send.\<close>

definition pending :: "sender \<Rightarrow> mail list" where
  "pending s = map snd (case spc s of Erasing _ \<Rightarrow> tl (mails s) | _ \<Rightarrow> mails s)"

definition pc_ok :: "sender \<Rightarrow> bool" where
  "pc_ok s \<longleftrightarrow>
     (case spc s of
        Testing \<Rightarrow> True
      | Locking \<Rightarrow> True
      | Blocked \<Rightarrow> \<not> should_exit s \<and> mails s = []
      | Woken \<Rightarrow> should_exit s \<or> mails s \<noteq> []
      | Sending i \<Rightarrow> mails s \<noteq> [] \<and> i = mails_begin s
      | Erasing n \<Rightarrow> mails s \<noteq> [] \<and> mails_begin s = Some n
      | Finished \<Rightarrow> should_exit s)"

definition sender_ok :: "sender \<Rightarrow> bool" where
  "sender_ok s \<longleftrightarrow> pc_ok s \<and> distinct (map fst (mails s)) \<and> list_all (\<lambda>n. n < next_node s) (map fst (mails s)) \<and>
     (deleted s \<longrightarrow> spc s = Finished) \<and> posted s = map fst (talks s) @ pending s"

lemma sender_ok_new: "sender_ok sender_new"
  by (simp add: sender_ok_def sender_new_def pc_ok_def pending_def)

lemma ok_send:
  assumes "sender_ok s" and "send m s = Inr s'"
  shows "sender_ok s'"
proof -
  have "tl (mails s @ [(next_node s, m)]) = tl (mails s) @ [(next_node s, m)]" if "mails s \<noteq> []" using that by simp
  then show ?thesis
    using assms
    by (cases "spc s")
      (force simp: sender_ok_def list_all_iff send_def pc_ok_def pending_def notified_def mails_begin_def
        split: if_splits list.splits option.splits)+
qed

lemma ok_shutdown: "sender_ok s \<Longrightarrow> shutdown_begin s = Inr s' \<Longrightarrow> sender_ok s'"
  by (cases "spc s")
    (auto simp: sender_ok_def shutdown_begin_def pc_ok_def pending_def notified_def mails_begin_def split: if_splits)

lemma ok_join: "sender_ok s \<Longrightarrow> shutdown_end s = Some s' \<Longrightarrow> sender_ok s'"
  by (auto simp: sender_ok_def shutdown_end_def pc_ok_def pending_def split: if_splits)

lemma begin_node:
  assumes "distinct (map fst ms)" and "ms \<noteq> []"
  shows "map_of ms (fst (hd ms)) = Some (snd (hd ms))" and "List.filter (\<lambda>(k, _). k \<noteq> fst (hd ms)) ms = tl ms"
proof -
  obtain n m r where ms: "ms = (n, m) # r" using assms(2) by (cases ms) auto
  have "List.filter (\<lambda>(k, _). k \<noteq> n) r = r" using assms(1) by (force simp: ms filter_id_conv)
  then show "map_of ms (fst (hd ms)) = Some (snd (hd ms))" "List.filter (\<lambda>(k, _). k \<noteq> fst (hd ms)) ms = tl ms"
    by (simp_all add: ms)
qed

lemma mails_begin_hd: "mails s \<noteq> [] \<Longrightarrow> mails_begin s = Some (fst (hd (mails s)))"
  by (cases "mails s") (auto simp: mails_begin_def)

lemma map_snd_hd: "ms \<noteq> [] \<Longrightarrow> map snd ms = snd (hd ms) # map snd (tl ms)"
  by (cases ms) auto

lemma ok_thread:
  assumes "sender_ok s" and "thread_step net s = Some r"
  shows "\<exists>s'. r = Inr s' \<and> sender_ok s'"
proof -
  have d: "distinct (map fst (mails s))" using assms(1) by (simp add: sender_ok_def)
  show ?thesis
  proof (cases "spc s")
    case (Sending i)
    then have m: "mails s \<noteq> []" "i = Some (fst (hd (mails s)))"
      using assms(1) mails_begin_hd [of s] by (auto simp: sender_ok_def pc_ok_def)
    then show ?thesis
      using assms Sending begin_node(1) [OF d m(1)] mails_begin_hd [OF m(1)] map_snd_hd [OF m(1)]
      by (auto simp: thread_step_def sender_ok_def pc_ok_def pending_def mails_begin_def)
  next
    case (Erasing n)
    then have m: "mails s \<noteq> []" "n = fst (hd (mails s))"
      using assms(1) mails_begin_hd [of s] by (auto simp: sender_ok_def pc_ok_def)
    have "list_all (\<lambda>n. n < next_node s) (map fst (tl (mails s)))" "distinct (map fst (tl (mails s)))"
      using assms(1) m(1) by (cases "mails s"; simp add: sender_ok_def)+
    then show ?thesis
      using assms Erasing begin_node(2) [OF d m(1)] m(2)
      by (auto simp: thread_step_def sender_ok_def pc_ok_def pending_def)
  qed (use assms in \<open>auto simp: thread_step_def sender_ok_def pc_ok_def pending_def mails_begin_def\<close>)
qed

lemma reach_ok: "sender_reach s \<Longrightarrow> sender_ok s"
proof (induction rule: sender_reach.induct)
  case (step s l s')
  then show ?case
    using ok_thread [of s]
    by (cases l) (auto simp: sender_step_def split: if_splits dest: ok_send ok_shutdown ok_join)
qed (rule sender_ok_new)

lemma run_reach:
  "sender_reach s \<Longrightarrow> sender_run ls s = Some (Inr s') \<Longrightarrow> Wake \<notin> set ls \<Longrightarrow> sender_reach s'"
proof (induction ls arbitrary: s)
  case (Cons l ls)
  obtain s1 where s1: "sender_step l s = Some (Inr s1)" "sender_run ls s1 = Some (Inr s')"
    using Cons.prems(2) by (auto split: option.split_asm sum.split_asm)
  show ?case using Cons.IH [OF sender_reach.step [OF Cons.prems(1) _ s1(1)] s1(2)] Cons.prems(3) by auto
qed simp

subsection \<open>Properties\<close>


text \<open>How many steps the thread has left once it should exit.\<close>

definition rank :: "sender \<Rightarrow> nat" where
  "rank s = (case spc s of Testing \<Rightarrow> 1 | Locking \<Rightarrow> 4 | Blocked \<Rightarrow> 5 | Woken \<Rightarrow> 4 | Sending _ \<Rightarrow> 3 | Erasing _ \<Rightarrow> 2 | Finished \<Rightarrow> 0)"

definition is_thread :: "event_label \<Rightarrow> bool" where
  "is_thread l \<longleftrightarrow> (case l of Thread _ \<Rightarrow> True | _ \<Rightarrow> False)"

lemma rank_step:
  assumes "sender_ok s" and "should_exit s" and "l \<noteq> Wake" and "sender_step l s = Some (Inr s')"
  shows "sender_ok s' \<and> should_exit s' \<and> rank s' + (if is_thread l then 1 else 0) \<le> rank s"
proof -
  have nb: "spc s \<noteq> Blocked" using assms(1,2) by (auto simp: sender_ok_def pc_ok_def)
  show ?thesis
  proof (cases l)
    case (Thread net)
    then have t: "thread_step net s = Some (Inr s')" using assms(4) by (simp add: sender_step_def)
    then have "rank s' + 1 \<le> rank s \<and> should_exit s'"
      using assms(2) by (auto simp: thread_step_def rank_def split: sender_pc.splits option.splits if_splits)
    then show ?thesis using ok_thread [OF assms(1) t] Thread by (simp add: is_thread_def)
  qed (use assms nb in \<open>auto simp: sender_step_def is_thread_def rank_def send_def shutdown_begin_def shutdown_end_def notified_def
      split: if_splits dest: ok_send ok_shutdown ok_join\<close>)
qed

lemma rank_run:
  "sender_ok s \<Longrightarrow> should_exit s \<Longrightarrow> Wake \<notin> set ls \<Longrightarrow> sender_run ls s = Some (Inr s') \<Longrightarrow>
   sender_ok s' \<and> should_exit s' \<and> rank s' + length (List.filter is_thread ls) \<le> rank s"
proof (induction ls arbitrary: s)
  case (Cons l ls)
  obtain s1 where s1: "sender_step l s = Some (Inr s1)" "sender_run ls s1 = Some (Inr s')"
    using Cons.prems(4) by (auto split: option.split_asm sum.split_asm)
  have "sender_ok s1 \<and> should_exit s1 \<and> rank s1 + (if is_thread l then 1 else 0) \<le> rank s"
    using rank_step [OF Cons.prems(1,2) _ s1(1)] Cons.prems(3) by auto
  then show ?case using Cons.IH [of s1] s1(2) Cons.prems(3) by auto
qed simp


lemma run_append:
  "sender_run (xs @ ys) s =
   (case sender_run xs s of Some (Inr s1) \<Rightarrow> sender_run ys s1 | r \<Rightarrow> r)"
  by (induction xs arbitrary: s) (auto split: option.split sum.split)

lemma run_posts:
  assumes "\<not> deleted s" and "spc s = Testing"
  shows "\<exists>s'. sender_run (map Post ms) s = Some (Inr s') \<and> \<not> deleted s' \<and> spc s' = Testing \<and>
    should_exit s' = should_exit s \<and> talks s' = talks s \<and> map snd (mails s') = map snd (mails s) @ ms"
  using assms
proof (induction ms arbitrary: s)
  case (Cons m ms)
  let ?s = "s\<lparr>mails := mails s @ [(next_node s, m)], next_node := next_node s + 1, spc := notified (spc s), posted := posted s @ [m]\<rparr>"
  have "sender_step (Post m) s = Some (Inr ?s)" using Cons.prems by (simp add: sender_step_def send_def)
  moreover have "\<not> deleted ?s" "spc ?s = Testing" using Cons.prems by (simp_all add: notified_def)
  ultimately show ?case using Cons.IH [of ?s] by auto
qed simp

text \<open>
  Mails that are queued when the shutdown begins are lost: the thread tests its flag at the head of
  the loop, so it returns without sending any of them. An event that is logged after the shutdown uses
  the deleted sender.
\<close>

theorem shutdown_loses_mails:
  "\<exists>s. sender_run (map Post ms @ [Shutdown, Thread net, Join]) sender_new = Some (Inr s) \<and>
     talks s = [] \<and> map snd (mails s) = ms \<and> deleted s \<and> smtp_append mp event s = Inl UseAfterFree"
proof -
  obtain s1 where s1: "sender_run (map Post ms) sender_new = Some (Inr s1)" "\<not> deleted s1" "spc s1 = Testing"
    "\<not> should_exit s1" "talks s1 = []" "map snd (mails s1) = ms"
    using run_posts [of sender_new ms] by (auto simp: sender_new_def)
  let ?s = "s1\<lparr>should_exit := True, spc := Finished, deleted := True\<rparr>"
  have "sender_run [Shutdown, Thread net, Join] s1 = Some (Inr ?s)"
    using s1(2-4) by (simp add: sender_step_def shutdown_begin_def thread_step_def shutdown_end_def notified_def)
  then show ?thesis
    using s1 by (intro exI [of _ ?s]) (simp add: run_append smtp_append_def send_def)
qed

text \<open>A spurious wake-up of the waiting thread makes it dereference \<open>end()\<close>: the wait is not in a loop.\<close>

lemma wake_up_fault:
  "sender_run [Thread net, Thread net, Wake, Thread net, Thread net] sender_new = Some (Inl OutOfBounds)"
  by (simp add: sender_step_def thread_step_def sender_new_def mails_begin_def)

subsection \<open>Witnesses\<close>

definition sample_mail :: mail where
  "sample_mail = (\<lparr>mail_host = ''h'', mail_from = ''f'', mail_to = ''t'', mail_subject = ''s''\<rparr>, LoggingEvent_new [] 0 0 [] ''m'' [] 300)"

lemma sample_run:
  "\<exists>s. sender_run [Thread (\<lambda>_. False), Post sample_mail, Thread (\<lambda>_. False), Thread (\<lambda>_. False), Shutdown] sender_new = Some (Inr s) \<and>
     sender_reach s \<and> should_exit s \<and> talks s = [(sample_mail, [])]"
proof -
  have "\<exists>s. sender_run [Thread (\<lambda>_. False), Post sample_mail, Thread (\<lambda>_. False), Thread (\<lambda>_. False), Shutdown] sender_new = Some (Inr s) \<and>
     should_exit s \<and> talks s = [(sample_mail, [])]"
    by (simp add: sender_step_def thread_step_def sender_new_def send_def shutdown_begin_def mails_begin_def notified_def talk_def)
  then obtain s where s: "sender_run [Thread (\<lambda>_. False), Post sample_mail, Thread (\<lambda>_. False), Thread (\<lambda>_. False), Shutdown] sender_new = Some (Inr s)"
    "should_exit s" "talks s = [(sample_mail, [])]" by blast
  moreover have "sender_reach s" using run_reach [OF sender_reach.new s(1)] by simp
  ultimately show ?thesis by blast
qed



end
