(* ===== verification/LogFactory.thy ===== *)
theory LogFactory
  imports SimpleConfig MailSender
begin

text \<open>
  \<^verbatim>\<open>src/git/log4cpp/\<close>: the parameters of \<^verbatim>\<open>FactoryParams.hh\<close>, the creators of appenders,
  layouts and evaluators, and the three factories that hold them (\<^verbatim>\<open>AppendersFactory.cpp\<close>,
  \<^verbatim>\<open>LayoutsFactory.cpp\<close>, \<^verbatim>\<open>TriggeringEventEvaluatorFactory.cpp\<close>), as built for Linux with
  \<open>syslog\<close>. A creator gives the constructor call it makes.
\<close>

subsection \<open>Parameters\<close>

datatype exn = RuntimeError string | InvalidArgument string | ConfigureFailure string

definition bindE :: "exn + 'a \<Rightarrow> ('a \<Rightarrow> exn + 'b) \<Rightarrow> exn + 'b" where
  "bindE r f = (case r of Inl e \<Rightarrow> Inl e | Inr x \<Rightarrow> f x)"

lemma bindE_simps [simp]: "bindE (Inl e) f = Inl e" "bindE (Inr x) f = f x"
  by (simp_all add: bindE_def)

type_synonym params = "(string \<times> string) list"

text \<open>\<open>operator[]\<close> of constant parameters, and of others, which adds what it does not find.\<close>

definition params_at :: "string \<Rightarrow> params \<Rightarrow> exn + string" where
  "params_at v ps =
     (case map_of ps v of None \<Rightarrow> Inl (InvalidArgument (''There is no parameter '' @ quoted v)) | Some x \<Rightarrow> Inr x)"

definition params_set :: "string \<Rightarrow> string \<Rightarrow> params \<Rightarrow> params" where
  "params_set v x ps = map_assign v x ps"

text \<open>
  \<open>assign\<close>: a string is copied, other types are extracted from a stream, which leaves the variable when
  the parameter is blank. A boolean is read as a number: what is not one counts as 0.
\<close>

definition assign_from :: "(string \<Rightarrow> 'a \<times> string \<times> bool) \<Rightarrow> string \<Rightarrow> 'a \<Rightarrow> 'a" where
  "assign_from ext v old = (if dropWhile is_space v = [] then old else fst (ext v))"

definition extract_bool :: "string \<Rightarrow> bool \<times> string \<times> bool" where
  "extract_bool s = (case extract_int s of (n, r, fail) \<Rightarrow> (n \<noteq> 0, r, fail \<or> (n \<noteq> 0 \<and> n \<noteq> 1)))"

definition throw_error :: "string \<Rightarrow> string \<Rightarrow> exn + 'a" where
  "throw_error tag p = Inl (RuntimeError (''Property '' @ quoted p @ '' required to configure '' @ tag))"

definition required :: "(string \<Rightarrow> 'a \<Rightarrow> 'a) \<Rightarrow> string \<Rightarrow> params \<Rightarrow> string \<Rightarrow> 'a \<Rightarrow> exn + 'a" where
  "required asg tag ps p old = (case map_of ps p of None \<Rightarrow> throw_error tag p | Some v \<Rightarrow> Inr (asg v old))"

definition optional :: "(string \<Rightarrow> 'a \<Rightarrow> 'a) \<Rightarrow> params \<Rightarrow> string \<Rightarrow> 'a \<Rightarrow> 'a" where
  "optional asg ps p old = (case map_of ps p of None \<Rightarrow> old | Some v \<Rightarrow> asg v old)"

definition assign_string :: "string \<Rightarrow> string \<Rightarrow> string" where
  "assign_string v old = v"

subsection \<open>Creators\<close>

text \<open>A created appender: its name, the constructor call, and the mode where the call has one.\<close>

datatype created_call = Appends appender_call | Mails mail_params

record created =
  created_name :: string
  created_call :: created_call
  created_mode :: "u32 option"

definition the_mode :: "params \<Rightarrow> u32" where
  "the_mode ps = optional (assign_from extract_u32) ps ''mode'' 664"

definition the_append :: "params \<Rightarrow> bool" where
  "the_append ps = optional (assign_from extract_bool) ps ''append'' True"

definition create_file_appender :: "params \<Rightarrow> exn + created" where
  "create_file_appender ps =
     bindE (required assign_string ''file appender'' ps ''name'' []) (\<lambda>nm.
     bindE (required assign_string ''file appender'' ps ''filename'' []) (\<lambda>file.
       Inr \<lparr>created_name = nm, created_call = Appends (FileCall file (the_append ps)), created_mode = Some (the_mode ps)\<rparr>))"

text \<open>The sizes are read as \<open>int\<close> and converted for the constructor.\<close>

definition create_roll_file_appender :: "params \<Rightarrow> exn + created" where
  "create_roll_file_appender ps =
     (let tag = ''roll file appender'' in
      bindE (required assign_string tag ps ''name'' []) (\<lambda>nm.
      bindE (required assign_string tag ps ''filename'' []) (\<lambda>file.
      bindE (required (assign_from extract_int) tag ps ''max_file_size'' 0) (\<lambda>n.
      bindE (required (assign_from extract_int) tag ps ''max_backup_index'' 0) (\<lambda>k.
        Inr \<lparr>created_name = nm, created_call = Appends (RollingCall file (word_of_int n) (word_of_int k) (the_append ps)),
          created_mode = Some (the_mode ps)\<rparr>)))))"

definition create_daily_roll_file_appender :: "params \<Rightarrow> exn + created" where
  "create_daily_roll_file_appender ps =
     (let tag = ''daily roll file appender'' in
      bindE (required assign_string tag ps ''name'' []) (\<lambda>nm.
      bindE (required assign_string tag ps ''filename'' []) (\<lambda>file.
      bindE (required (assign_from extract_u32) tag ps ''max_days_keep'' 0) (\<lambda>k.
        Inr \<lparr>created_name = nm, created_call = Appends (DailyCall file k (the_append ps)), created_mode = Some (the_mode ps)\<rparr>))))"

definition create_remote_syslog_appender :: "params \<Rightarrow> exn + created" where
  "create_remote_syslog_appender ps =
     (let tag = ''remote syslog appender'' in
      bindE (required assign_string tag ps ''name'' []) (\<lambda>nm.
      bindE (required assign_string tag ps ''syslog_name'' []) (\<lambda>sn.
      bindE (required assign_string tag ps ''relayer'' []) (\<lambda>r.
        Inr \<lparr>created_name = nm,
          created_call = Appends (RemoteSyslogCall sn r (optional (assign_from extract_int) ps ''facility'' (- 1))
            (optional (assign_from extract_int) ps ''port'' (- 1))), created_mode = None\<rparr>))))"

definition create_syslog_appender :: "params \<Rightarrow> exn + created" where
  "create_syslog_appender ps =
     (let tag = ''syslog appender'' in
      bindE (required assign_string tag ps ''name'' []) (\<lambda>nm.
      bindE (required assign_string tag ps ''syslog_name'' []) (\<lambda>sn.
        Inr \<lparr>created_name = nm, created_call = Appends (SyslogCall sn (optional (assign_from extract_int) ps ''facility'' 0)),
          created_mode = None\<rparr>)))"

definition create_abort_appender :: "params \<Rightarrow> exn + created" where
  "create_abort_appender ps =
     bindE (required assign_string ''abort appender'' ps ''name'' []) (\<lambda>nm.
       Inr \<lparr>created_name = nm, created_call = Appends AbortCall, created_mode = None\<rparr>)"

definition create_smtp_appender :: "params \<Rightarrow> exn + created" where
  "create_smtp_appender ps =
     (let tag = ''SMTP appender'' in
      bindE (required assign_string tag ps ''name'' []) (\<lambda>nm.
      bindE (required assign_string tag ps ''host'' []) (\<lambda>h.
      bindE (required assign_string tag ps ''from'' []) (\<lambda>f.
      bindE (required assign_string tag ps ''to'' []) (\<lambda>t.
      bindE (required assign_string tag ps ''subject'' []) (\<lambda>s.
        Inr \<lparr>created_name = nm, created_call = Mails \<lparr>mail_host = h, mail_from = f, mail_to = t, mail_subject = s\<rparr>,
          created_mode = None\<rparr>))))))"

text \<open>A level that is no priority throws out of the creator; the result is the level of the evaluator.\<close>

definition create_level_evaluator :: "params \<Rightarrow> exn + int" where
  "create_level_evaluator ps =
     bindE (required assign_string ''level evaluator'' ps ''level'' []) (\<lambda>l.
       case getPriorityValue l of Inl e \<Rightarrow> Inl (InvalidArgument e) | Inr p \<Rightarrow> Inr p)"

datatype created_layout = Formats layout_obj | PassThrough

definition create_simple_layout :: "params \<Rightarrow> exn + created_layout" where
  "create_simple_layout ps = Inr (Formats SimpleLayout)"

definition create_basic_layout :: "params \<Rightarrow> exn + created_layout" where
  "create_basic_layout ps = Inr (Formats BasicLayout)"

definition create_pass_through_layout :: "params \<Rightarrow> exn + created_layout" where
  "create_pass_through_layout ps = Inr PassThrough"

definition create_pattern :: "char \<Rightarrow> int \<Rightarrow> params \<Rightarrow> (exn + created_layout) res" where
  "create_pattern junk junkp ps =
     bindR (create_pattern_layout junk junkp (map_of ps ''pattern'')) (\<lambda>(e, l).
       Inr (case e of None \<Rightarrow> Inr (Formats (PatternLayoutObj l)) | Some msg \<Rightarrow> Inl (ConfigureFailure msg)))"

subsection \<open>Factories\<close>

text \<open>A factory is the map of its creators.\<close>

definition AppendersFactory_registerCreator ::
  "string \<Rightarrow> (params \<Rightarrow> exn + created) \<Rightarrow> (string \<times> (params \<Rightarrow> exn + created)) list \<Rightarrow>
   exn + (string \<times> (params \<Rightarrow> exn + created)) list" where
  "AppendersFactory_registerCreator class_name f r =
     (if map_of r class_name \<noteq> None
      then Inl (InvalidArgument (''Appender creator for type name '' @ quoted class_name @ '' already registered''))
      else Inr (map_assign class_name f r))"

definition AppendersFactory_create ::
  "string \<Rightarrow> params \<Rightarrow> (string \<times> (params \<Rightarrow> exn + created)) list \<Rightarrow> exn + created" where
  "AppendersFactory_create class_name ps r =
     (case map_of r class_name of
        None \<Rightarrow> Inl (InvalidArgument (''There is no appender with type name '' @ quoted class_name))
      | Some f \<Rightarrow> f ps)"

definition AppendersFactory_registered :: "string \<Rightarrow> (string \<times> (params \<Rightarrow> exn + created)) list \<Rightarrow> bool" where
  "AppendersFactory_registered class_name r \<longleftrightarrow> map_of r class_name \<noteq> None"

definition LayoutsFactory_registerCreator ::
  "string \<Rightarrow> (params \<Rightarrow> (exn + created_layout) res) \<Rightarrow> (string \<times> (params \<Rightarrow> (exn + created_layout) res)) list \<Rightarrow>
   exn + (string \<times> (params \<Rightarrow> (exn + created_layout) res)) list" where
  "LayoutsFactory_registerCreator class_name f r =
     (if map_of r class_name \<noteq> None
      then Inl (InvalidArgument (''Layout creator for type name '' @ quoted class_name @ '' allready registered''))
      else Inr (map_assign class_name f r))"

definition LayoutsFactory_create ::
  "string \<Rightarrow> params \<Rightarrow> (string \<times> (params \<Rightarrow> (exn + created_layout) res)) list \<Rightarrow> (exn + created_layout) res" where
  "LayoutsFactory_create class_name ps r =
     (case map_of r class_name of
        None \<Rightarrow> Inr (Inl (InvalidArgument (''There is no layout with type name '' @ quoted class_name)))
      | Some f \<Rightarrow> f ps)"

definition LayoutsFactory_registed :: "string \<Rightarrow> (string \<times> (params \<Rightarrow> (exn + created_layout) res)) list \<Rightarrow> bool" where
  "LayoutsFactory_registed class_name r \<longleftrightarrow> map_of r class_name \<noteq> None"

definition EvaluatorFactory_registerCreator ::
  "string \<Rightarrow> (params \<Rightarrow> exn + int) \<Rightarrow> (string \<times> (params \<Rightarrow> exn + int)) list \<Rightarrow> exn + (string \<times> (params \<Rightarrow> exn + int)) list" where
  "EvaluatorFactory_registerCreator class_name f r =
     (if map_of r class_name \<noteq> None
      then Inl (InvalidArgument (''Creator for Triggering event evaluator with type name '' @ quoted class_name @ '' allready registered''))
      else Inr (map_assign class_name f r))"

definition EvaluatorFactory_create :: "string \<Rightarrow> params \<Rightarrow> (string \<times> (params \<Rightarrow> exn + int)) list \<Rightarrow> exn + int" where
  "EvaluatorFactory_create class_name ps r =
     (case map_of r class_name of
        None \<Rightarrow> Inl (InvalidArgument (''There is no triggering event evaluator with type name '' @ quoted class_name))
      | Some f \<Rightarrow> f ps)"

definition EvaluatorFactory_registered :: "string \<Rightarrow> (string \<times> (params \<Rightarrow> exn + int)) list \<Rightarrow> bool" where
  "EvaluatorFactory_registered class_name r \<longleftrightarrow> map_of r class_name \<noteq> None"

fun register_all :: "(string \<Rightarrow> 'f \<Rightarrow> 'r \<Rightarrow> exn + 'r) \<Rightarrow> (string \<times> 'f) list \<Rightarrow> 'r \<Rightarrow> exn + 'r" where
  "register_all reg [] r = Inr r"
| "register_all reg ((n, f) # cs) r = bindE (reg n f r) (register_all reg cs)"

text \<open>
  The one instance: the stored one, or a new one with the creators of the library, which is stored unless
  a registration throws.
\<close>

definition factory_instance :: "(exn + 'r) \<Rightarrow> 'r option \<Rightarrow> (exn + 'r) \<times> 'r option" where
  "factory_instance built stored =
     (case stored of Some r \<Rightarrow> (Inr r, stored)
      | None \<Rightarrow> (case built of Inl e \<Rightarrow> (Inl e, None) | Inr r \<Rightarrow> (Inr r, Some r)))"

definition appender_creators :: "bool \<Rightarrow> (string \<times> (params \<Rightarrow> exn + created)) list" where
  "appender_creators boost =
     [(''file'', create_file_appender), (''roll file'', create_roll_file_appender),
      (''daily roll file'', create_daily_roll_file_appender), (''remote syslog'', create_remote_syslog_appender),
      (''abort'', create_abort_appender), (''syslog'', create_syslog_appender)]
     @ (if boost then [(''smtp'', create_smtp_appender)] else [])"

definition AppendersFactory_getInstance ::
  "bool \<Rightarrow> (string \<times> (params \<Rightarrow> exn + created)) list option \<Rightarrow>
   (exn + (string \<times> (params \<Rightarrow> exn + created)) list) \<times> (string \<times> (params \<Rightarrow> exn + created)) list option" where
  "AppendersFactory_getInstance boost =
     factory_instance (register_all AppendersFactory_registerCreator (appender_creators boost) [])"

definition layout_creators :: "char \<Rightarrow> int \<Rightarrow> (string \<times> (params \<Rightarrow> (exn + created_layout) res)) list" where
  "layout_creators junk junkp =
     [(''simple'', \<lambda>ps. Inr (create_simple_layout ps)), (''basic'', \<lambda>ps. Inr (create_basic_layout ps)),
      (''pattern'', create_pattern junk junkp), (''pass through'', \<lambda>ps. Inr (create_pass_through_layout ps))]"

definition LayoutsFactory_getInstance ::
  "char \<Rightarrow> int \<Rightarrow> (string \<times> (params \<Rightarrow> (exn + created_layout) res)) list option \<Rightarrow>
   (exn + (string \<times> (params \<Rightarrow> (exn + created_layout) res)) list) \<times> (string \<times> (params \<Rightarrow> (exn + created_layout) res)) list option" where
  "LayoutsFactory_getInstance junk junkp =
     factory_instance (register_all LayoutsFactory_registerCreator (layout_creators junk junkp) [])"

definition EvaluatorFactory_getInstance ::
  "(string \<times> (params \<Rightarrow> exn + int)) list option \<Rightarrow>
   (exn + (string \<times> (params \<Rightarrow> exn + int)) list) \<times> (string \<times> (params \<Rightarrow> exn + int)) list option" where
  "EvaluatorFactory_getInstance =
     factory_instance (register_all EvaluatorFactory_registerCreator [(''level'', create_level_evaluator)] [])"

subsection \<open>The contract of a factory\<close>

locale creator_registry =
  fixes reg :: "string \<Rightarrow> ('p \<Rightarrow> 'o) \<Rightarrow> 'r \<Rightarrow> exn + 'r"
    and create :: "string \<Rightarrow> 'p \<Rightarrow> 'r \<Rightarrow> 'o"
    and registered :: "string \<Rightarrow> 'r \<Rightarrow> bool"
  assumes fresh: "\<not> registered nm r \<Longrightarrow> \<exists>r'. reg nm f r = Inr r' \<and>
      (\<forall>n. registered n r' \<longleftrightarrow> n = nm \<or> registered n r) \<and> (\<forall>n ps. create n ps r' = (if n = nm then f ps else create n ps r))"
    and again: "registered nm r \<Longrightarrow> \<exists>e. reg nm f r = Inl e"
begin

lemma all_fresh:
  "distinct (map fst cs) \<Longrightarrow> \<forall>n \<in> fst ` set cs. \<not> registered n r \<Longrightarrow>
   \<exists>r'. register_all reg cs r = Inr r' \<and> (\<forall>n. registered n r' \<longleftrightarrow> n \<in> fst ` set cs \<or> registered n r) \<and>
     (\<forall>n ps. create n ps r' = (case map_of cs n of None \<Rightarrow> create n ps r | Some f \<Rightarrow> f ps))"
proof (induction cs arbitrary: r)
  case (Cons c cs)
  obtain n f where c: "c = (n, f)" by (cases c)
  obtain r1 where r1: "reg n f r = Inr r1" "\<forall>k. registered k r1 \<longleftrightarrow> k = n \<or> registered k r"
    "\<forall>k ps. create k ps r1 = (if k = n then f ps else create k ps r)"
    using fresh [of n r f] Cons.prems(2) c by auto
  have d: "distinct (map fst cs)" "\<forall>k \<in> fst ` set cs. \<not> registered k r1"
    using Cons.prems c r1(2) by auto
  obtain r2 where r2: "register_all reg cs r1 = Inr r2" "\<forall>k. registered k r2 \<longleftrightarrow> k \<in> fst ` set cs \<or> registered k r1"
    "\<forall>k ps. create k ps r2 = (case map_of cs k of None \<Rightarrow> create k ps r1 | Some g \<Rightarrow> g ps)"
    using Cons.IH [OF d] by blast
  have "map_of cs n = None" using Cons.prems(1) c by (simp add: map_of_eq_None_iff)
  then have "create k ps r2 = (case map_of (c # cs) k of None \<Rightarrow> create k ps r | Some g \<Rightarrow> g ps)" for k ps
    using r1(3) r2(3) c by (auto split: option.split)
  then show ?case using r1 r2(1,2) c by auto
qed simp

lemma twice: "registered nm r \<Longrightarrow> register_all reg ((nm, f) # cs) r \<noteq> Inr r'"
  using again [of nm r f] by auto

end

interpretation af: creator_registry AppendersFactory_registerCreator AppendersFactory_create AppendersFactory_registered
  by unfold_locales
    (auto simp: AppendersFactory_registerCreator_def AppendersFactory_create_def AppendersFactory_registered_def map_of_assign)

interpretation lf: creator_registry LayoutsFactory_registerCreator LayoutsFactory_create LayoutsFactory_registed
  by unfold_locales
    (auto simp: LayoutsFactory_registerCreator_def LayoutsFactory_create_def LayoutsFactory_registed_def map_of_assign)

interpretation ef: creator_registry EvaluatorFactory_registerCreator EvaluatorFactory_create EvaluatorFactory_registered
  by unfold_locales
    (auto simp: EvaluatorFactory_registerCreator_def EvaluatorFactory_create_def EvaluatorFactory_registered_def map_of_assign)

subsection \<open>Properties\<close>

lemma appender_names: "distinct (map fst (appender_creators boost))"
  by (simp add: appender_creators_def)

lemma appenders_instance:
  "\<exists>r. AppendersFactory_getInstance boost None = (Inr r, Some r) \<and>
     (\<forall>n. AppendersFactory_registered n r \<longleftrightarrow> n \<in> fst ` set (appender_creators boost)) \<and>
     (\<forall>n ps. AppendersFactory_create n ps r =
       (case map_of (appender_creators boost) n of None \<Rightarrow> AppendersFactory_create n ps [] | Some f \<Rightarrow> f ps))"
proof -
  have "\<forall>n \<in> fst ` set (appender_creators boost). \<not> AppendersFactory_registered n []"
    by (simp add: AppendersFactory_registered_def)
  from af.all_fresh [OF appender_names this] show ?thesis
    by (auto simp: AppendersFactory_getInstance_def factory_instance_def AppendersFactory_registered_def)
qed

text \<open>
  The parameter \<open>append\<close> of a file appender made by the factory: a blank value leaves the default,
  and any other value is read as a number. So \<open>true\<close> counts as false, and the log is truncated.
\<close>

theorem file_append_parameter:
  assumes "AppendersFactory_getInstance boost None = (Inr r, st)"
    and "map_of ps ''name'' = Some nm" and "map_of ps ''filename'' = Some file" and "map_of ps ''append'' = Some v"
  shows "\<exists>m. AppendersFactory_create ''file'' ps r = Inr \<lparr>created_name = nm,
    created_call = Appends (FileCall file (list_all is_space v \<or> fst (extract_int v) \<noteq> 0)), created_mode = m\<rparr>"
proof -
  have "map_of (appender_creators boost) ''file'' = Some create_file_appender" by (simp add: appender_creators_def)
  then have "AppendersFactory_create ''file'' ps r = create_file_appender ps"
    using appenders_instance [of boost] assms(1) by auto
  moreover have "fst (extract_bool v) \<longleftrightarrow> fst (extract_int v) \<noteq> 0" by (simp add: extract_bool_def split_beta)
  ultimately show ?thesis
    using assms(2-4)
    by (auto simp: create_file_appender_def required_def assign_string_def the_append_def optional_def assign_from_def list_all_iff)
qed

theorem file_append_parameter_witness:
  "\<exists>r m. AppendersFactory_getInstance False None = (Inr r, Some r) \<and>
     AppendersFactory_create ''file'' [(''append'', ''true''), (''filename'', ''f''), (''name'', ''a'')] r =
       Inr \<lparr>created_name = ''a'', created_call = Appends (FileCall ''f'' False), created_mode = m\<rparr>"
proof -
  obtain r where r: "AppendersFactory_getInstance False None = (Inr r, Some r)" using appenders_instance [of False] by blast
  let ?ps = "[(''append'', ''true''), (''filename'', ''f''), (''name'', ''a'')]"
  have "map_of ?ps ''name'' = Some ''a''" "map_of ?ps ''filename'' = Some ''f''" "map_of ?ps ''append'' = Some ''true''" by simp_all
  from file_append_parameter [OF r this] have "\<exists>m. AppendersFactory_create ''file'' ?ps r =
    Inr \<lparr>created_name = ''a'', created_call = Appends (FileCall ''f'' False), created_mode = m\<rparr>"
    by (simp add: is_space_def extract_int_def sign_of_def is_digit_def)
  then show ?thesis using r by blast
qed

text \<open>An appender without a required parameter is reported under the first one that is missing.\<close>

lemma first_missing_parameter:
  "(case List.filter (\<lambda>p. map_of ps p = None) [''name'', ''filename'', ''max_file_size'', ''max_backup_index''] of
      [] \<Rightarrow> \<exists>x. create_roll_file_appender ps = Inr x
    | p # _ \<Rightarrow> create_roll_file_appender ps = throw_error ''roll file appender'' p)"
  by (auto simp: create_roll_file_appender_def required_def throw_error_def Let_def split: option.split list.split)

end
