(* ===== verification/ServerLog.thy ===== *)
theory ServerLog
  imports PropertyConfig MainLoop LogFiles
begin

text \<open>
  The logging of the server as it is shipped: \<^verbatim>\<open>src/conf/log.conf\<close>, read by \<open>Logger::init\<close>
  (\<^verbatim>\<open>src/src/util/logger.cc\<close>) with the configurator of \<^verbatim>\<open>PropertyConfig\<close>.
\<close>

subsection \<open>The file\<close>

definition log_pattern :: string where
  "log_pattern = ''%d{%m-%d %H:%M:%S %l} [%t][%p]%m%n''"

text \<open>The lines that end in a newline; the texts of the three comments are in Chinese.\<close>

definition log_lines :: "string \<Rightarrow> string \<Rightarrow> string \<Rightarrow> string list" where
  "log_lines c1 c2 c3 =
     [''#'' @ c1,
      ''log4cpp.rootCategory=DEBUG, RootLog, ConsoleLog'',
      [],
      ''#'' @ c2,
      ''log4cpp.appender.RootLog=RollingFileAppender'',
      ''log4cpp.appender.RootLog.layout=PatternLayout'',
      [],
      ''#log4cpp.appender.RootLog.layout.ConversionPattern=%d{% m-%d %H:%M:%S %l} [%t][%p]%m%n'',
      ''log4cpp.appender.RootLog.layout.ConversionPattern='' @ log_pattern,
      ''#log4cpp.appender.RootLog.fileName=/var/log/shared_bike.log'',
      ''log4cpp.appender.RootLog.fileName=/home/wjfeng/shared_bike.log'',
      ''log4cpp.appender.RootLog.maxFileSize=268435456 #256MB'',
      ''log4cpp.appender.RootLog.fileNamePattern=shared_bike_%i.log'',
      ''log4cpp.appender.RootLog.maxBackupIndex=256'',
      [],
      ''#'' @ c3,
      ''log4cpp.appender.ConsoleLog=ConsoleAppender'',
      ''log4cpp.appender.ConsoleLog.layout=PatternLayout'']"

definition log_conf :: "string \<Rightarrow> string \<Rightarrow> string \<Rightarrow> string" where
  "log_conf c1 c2 c3 =
     concat (map (\<lambda>l. l @ [nl_char]) (log_lines c1 c2 c3)) @ ''log4cpp.appender.ConsoleLog.layout.ConversionPattern='' @ log_pattern"

definition plain_text :: "string \<Rightarrow> bool" where
  "plain_text s \<longleftrightarrow> nl_char \<notin> set s \<and> CHR 0x00 \<notin> set s"

lemma load_lines:
  "\<forall>l \<in> set ls. plain_text l \<Longrightarrow>
   \<exists>full'. load_loop getenv (concat (map (\<lambda>l. l @ [nl_char]) ls) @ rest) False full ps =
     load_loop getenv rest False full' (fold (process_line getenv) ls ps)"
proof (induction ls arbitrary: full ps)
  case (Cons l ls)
  have "nl_char \<notin> set l" "CHR 0x00 \<notin> set l" using Cons.prems by (simp_all add: plain_text_def)
  from load_line [OF this, of getenv "concat (map (\<lambda>l. l @ [nl_char]) ls) @ rest" False full ps]
  obtain full1 where "load_loop getenv (l @ nl_char # concat (map (\<lambda>l. l @ [nl_char]) ls) @ rest) False full ps =
    load_loop getenv (concat (map (\<lambda>l. l @ [nl_char]) ls) @ rest) False full1 (process_line getenv l ps)" by auto
  then show ?case using Cons.IH [of full1 "process_line getenv l ps"] Cons.prems by auto
qed auto

lemma load_last:
  assumes "plain_text l" and "l \<noteq> []" and "length l \<le> 255"
  shows "load_loop getenv l False full ps = process_line getenv l ps"
proof -
  have t: "takeWhile (\<lambda>c. c \<noteq> nl_char) l = l" using assms(1) by (auto simp: plain_text_def takeWhile_eq_all_conv)
  have "getline255 l = (l, [], False, True)" using assms(2,3) by (simp only: getline255_def Let_def t) simp
  then show ?thesis
    using assms(1) c_str_id [of l] by (simp add: load_loop.simps [of getenv l] plain_text_def load_end)
qed

lemma process_hash: "process_line getenv (''#'' @ c) ps = ps"
  by (simp add: process_line_def)

lemma process_empty: "process_line getenv [] ps = ps"
  by (simp add: process_line_def process_command_def)

definition log_props :: props where
  "log_props =
     [(''appender.ConsoleLog'', ''ConsoleAppender''),
      (''appender.ConsoleLog.layout'', ''PatternLayout''),
      (''appender.ConsoleLog.layout.ConversionPattern'', log_pattern),
      (''appender.RootLog'', ''RollingFileAppender''),
      (''appender.RootLog.fileName'', ''/home/wjfeng/shared_bike.log''),
      (''appender.RootLog.fileNamePattern'', ''shared_bike_%i.log''),
      (''appender.RootLog.layout'', ''PatternLayout''),
      (''appender.RootLog.layout.ConversionPattern'', log_pattern),
      (''appender.RootLog.maxBackupIndex'', ''256''),
      (''appender.RootLog.maxFileSize'', ''268435456''),
      (''rootCategory'', ''DEBUG, RootLog, ConsoleLog'')]"

lemma process_lines:
  "process_line getenv ''log4cpp.rootCategory=DEBUG, RootLog, ConsoleLog'' ps = map_insert ''rootCategory'' ''DEBUG, RootLog, ConsoleLog'' ps"
  "process_line getenv ''log4cpp.appender.RootLog=RollingFileAppender'' ps = map_insert ''appender.RootLog'' ''RollingFileAppender'' ps"
  "process_line getenv ''log4cpp.appender.RootLog.layout=PatternLayout'' ps = map_insert ''appender.RootLog.layout'' ''PatternLayout'' ps"
  "process_line getenv (''log4cpp.appender.RootLog.layout.ConversionPattern='' @ log_pattern) ps =
     map_insert ''appender.RootLog.layout.ConversionPattern'' log_pattern ps"
  "process_line getenv ''log4cpp.appender.RootLog.fileName=/home/wjfeng/shared_bike.log'' ps =
     map_insert ''appender.RootLog.fileName'' ''/home/wjfeng/shared_bike.log'' ps"
  "process_line getenv ''log4cpp.appender.RootLog.maxFileSize=268435456 #256MB'' ps =
     map_insert ''appender.RootLog.maxFileSize'' ''268435456'' ps"
  "process_line getenv ''log4cpp.appender.RootLog.fileNamePattern=shared_bike_%i.log'' ps =
     map_insert ''appender.RootLog.fileNamePattern'' ''shared_bike_%i.log'' ps"
  "process_line getenv ''log4cpp.appender.RootLog.maxBackupIndex=256'' ps = map_insert ''appender.RootLog.maxBackupIndex'' ''256'' ps"
  "process_line getenv ''log4cpp.appender.ConsoleLog=ConsoleAppender'' ps = map_insert ''appender.ConsoleLog'' ''ConsoleAppender'' ps"
  "process_line getenv ''log4cpp.appender.ConsoleLog.layout=PatternLayout'' ps = map_insert ''appender.ConsoleLog.layout'' ''PatternLayout'' ps"
  "process_line getenv (''log4cpp.appender.ConsoleLog.layout.ConversionPattern='' @ log_pattern) ps =
     map_insert ''appender.ConsoleLog.layout.ConversionPattern'' log_pattern ps"
  "process_line getenv ''#log4cpp.appender.RootLog.layout.ConversionPattern=%d{% m-%d %H:%M:%S %l} [%t][%p]%m%n'' ps = ps"
  "process_line getenv ''#log4cpp.appender.RootLog.fileName=/var/log/shared_bike.log'' ps = ps"
  by (simp_all add: process_line_def process_command_def substituteVariables_def strip_prefix_def trim_def find_str_from_def
     find_last_not_of_def log_pattern_def)

lemma plain_lines:
  assumes "plain_text c1" and "plain_text c2" and "plain_text c3"
  shows "\<forall>l \<in> set (log_lines c1 c2 c3). plain_text l"
  using assms by (simp add: log_lines_def plain_text_def nl_char_def log_pattern_def)

lemma load_log_conf:
  assumes "plain_text c1" and "plain_text c2" and "plain_text c3"
  shows "load getenv (log_conf c1 c2 c3) = log_props"
proof -
  let ?last = "''log4cpp.appender.ConsoleLog.layout.ConversionPattern='' @ log_pattern"
  have l: "plain_text ?last" "?last \<noteq> []" "length ?last \<le> 255"
    by (simp_all add: plain_text_def nl_char_def log_pattern_def)
  have "load getenv (log_conf c1 c2 c3) = process_line getenv ?last (fold (process_line getenv) (log_lines c1 c2 c3) [])"
    using load_lines [OF plain_lines [OF assms], of getenv ?last "[]" "[]"] load_last [OF l] by (auto simp: load_def log_conf_def)
  also have "\<dots> = log_props"
    unfolding log_lines_def fold.simps comp_def id_def process_lines process_hash process_empty log_props_def
    by (simp add: less_char_def)
  finally show ?thesis .
qed

subsection \<open>The pattern\<close>

definition log_components :: "component list" where
  "log_components =
     [TimeStamp ''%m-%d %H:%M:%S '' [] True, StringLiteral '' ['', ThreadName, StringLiteral ''][''
      , PriorityComponent, StringLiteral '']'', Message, StringLiteral newline]"

definition log_layout :: PatternLayout where
  "log_layout = \<lparr>conversionPattern = log_pattern, components = log_components\<rparr>"

lemma parse_braces:
  assumes "\<not> is_width_char c" and "c \<noteq> CHR ''.''" and "read_braces s = (spec, r, False)"
    and "conversion_of junkp c spec = Some (Inr x)" and "push_component x st = Inr st2"
  shows "\<exists>k'. parse_loop junk junkp pat (fresh (CHR ''%'' # c # CHR ''{'' # s) k) st = parse_loop junk junkp pat (fresh r k') st2"
proof -
  have "read_postfix (fresh (CHR ''{'' # s) (Suc (Suc k))) = (spec, fresh r (Suc (Suc (Suc k)) + (length s - length r)))"
    using assms(3) by (simp add: read_postfix_def) (simp add: fresh_def)
  then show ?thesis
    using assms by (intro exI [of _ "Suc (Suc (Suc k)) + (length s - length r)"], subst parse_loop.simps) simp
qed

lemma log_conversions:
  "\<not> is_width_char CHR ''t''" "\<not> is_width_char CHR ''d''" "conversion_of junkp CHR ''t'' spec = Some (Inr ThreadName)"
  "conversion_of junkp CHR ''d'' ''%m-%d %H:%M:%S %l'' = Some (Inr (TimeStamp ''%m-%d %H:%M:%S '' [] True))"
  by (simp_all add: is_width_char_def is_digit_def conversion_of_def TimeStampComponent_def)

lemma set_log_pattern:
  "setConversionPattern junk junkp log_pattern l = Inr (None, l\<lparr>conversionPattern := log_pattern, components := log_components\<rparr>)"
proof -
  let ?s = "''%m-%d %H:%M:%S %l} [%t][%p]%m%n''"
  let ?st = "\<lparr>literal = [], minw = 0, maxw = 0, comps = []\<rparr>"
  have b: "read_braces ?s = (''%m-%d %H:%M:%S %l'', '' [%t][%p]%m%n'', False)" by simp
  have p: "push_component (TimeStamp ''%m-%d %H:%M:%S '' [] True) ?st = Inr (?st\<lparr>comps := [TimeStamp ''%m-%d %H:%M:%S '' [] True]\<rparr>)"
    by (simp add: push_component_def push_literal_def)
  obtain k where k: "parse_loop junk junkp log_pattern (fresh log_pattern 0) ?st =
      parse_loop junk junkp log_pattern (fresh '' [%t][%p]%m%n'' k) (?st\<lparr>comps := [TimeStamp ''%m-%d %H:%M:%S '' [] True]\<rparr>)"
    using parse_braces [OF log_conversions(2) _ b log_conversions(4) p, where junk = junk and pat = log_pattern and k = 0] by (auto simp: log_pattern_def)
  have "parse_loop junk junkp log_pattern (fresh '' [%t][%p]%m%n'' k) (?st\<lparr>comps := [TimeStamp ''%m-%d %H:%M:%S '' [] True]\<rparr>) =
      Inr (None, ?st\<lparr>comps := log_components\<rparr>)"
    by (simp add: run_conversion_def push_component_def push_literal_def parse_last_literal log_conversions log_components_def)
  then show ?thesis
    unfolding setConversionPattern_def istringstream_fresh k by (simp add: clearConversionPattern_def)
qed

subsection \<open>The configuration\<close>

lemma log_lookup:
  "map_of log_props ''appender.ConsoleLog'' = Some ''ConsoleAppender''"
  "map_of log_props ''appender.ConsoleLog.layout'' = Some ''PatternLayout''"
  "map_of log_props ''appender.ConsoleLog.layout.ConversionPattern'' = Some log_pattern"
  "map_of log_props ''appender.ConsoleLog.target'' = None"
  "map_of log_props ''appender.ConsoleLog.threshold'' = None"
  "map_of log_props ''appender.RootLog'' = Some ''RollingFileAppender''"
  "map_of log_props ''appender.RootLog.layout'' = Some ''PatternLayout''"
  "map_of log_props ''appender.RootLog.layout.ConversionPattern'' = Some log_pattern"
  "map_of log_props ''appender.RootLog.fileName'' = Some ''/home/wjfeng/shared_bike.log''"
  "map_of log_props ''appender.RootLog.maxFileSize'' = Some ''268435456''"
  "map_of log_props ''appender.RootLog.maxBackupIndex'' = Some ''256''"
  "map_of log_props ''appender.RootLog.append'' = None"
  "map_of log_props ''appender.RootLog.threshold'' = None"
  "map_of log_props ''rootCategory'' = Some ''DEBUG, RootLog, ConsoleLog''"
  "map_of log_props ''additivity.rootCategory'' = None"
  by (simp_all add: log_props_def)

text \<open>The state after an appender of the file is instantiated; \<open>a\<close> is its address.\<close>

definition with_appender :: "string \<Rightarrow> appender_call \<Rightarrow> pconf \<Rightarrow> pconf" where
  "with_appender nm c s =
     (let (a, l) = Appender_new nm (logsys s) in
      s\<lparr>logsys := l, calls := (calls s)(a \<mapsto> c), layouts := (layouts s)(a \<mapsto> PatternLayoutObj log_layout)\<rparr>)"

lemma log_words:
  "class_of ''ConsoleAppender'' = ''ConsoleAppender''" "class_of ''RollingFileAppender'' = ''RollingFileAppender''"
  "class_of ''PatternLayout'' = ''PatternLayout''" "map to_lower ''stdout'' = ''stdout''"
  "atoi ''268435456'' = 268435456" "atoi ''256'' = 256" "c_str ''268435456'' = ''268435456''" "c_str ''256'' = ''256''"
  by (simp_all add: class_of_def find_last_def to_lower_def atoi_def is_space_def sign_of_def is_digit_def digit_val_def c_str_def)

lemma set_layout_log:
  assumes "properties s = log_props" and "nm = ''ConsoleLog'' \<or> nm = ''RootLog''"
  shows "setLayout junk junkp a nm s = Inr (Inr (), s\<lparr>layouts := (layouts s)(a \<mapsto> PatternLayoutObj log_layout)\<rparr>)"
  using assms log_lookup
  by (auto simp: setLayout_def log_words PatternLayout_new_ok set_log_pattern put_layout_def log_layout_def)

lemma console_appender:
  assumes "properties s = log_props"
  shows "instantiateAppender junk junkp ''ConsoleLog'' s = Inr (Inr (next_addr (logsys s)), with_appender ''ConsoleLog'' (ConsoleCall False) s)"
proof -
  have "appender_of_type log_props ''ConsoleLog'' ''ConsoleAppender'' = Inr (Inr (ConsoleCall False))"
    using log_lookup by (simp add: appender_of_type_def getString_def log_words [simplified])
  then show ?thesis
    using assms log_lookup
    by (simp add: instantiateAppender_def log_words getString_def bindC_def getC_def new_appender_def requiresLayout_def
        set_layout_log with_appender_def Appender_new_def Let_def retC_def)
qed

lemma root_appender:
  assumes "properties s = log_props"
  shows "instantiateAppender junk junkp ''RootLog'' s = Inr (Inr (next_addr (logsys s)),
    with_appender ''RootLog'' (RollingCall ''/home/wjfeng/shared_bike.log'' 268435456 256 True) s)"
proof -
  have "appender_of_type log_props ''RootLog'' ''RollingFileAppender'' =
      Inr (Inr (RollingCall ''/home/wjfeng/shared_bike.log'' 268435456 256 True))"
    using log_lookup by (simp add: appender_of_type_def getString_def getInt_def getBool_def log_words)
  then show ?thesis
    using assms log_lookup
    by (simp add: instantiateAppender_def log_words getString_def bindC_def getC_def new_appender_def requiresLayout_def
        set_layout_log with_appender_def Appender_new_def Let_def retC_def)
qed

lemma log_keys:
  "keys_from ''appender.'' ''appender/'' log_props =
     [''appender.ConsoleLog'', ''appender.ConsoleLog.layout'', ''appender.ConsoleLog.layout.ConversionPattern'',
      ''appender.RootLog'', ''appender.RootLog.fileName'', ''appender.RootLog.fileNamePattern'', ''appender.RootLog.layout'',
      ''appender.RootLog.layout.ConversionPattern'', ''appender.RootLog.maxBackupIndex'', ''appender.RootLog.maxFileSize'']"
  "getCategories log_props = [''rootCategory'']"
  by (simp_all add: keys_from_def getCategories_def lower_bound_def log_props_def less_char_def)

lemma log_splits:
  "fst (split ''appender.ConsoleLog'' CHR ''.'' INT_MAX) = [''appender'', ''ConsoleLog'']"
  "fst (split ''appender.ConsoleLog.layout'' CHR ''.'' INT_MAX) = [''appender'', ''ConsoleLog'', ''layout'']"
  "fst (split ''appender.ConsoleLog.layout.ConversionPattern'' CHR ''.'' INT_MAX) = [''appender'', ''ConsoleLog'', ''layout'', ''ConversionPattern'']"
  "fst (split ''appender.RootLog'' CHR ''.'' INT_MAX) = [''appender'', ''RootLog'']"
  "fst (split ''appender.RootLog.fileName'' CHR ''.'' INT_MAX) = [''appender'', ''RootLog'', ''fileName'']"
  "fst (split ''appender.RootLog.fileNamePattern'' CHR ''.'' INT_MAX) = [''appender'', ''RootLog'', ''fileNamePattern'']"
  "fst (split ''appender.RootLog.layout'' CHR ''.'' INT_MAX) = [''appender'', ''RootLog'', ''layout'']"
  "fst (split ''appender.RootLog.layout.ConversionPattern'' CHR ''.'' INT_MAX) = [''appender'', ''RootLog'', ''layout'', ''ConversionPattern'']"
  "fst (split ''appender.RootLog.maxBackupIndex'' CHR ''.'' INT_MAX) = [''appender'', ''RootLog'', ''maxBackupIndex'']"
  "fst (split ''appender.RootLog.maxFileSize'' CHR ''.'' INT_MAX) = [''appender'', ''RootLog'', ''maxFileSize'']"
  "fst (split ''DEBUG, RootLog, ConsoleLog'' CHR '','' INT_MAX) = [''DEBUG'', '' RootLog'', '' ConsoleLog'']"
  by (simp_all add: split_def split_loop.simps find_from_def INT_MAX_def)

lemma loop_new:
  "fst (split key CHR ''.'' INT_MAX) = [''appender'', nm] \<Longrightarrow> nm \<noteq> cur \<Longrightarrow> instantiateAppender junk junkp nm s = Inr (Inr a, s1) \<Longrightarrow>
   appender_loop junk junkp cur (key # keys) s =
     appender_loop junk junkp nm keys (s1\<lparr>configured := map_assign nm a (pconf.configured s1)\<rparr>)"
  by (simp add: bindC_def put_configured_def)

lemma loop_own:
  "fst (split key CHR ''.'' INT_MAX) = ''appender'' # cur # r \<Longrightarrow>
   appender_loop junk junkp cur (key # keys) s = appender_loop junk junkp cur keys s"
  by simp

definition log_appenders :: pconf where
  "log_appenders =
     (let s1 = with_appender ''ConsoleLog'' (ConsoleCall False) (conf_of log_props);
          s2 = s1\<lparr>configured := [(''ConsoleLog'', 0)]\<rparr>;
          s3 = with_appender ''RootLog'' (RollingCall ''/home/wjfeng/shared_bike.log'' 268435456 256 True) s2
      in s3\<lparr>configured := [(''ConsoleLog'', 0), (''RootLog'', 1)]\<rparr>)"

lemma instantiate_log: "instantiateAllAppenders junk junkp (conf_of log_props) = Inr (Inr (), log_appenders)"
proof -
  let ?s1 = "with_appender ''ConsoleLog'' (ConsoleCall False) (conf_of log_props)"
  let ?s2 = "?s1\<lparr>configured := [(''ConsoleLog'', 0)]\<rparr>"
  have p: "properties (conf_of log_props) = log_props" "next_addr (logsys (conf_of log_props)) = 0" by (simp_all add: conf_of_def logs0_def)
  have c1: "?s1\<lparr>configured := map_assign ''ConsoleLog'' (next_addr (logsys (conf_of log_props))) (pconf.configured ?s1)\<rparr> = ?s2"
    by (simp add: with_appender_def conf_of_def logs0_def Appender_new_def Let_def)
  have p2: "properties ?s2 = log_props" "next_addr (logsys ?s2) = 1"
    by (simp_all add: with_appender_def conf_of_def logs0_def Appender_new_def Let_def)
  let ?s3 = "with_appender ''RootLog'' (RollingCall ''/home/wjfeng/shared_bike.log'' 268435456 256 True) ?s2"
  have c2: "?s3\<lparr>configured := map_assign ''RootLog'' (next_addr (logsys ?s2)) (pconf.configured ?s3)\<rparr> = log_appenders"
    by (simp add: log_appenders_def with_appender_def conf_of_def logs0_def Appender_new_def Let_def less_char_def)
  have n: "''ConsoleLog'' \<noteq> []" "''RootLog'' \<noteq> ''ConsoleLog''" by simp_all
  show ?thesis
    unfolding instantiate_conf_of log_keys
      loop_new [OF log_splits(1) n(1) console_appender [OF p(1)]] c1 loop_own [OF log_splits(2)] loop_own [OF log_splits(3)]
      loop_new [OF log_splits(4) n(2) root_appender [OF p2(1)]] c2
      loop_own [OF log_splits(5)] loop_own [OF log_splits(6)] loop_own [OF log_splits(7)] loop_own [OF log_splits(8)]
      loop_own [OF log_splits(9)] loop_own [OF log_splits(10)]
    by (simp add: retC_def)
qed

text \<open>The logging system the server runs with: the root, at 2, with the console, 0, and the file, 1.\<close>

definition server_root :: category where
  "server_root = \<lparr>cat_name = [], parent = Null, prio = level DEBUG, appenders = [0, 1], ownsMap = [(0, False), (1, False)], additive = True\<rparr>"

definition server_logs :: logs where
  "server_logs =
     (logsys log_appenders)\<lparr>cats := [2 \<mapsto> server_root], categoryMap := [([], 2)], next_addr := 3\<rparr>"

lemma configure_log: "configureCategory ''rootCategory'' log_appenders = Inr (Inr (), log_appenders\<lparr>logsys := server_logs\<rparr>)"
proof -
  have t: "trim ''DEBUG'' = ''DEBUG''" "trim '' RootLog'' = ''RootLog''" "trim '' ConsoleLog'' = ''ConsoleLog''"
    by (simp_all add: trim_def find_last_not_of_def)
  have p: "getPriorityValue ''DEBUG'' = Inr 700" by (simp add: getPriorityValue_def names_def)
  have a: "properties log_appenders = log_props" "pconf.configured log_appenders = [(''ConsoleLog'', 0), (''RootLog'', 1)]"
    "cats (logsys log_appenders) = Map.empty" "categoryMap (logsys log_appenders) = []" "next_addr (logsys log_appenders) = 2"
    by (simp_all add: log_appenders_def with_appender_def conf_of_def logs0_def Appender_new_def Let_def)
  show ?thesis
    using log_lookup
    by (simp add: configureCategory_def a priority_token_def log_splits t p bindC_def getC_def logsC_def logsC_unit_def
        retC_def throwC_def getRoot_def getInstance.simps getExistingInstance_def setPriority_def level_def new_category_def
        Category_new_def setAdditivity_def removeAllAppenders_def owns_def addAppender_def Let_def getBool_def set_insert_def
        server_logs_def server_root_def)
qed

subsection \<open>Logging\<close>

text \<open>What \<open>Logger::init\<close> sees of \<open>PropertyConfigurator::configure\<close>: the text of the exception.\<close>

definition PropertyConfigurator_configure ::
  "(string \<Rightarrow> string option) \<Rightarrow> char \<Rightarrow> int \<Rightarrow> (string \<Rightarrow> string option) \<Rightarrow> string \<Rightarrow> string option" where
  "PropertyConfigurator_configure getenv junk junkp files file =
     (case doConfigure_file getenv junk junkp files file (conf_of []) of Inr (Inl e, _) \<Rightarrow> Some e | _ \<Rightarrow> None)"

lemma doConfigure_log:
  assumes "plain_text c1" and "plain_text c2" and "plain_text c3"
  shows "doConfigure getenv junk junkp (log_conf c1 c2 c3) (conf_of []) = Inr (Inr (), log_appenders\<lparr>logsys := server_logs\<rparr>)"
proof -
  have p: "(conf_of [])\<lparr>properties := log_props\<rparr> = conf_of log_props" by (simp add: conf_of_def)
  have q: "properties log_appenders = log_props"
    by (simp add: log_appenders_def with_appender_def conf_of_def logs0_def Appender_new_def Let_def)
  show ?thesis
    unfolding doConfigure_def load_log_conf [OF assms] p
    by (simp add: bindC_def instantiate_log getC_def q log_keys configure_log retC_def)
qed

lemma server_apps:
  "apps server_logs 0 = Some \<lparr>app_name = ''ConsoleLog'', threshold = level NOTSET, app_filter = None, appended = []\<rparr>"
  "apps server_logs 1 = Some \<lparr>app_name = ''RootLog'', threshold = level NOTSET, app_filter = None, appended = []\<rparr>"
  "cats server_logs 2 = Some server_root" "categoryMap server_logs = [([], 2)]"
  by (simp_all add: server_logs_def log_appenders_def with_appender_def conf_of_def logs0_def Appender_new_def Let_def)

lemma server_delivers:
  assumes "lv \<noteq> NOTSET" and "e = LoggingEvent_new (t_name T) (t_seconds T) (t_millis T) [] msg (t_ndc T) (level lv)"
  shows "\<exists>l'. level_message lv T 2 msg server_logs = Some (Inr l') \<and>
    map_option appended (apps l' 0) = Some [e] \<and> map_option appended (apps l' 1) = Some [e]"
proof -
  have "getChainedPriority (Ptr 2) server_logs = Some (Inr 700)"
    by (subst getChainedPriority.simps) (simp add: server_apps server_root_def level_def)
  moreover have "level lv \<le> 700" using assms(1) by (cases lv) (simp_all add: level_def)
  ultimately have b: "isPriorityEnabled 2 (level lv) server_logs = Some (Inr True)" by (simp add: isPriorityEnabled_def)
  show ?thesis
    by (simp add: level_message_def when_enabled_def b logUnconditionally2_def server_apps del: One_nat_def)
      (subst callAppenders.simps, simp add: server_apps server_root_def doAppend_def accepts_def assms(2) del: One_nat_def)
qed

lemma log_layout_line:
  "PatternLayout_format C log_layout e =
     bindR (timestamp_text C ''%m-%d %H:%M:%S '' [] True e) (\<lambda>t.
     bindR (getPriorityName (priority e)) (\<lambda>p. Inr (t @ '' ['' @ threadName e @ ''][''
       @ p @ '']'' @ message e @ newline)))"
  by (simp add: PatternLayout_format_def log_layout_def log_components_def bindR_assoc)



end
