(* ===== verification/LogConcurrent.thy ===== *)
theory LogConcurrent
  imports LogCategory
begin

text \<open>
  Logging from several threads: \<open>Category::log\<close> and \<open>Category::callAppenders\<close> of
  \<^verbatim>\<open>src/git/log4cpp/src/Category.cpp\<close> in steps, with the mutex of each category that \<open>callAppenders\<close>
  holds in a \<open>ScopedLock\<close> (\<^verbatim>\<open>src/git/log4cpp/include/log4cpp/threading/PThreads.hh\<close>). The lock lives to the end of
  the function, so a thread that has gone up to a parent still holds the mutexes of the categories below.
  The other theories take a log call as one step; this one shows that they may.
\<close>

subsection \<open>Threads\<close>

text \<open>
  Where a thread is: between two log calls; before the lock of a category; inside the loop, with the
  appenders left; inside \<open>doAppend\<close> of the appender at the third place; on the way back, with locks to
  release. The last list are the categories further down whose mutexes the thread holds, the latest first.
\<close>

datatype log_pc =
    Ready
  | AtCategory LoggingEvent nat "nat list"
  | Looping LoggingEvent nat "nat list" "nat list"
  | Calling LoggingEvent nat nat "nat list" "nat list"
  | Leaving "nat list"

text \<open>A log call to come: what the event takes from its thread, the category, the priority and the message.\<close>

type_synonym log_call = "thread_ctx \<times> nat \<times> int \<times> string"

record log_threads =
  shared :: logs
  mutex :: "nat \<rightharpoonup> nat"
  lpc :: "nat \<Rightarrow> log_pc"
  calls :: "nat \<Rightarrow> log_call list"

definition Mutex_lock :: "nat \<Rightarrow> nat \<Rightarrow> log_threads \<Rightarrow> log_threads option" where
  "Mutex_lock t c s = (if mutex s c = None then Some (s\<lparr>mutex := (mutex s)(c \<mapsto> t)\<rparr>) else None)"

definition Mutex_unlock :: "nat \<Rightarrow> log_threads \<Rightarrow> log_threads" where
  "Mutex_unlock c s = s\<lparr>mutex := (mutex s)(c := None)\<rparr>"

definition go :: "nat \<Rightarrow> log_pc \<Rightarrow> log_threads \<Rightarrow> log_threads" where
  "go t p s = s\<lparr>lpc := (lpc s)(t := p)\<rparr>"

text \<open>\<open>Category::log\<close> up to the call of \<open>callAppenders\<close>.\<close>

definition log_start :: "nat \<Rightarrow> log_threads \<Rightarrow> log_threads res option" where
  "log_start t s =
     (case calls s t of
        [] \<Rightarrow> None
      | (T, c, p, msg) # js \<Rightarrow>
          (let s1 = s\<lparr>calls := (calls s)(t := js)\<rparr> in
           map_option (\<lambda>r. bindR r (\<lambda>enabled.
             if enabled then
               bindR (deref (cats (shared s)) (Ptr c)) (\<lambda>x.
                 Inr (go t (AtCategory (LoggingEvent_new (t_name T) (t_seconds T) (t_millis T) (cat_name x) msg (t_ndc T) p) c []) s1))
             else Inr s1)) (isPriorityEnabled c p (shared s))))"

definition category_enter :: "nat \<Rightarrow> LoggingEvent \<Rightarrow> nat \<Rightarrow> nat list \<Rightarrow> log_threads \<Rightarrow> log_threads res option" where
  "category_enter t e c hs s =
     (case cats (shared s) c of
        None \<Rightarrow> Some (Inl UseAfterFree)
      | Some x \<Rightarrow> map_option (\<lambda>s1. Inr (go t (Looping e c (appenders x) hs) s1)) (Mutex_lock t c s))"

text \<open>After the loop: up to the parent, or back to where the destructors of the locks run.\<close>

definition category_up :: "nat \<Rightarrow> LoggingEvent \<Rightarrow> nat \<Rightarrow> nat list \<Rightarrow> log_threads \<Rightarrow> log_threads res" where
  "category_up t e c hs s =
     bindR (deref (cats (shared s)) (Ptr c)) (\<lambda>x.
       Inr (go t (if additive x \<and> parent x \<noteq> Null
                  then (case parent x of Null \<Rightarrow> Ready | Ptr p \<Rightarrow> AtCategory e p (c # hs)) else Leaving (c # hs)) s))"

definition category_return :: "nat \<Rightarrow> nat list \<Rightarrow> log_threads \<Rightarrow> log_threads option" where
  "category_return t hs s =
     (case hs of [] \<Rightarrow> None | c # hs1 \<Rightarrow> Some (go t (if hs1 = [] then Ready else Leaving hs1) (Mutex_unlock c s)))"

text \<open>The next step of a thread; none when it is blocked or has nothing left to log.\<close>

definition log_step :: "nat \<Rightarrow> log_threads \<Rightarrow> log_threads res option" where
  "log_step t s =
     (case lpc s t of
        Ready \<Rightarrow> log_start t s
      | AtCategory e c hs \<Rightarrow> category_enter t e c hs s
      | Looping e c as1 hs \<Rightarrow>
          Some (case as1 of [] \<Rightarrow> category_up t e c hs s | a # as2 \<Rightarrow> Inr (go t (Calling e c a as2 hs) s))
      | Calling e c a as1 hs \<Rightarrow>
          Some (bindR (doAppend e a (shared s)) (\<lambda>l. Inr (go t (Looping e c as1 hs) (s\<lparr>shared := l\<rparr>))))
      | Leaving hs \<Rightarrow> map_option Inr (category_return t hs s))"

lemma log_step_simps:
  "lpc s t = Ready \<Longrightarrow> log_step t s = log_start t s"
  "lpc s t = AtCategory e c hs \<Longrightarrow> log_step t s = category_enter t e c hs s"
  "lpc s t = Looping e c (a # as1) hs \<Longrightarrow> log_step t s = Some (Inr (go t (Calling e c a as1 hs) s))"
  by (simp_all add: log_step_def)

text \<open>A schedule: the threads in the order of their steps, each of them possible.\<close>

fun log_run :: "nat list \<Rightarrow> log_threads \<Rightarrow> log_threads res option" where
  "log_run [] s = Some (Inr s)"
| "log_run (t # ts) s =
     (case log_step t s of
        None \<Rightarrow> None
      | Some (Inl f) \<Rightarrow> Some (Inl f)
      | Some (Inr s1) \<Rightarrow> log_run ts s1)"

definition log_threads0 :: "logs \<Rightarrow> (nat \<Rightarrow> log_call list) \<Rightarrow> log_threads" where
  "log_threads0 l J = \<lparr>shared = l, mutex = (\<lambda>_. None), lpc = (\<lambda>_. Ready), calls = J\<rparr>"

definition finished :: "nat \<Rightarrow> log_threads \<Rightarrow> bool" where
  "finished N s \<longleftrightarrow> (\<forall>t<N. lpc s t = Ready \<and> calls s t = [])"

text \<open>The calls of one thread as the sequential code makes them.\<close>

fun log_calls :: "log_call list \<Rightarrow> logs \<Rightarrow> logs res option" where
  "log_calls [] l = Some (Inr l)"
| "log_calls ((T, c, p, msg) # js) l =
     (case log_message T c p msg l of
        None \<Rightarrow> None
      | Some (Inl f) \<Rightarrow> Some (Inl f)
      | Some (Inr l1) \<Rightarrow> log_calls js l1)"

subsection \<open>What a thread has still to do\<close>

fun append_pairs :: "(LoggingEvent \<times> nat) list \<Rightarrow> logs \<Rightarrow> logs res" where
  "append_pairs [] l = Inr l"
| "append_pairs ((e, a) # ps) l = bindR (doAppend e a l) (append_pairs ps)"

lemma append_pairs_append: "append_pairs (ps @ qs) l = bindR (append_pairs ps l) (append_pairs qs)"
proof (induction ps arbitrary: l)
  case (Cons p ps)
  obtain e a where p: "p = (e, a)" by (rule prod.exhaust)
  show ?case by (cases "doAppend e a l") (simp_all add: p Cons)
qed simp

lemma append_pairs_all: "append_pairs (map (Pair e) as1) l = append_all e as1 l"
  by (induction as1 arbitrary: l) (auto intro: bindR_cong)

text \<open>Only the contents of the appenders change; the tree of \<open>l\<close> stays.\<close>

definition same_tree :: "logs \<Rightarrow> logs \<Rightarrow> bool" where
  "same_tree l l' \<longleftrightarrow> cats l' = cats l \<and> categoryMap l' = categoryMap l \<and> next_addr l' = next_addr l \<and> dom (apps l') = dom (apps l)"

lemma same_tree_refl [simp]: "same_tree l l"
  by (simp add: same_tree_def)

lemma same_tree_trans: "same_tree l l1 \<Longrightarrow> same_tree l1 l2 \<Longrightarrow> same_tree l l2"
  by (simp add: same_tree_def)

lemma doAppend_tree:
  assumes "doAppend e a l = Inr l'"
  shows "same_tree l l'"
  using assms by (auto simp: doAppend_def bindR_eq_Inr deref_eq_Inr same_tree_def split: if_splits)

lemma doAppend_ok: "apps l a \<noteq> None \<Longrightarrow> \<exists>l'. doAppend e a l = Inr l' \<and> same_tree l l'"
  using doAppend_got [of l a] doAppend_tree [of e a l] by blast

lemma same_tree_ok:
  assumes "hier_ok l" and "same_tree l l'"
  shows "hier_ok l'"
proof -
  have "node_ok l' = node_ok l" using assms(2) by (simp add: node_ok_def same_tree_def fun_eq_iff)
  moreover have "apps l' a = None \<longleftrightarrow> apps l a = None" for a
  proof -
    have "a \<in> dom (apps l') \<longleftrightarrow> a \<in> dom (apps l)" using assms(2) by (simp only: same_tree_def)
    then show ?thesis unfolding domIff by blast
  qed
  ultimately show ?thesis using assms by (simp add: hier_ok_def same_tree_def)
qed

text \<open>The appenders from a category upwards, and those above it.\<close>

definition name_of :: "logs \<Rightarrow> nat \<Rightarrow> string" where
  "name_of l c = (case cats l c of None \<Rightarrow> [] | Some x \<Rightarrow> cat_name x)"

definition in_tree :: "logs \<Rightarrow> nat \<Rightarrow> bool" where
  "in_tree l c \<longleftrightarrow> map_of (categoryMap l) (name_of l c) = Some c"

definition route :: "logs \<Rightarrow> nat \<Rightarrow> nat list" where
  "route l c = targets l (name_of l c)"

definition above :: "logs \<Rightarrow> nat \<Rightarrow> nat list" where
  "above l c = (case cats l c of None \<Rightarrow> []
     | Some x \<Rightarrow> if additive x then (case parent x of Null \<Rightarrow> [] | Ptr p \<Rightarrow> route l p) else [])"

lemma in_treeD:
  assumes "hier_ok l" and "in_tree l c"
  obtains x where "cats l c = Some x" and "c < next_addr l" and "parent x = Null \<longleftrightarrow> cat_name x = []"
    and "\<And>p. parent x = Ptr p \<Longrightarrow> in_tree l p \<and> name_of l p = parent_name (cat_name x)"
proof -
  have n: "node_ok l (name_of l c) c" using assms hier_ok_node by (simp add: in_tree_def)
  then obtain x where x: "cats l c = Some x" "c < next_addr l" "cat_name x = name_of l c"
      "if name_of l c = [] then parent x = Null \<and> prio x < level NOTSET
       else \<exists>p. parent x = Ptr p \<and> map_of (categoryMap l) (parent_name (name_of l c)) = Some p"
    by (auto simp: node_ok_def)
  have "in_tree l p \<and> name_of l p = parent_name (cat_name x)" if "parent x = Ptr p" for p
  proof -
    have p: "map_of (categoryMap l) (parent_name (name_of l c)) = Some p" using x(4) that by (auto split: if_splits)
    then have "name_of l p = parent_name (name_of l c)"
      using hier_ok_node [OF assms(1) p] by (auto simp: node_ok_def name_of_def)
    then show ?thesis using p x(3) by (simp add: in_tree_def)
  qed
  moreover have "parent x = Null \<longleftrightarrow> cat_name x = []" using x(3,4) by (auto split: if_splits)
  ultimately show thesis using that x(1,2) by blast
qed

lemma route_step:
  assumes "hier_ok l" and "in_tree l c" and "cats l c = Some x"
  shows "route l c = appenders x @ above l c"
proof -
  obtain y where y: "cats l c = Some y" "parent y = Null \<longleftrightarrow> cat_name y = []"
      "\<And>p. parent y = Ptr p \<Longrightarrow> in_tree l p \<and> name_of l p = parent_name (cat_name y)"
    using in_treeD [OF assms(1,2)] by metis
  have [simp]: "y = x" using y(1) assms(3) by simp
  have nm: "name_of l c = cat_name x" by (simp add: name_of_def assms(3))
  have m: "map_of (categoryMap l) (cat_name x) = Some c" using assms(2) nm by (simp add: in_tree_def)
  show ?thesis
  proof (cases "parent x")
    case Null
    then have "cat_name x = []" using y(2) by simp
    then show ?thesis using m assms(3) nm Null by (simp add: route_def targets_def above_def)
  next
    case (Ptr p)
    then have "cat_name x \<noteq> []" "name_of l p = parent_name (cat_name x)" using y(2,3) by auto
    then show ?thesis using m assms(3) nm Ptr by (simp add: route_def targets_def above_def ancestors.simps [of "cat_name x"])
  qed
qed

text \<open>The calls of \<open>doAppend\<close> a thread has still to make.\<close>

fun due_pc :: "logs \<Rightarrow> log_pc \<Rightarrow> (LoggingEvent \<times> nat) list" where
  "due_pc l Ready = []"
| "due_pc l (AtCategory e c hs) = map (Pair e) (route l c)"
| "due_pc l (Looping e c as1 hs) = map (Pair e) (as1 @ above l c)"
| "due_pc l (Calling e c a as1 hs) = map (Pair e) (a # as1 @ above l c)"
| "due_pc l (Leaving hs) = []"

fun due_call :: "logs \<Rightarrow> log_call \<Rightarrow> (LoggingEvent \<times> nat) list" where
  "due_call l (T, c, p, msg) =
     (if p \<le> effective l (name_of l c)
      then map (Pair (LoggingEvent_new (t_name T) (t_seconds T) (t_millis T) (name_of l c) msg (t_ndc T) p)) (route l c) else [])"

definition due :: "logs \<Rightarrow> log_threads \<Rightarrow> nat \<Rightarrow> (LoggingEvent \<times> nat) list" where
  "due l s t = due_pc l (lpc s t) @ concat (map (due_call l) (calls s t))"

text \<open>The categories a call visits; and the steps it takes apart from the two for each call of \<open>doAppend\<close>.\<close>

fun hops_of :: "logs \<Rightarrow> string list \<Rightarrow> nat" where
  "hops_of l [] = 0"
| "hops_of l (n # ns) =
     (case map_of (categoryMap l) n of
        None \<Rightarrow> 0
      | Some a \<Rightarrow> (case cats l a of None \<Rightarrow> 0 | Some x \<Rightarrow> Suc (if additive x then hops_of l ns else 0)))"

definition hops :: "logs \<Rightarrow> nat \<Rightarrow> nat" where
  "hops l c = hops_of l (ancestors (name_of l c))"

definition hops_above :: "logs \<Rightarrow> nat \<Rightarrow> nat" where
  "hops_above l c = (case cats l c of None \<Rightarrow> 0
     | Some x \<Rightarrow> if additive x then (case parent x of Null \<Rightarrow> 0 | Ptr p \<Rightarrow> hops l p) else 0)"

lemma hops_step:
  assumes "hier_ok l" and "in_tree l c"
  shows "hops l c = Suc (hops_above l c)"
proof -
  obtain x where x: "cats l c = Some x" "parent x = Null \<longleftrightarrow> cat_name x = []"
      "\<And>p. parent x = Ptr p \<Longrightarrow> in_tree l p \<and> name_of l p = parent_name (cat_name x)"
    using in_treeD [OF assms] by metis
  have nm: "name_of l c = cat_name x" by (simp add: name_of_def x(1))
  have m: "map_of (categoryMap l) (cat_name x) = Some c" using assms(2) nm by (simp add: in_tree_def)
  show ?thesis
  proof (cases "parent x")
    case Null
    then have "cat_name x = []" using x(2) by simp
    then show ?thesis using m x(1) nm Null by (simp add: hops_def hops_above_def)
  next
    case (Ptr p)
    then have "cat_name x \<noteq> []" "name_of l p = parent_name (cat_name x)" using x(2,3) by auto
    then show ?thesis using m x(1) nm Ptr by (simp add: hops_def hops_above_def ancestors.simps [of "cat_name x"])
  qed
qed

fun pc_work :: "logs \<Rightarrow> log_pc \<Rightarrow> nat" where
  "pc_work l Ready = 0"
| "pc_work l (AtCategory e c hs) = 3 * hops l c + length hs"
| "pc_work l (Looping e c as1 hs) = 3 * hops_above l c + length hs + 2"
| "pc_work l (Calling e c a as1 hs) = 3 * hops_above l c + length hs + 1"
| "pc_work l (Leaving hs) = length hs"

fun call_work :: "logs \<Rightarrow> log_call \<Rightarrow> nat" where
  "call_work l (T, c, p, msg) = Suc (if p \<le> effective l (name_of l c) then 3 * hops l c else 0)"

definition work :: "logs \<Rightarrow> log_threads \<Rightarrow> nat \<Rightarrow> nat" where
  "work l s t = 2 * length (due l s t) + pc_work l (lpc s t) + sum_list (map (call_work l) (calls s t))"

subsection \<open>The invariant\<close>

definition appenders_of :: "logs \<Rightarrow> nat \<Rightarrow> nat set" where
  "appenders_of l c = (case cats l c of None \<Rightarrow> {} | Some x \<Rightarrow> set (appenders x))"

text \<open>Every category of the list has the one before it as its parent.\<close>

fun chain :: "logs \<Rightarrow> nat \<Rightarrow> nat list \<Rightarrow> bool" where
  "chain l c [] \<longleftrightarrow> True"
| "chain l c (h # hs) \<longleftrightarrow>
     in_tree l h \<and> (case cats l h of None \<Rightarrow> False | Some x \<Rightarrow> parent x = Ptr c) \<and> chain l h hs"

lemma parent_shorter:
  assumes "hier_ok l" and "in_tree l h" and "cats l h = Some x" and "parent x = Ptr c"
  shows "length (name_of l c) < length (name_of l h)"
proof -
  obtain y where y: "cats l h = Some y" "parent y = Null \<longleftrightarrow> cat_name y = []"
      "\<And>p. parent y = Ptr p \<Longrightarrow> in_tree l p \<and> name_of l p = parent_name (cat_name y)"
    using in_treeD [OF assms(1,2)] by metis
  have "cat_name x \<noteq> []" "name_of l c = parent_name (cat_name x)" using y assms(3,4) by auto
  then show ?thesis using parent_name_shorter [of "cat_name x"] by (simp add: name_of_def assms(3))
qed

lemma chain_longer:
  assumes "hier_ok l"
  shows "chain l c hs \<Longrightarrow> h \<in> set hs \<Longrightarrow> length (name_of l c) < length (name_of l h)"
proof (induction hs arbitrary: c)
  case (Cons g hs)
  then obtain x where x: "in_tree l g" "cats l g = Some x" "parent x = Ptr c" "chain l g hs"
    by (auto split: option.splits)
  have "length (name_of l c) < length (name_of l g)" by (rule parent_shorter [OF assms x(1-3)])
  then show ?case using Cons.IH [OF x(4)] Cons.prems(2) by fastforce
qed simp

fun place_ok :: "logs \<Rightarrow> log_pc \<Rightarrow> bool" where
  "place_ok l Ready \<longleftrightarrow> True"
| "place_ok l (AtCategory e c hs) \<longleftrightarrow> in_tree l c \<and> chain l c hs"
| "place_ok l (Looping e c as1 hs) \<longleftrightarrow> in_tree l c \<and> chain l c hs \<and> set as1 \<subseteq> appenders_of l c"
| "place_ok l (Calling e c a as1 hs) \<longleftrightarrow> in_tree l c \<and> chain l c hs \<and> insert a (set as1) \<subseteq> appenders_of l c"
| "place_ok l (Leaving hs) \<longleftrightarrow> (case hs of [] \<Rightarrow> False | c # hs1 \<Rightarrow> chain l c hs1)"

text \<open>The categories whose mutexes a thread holds.\<close>

fun held_locks :: "log_pc \<Rightarrow> nat list" where
  "held_locks Ready = []"
| "held_locks (AtCategory e c hs) = hs"
| "held_locks (Looping e c as1 hs) = c # hs"
| "held_locks (Calling e c a as1 hs) = c # hs"
| "held_locks (Leaving hs) = hs"

definition live :: "logs \<Rightarrow> (LoggingEvent \<times> nat) list \<Rightarrow> bool" where
  "live l ps \<longleftrightarrow> list_all (\<lambda>(_, a). apps l a \<noteq> None) ps"

definition calls_in_tree :: "logs \<Rightarrow> log_call list \<Rightarrow> bool" where
  "calls_in_tree l js \<longleftrightarrow> list_all (\<lambda>(_, c, _, _). in_tree l c) js"

definition log_inv :: "logs \<Rightarrow> log_threads \<Rightarrow> bool" where
  "log_inv l s \<longleftrightarrow> same_tree l (shared s) \<and> (\<forall>t. place_ok l (lpc s t)) \<and>
     (\<forall>c t. mutex s c = Some t \<longleftrightarrow> c \<in> set (held_locks (lpc s t))) \<and>
     (\<forall>t. calls_in_tree l (calls s t)) \<and> (\<forall>t. live l (due l s t))"

text \<open>What a step of thread \<open>t\<close> does: it is one unit of its work, and either no call of \<open>doAppend\<close> or the first one due.\<close>

definition stepped :: "logs \<Rightarrow> nat \<Rightarrow> log_threads \<Rightarrow> log_threads \<Rightarrow> bool" where
  "stepped l t s s' \<longleftrightarrow> (\<forall>u. u \<noteq> t \<longrightarrow> lpc s' u = lpc s u \<and> calls s' u = calls s u) \<and> work l s t = Suc (work l s' t) \<and>
     (shared s' = shared s \<and> due l s' t = due l s t \<or>
      (\<exists>e a. due l s t = (e, a) # due l s' t \<and> doAppend e a (shared s) = Inr (shared s')))"

lemma due_other: "lpc s' u = lpc s u \<Longrightarrow> calls s' u = calls s u \<Longrightarrow> due l s' u = due l s u"
  by (simp add: due_def)

lemma tree_priority:
  assumes "hier_ok l" and "same_tree l l'" and "in_tree l c"
  shows "isPriorityEnabled c p l' = Some (Inr (p \<le> effective l (name_of l c)))"
proof -
  have m: "map_of (categoryMap l') (name_of l c) = Some c" using assms(2,3) by (simp add: in_tree_def same_tree_def)
  have eq: "cats l' = cats l" "categoryMap l' = categoryMap l" using assms(2) by (simp_all add: same_tree_def)
  have pr: "prio_of l' = prio_of l" unfolding fun_eq_iff prio_of_def eq by simp
  have "effective l' = effective l" unfolding fun_eq_iff effective_def pr by simp
  then show ?thesis using chained_priority [OF same_tree_ok [OF assms(1,2)] m] by (simp add: isPriorityEnabled_def)
qed

text \<open>A step that takes the thread from \<open>p\<close> to \<open>p'\<close>, with the mutexes that go with it.\<close>

lemma log_inv_go:
  assumes "log_inv l s" and "held_locks p' = held_locks (lpc s t)" and "place_ok l p'" and "same_tree l l'"
    and "calls_in_tree l js" and "live l (due_pc l p' @ concat (map (due_call l) js))"
  shows "log_inv l (s\<lparr>shared := l', lpc := (lpc s)(t := p'), calls := (calls s)(t := js)\<rparr>)"
  using assms by (auto simp: log_inv_def due_def)

lemma log_inv_owner: "log_inv l s \<Longrightarrow> mutex s c = Some t \<longleftrightarrow> c \<in> set (held_locks (lpc s t))"
  by (simp add: log_inv_def)

lemma log_inv_mutex:
  assumes "log_inv l s" and "place_ok l p'" and "live l (due_pc l p' @ concat (map (due_call l) (calls s t)))"
    and "\<And>d u. M d = Some u \<longleftrightarrow> d \<in> set (held_locks (if u = t then p' else lpc s u))"
  shows "log_inv l (s\<lparr>mutex := M, lpc := (lpc s)(t := p')\<rparr>)"
  using assms by (auto simp: log_inv_def due_def)

lemma log_inv_lock:
  assumes "log_inv l s" and "mutex s c = None" and "held_locks p' = c # held_locks (lpc s t)" and "place_ok l p'"
    and "live l (due_pc l p' @ concat (map (due_call l) (calls s t)))"
  shows "log_inv l (s\<lparr>mutex := (mutex s)(c \<mapsto> t), lpc := (lpc s)(t := p')\<rparr>)"
proof (rule log_inv_mutex [OF assms(1,4,5)])
  fix d u
  have "c \<notin> set (held_locks (lpc s u))" using log_inv_owner [OF assms(1), of c u] assms(2) by simp
  then show "((mutex s)(c \<mapsto> t)) d = Some u \<longleftrightarrow> d \<in> set (held_locks (if u = t then p' else lpc s u))"
    using log_inv_owner [OF assms(1), of d u] assms(3) by auto
qed

lemma log_inv_unlock:
  assumes "log_inv l s" and "held_locks (lpc s t) = c # held_locks p'" and "c \<notin> set (held_locks p')" and "place_ok l p'"
    and "live l (due_pc l p' @ concat (map (due_call l) (calls s t)))"
  shows "log_inv l (s\<lparr>mutex := (mutex s)(c := None), lpc := (lpc s)(t := p')\<rparr>)"
proof (rule log_inv_mutex [OF assms(1,4,5)])
  fix d u
  have "mutex s c = Some t" using log_inv_owner [OF assms(1), of c t] assms(2) by simp
  then have "u \<noteq> t \<Longrightarrow> c \<notin> set (held_locks (lpc s u))" using log_inv_owner [OF assms(1), of c u] by simp
  then show "((mutex s)(c := None)) d = Some u \<longleftrightarrow> d \<in> set (held_locks (if u = t then p' else lpc s u))"
    using log_inv_owner [OF assms(1), of d u] assms(2,3) by auto
qed

lemma stepI:
  assumes "log_inv l s'" and "\<And>u. u \<noteq> t \<Longrightarrow> lpc s' u = lpc s u \<and> calls s' u = calls s u"
    and "work l s t = Suc (work l s' t)" and "shared s' = shared s" and "due l s' t = due l s t"
  shows "log_inv l s' \<and> stepped l t s s'"
  using assms by (simp add: stepped_def)

lemma live_due: "log_inv l s \<Longrightarrow> live l (due_pc l (lpc s t) @ concat (map (due_call l) (calls s t)))"
  by (simp add: log_inv_def due_def)

lemma start_step:
  assumes "hier_ok l" and "log_inv l s" and "lpc s t = Ready" and "log_start t s = Some r"
  shows "\<exists>s'. r = Inr s' \<and> log_inv l s' \<and> stepped l t s s'"
proof -
  obtain T c p msg js where j: "calls s t = (T, c, p, msg) # js"
    using assms(4) by (cases "calls s t") (auto simp: log_start_def)
  have c: "in_tree l c" "calls_in_tree l js"
    using assms(2) j unfolding log_inv_def calls_in_tree_def by (metis (no_types, lifting) case_prodD list.pred_inject(2))+
  have sh: "same_tree l (shared s)" using assms(2) by (simp add: log_inv_def)
  obtain x where x: "cats l c = Some x" using in_treeD [OF assms(1) c(1)] by metis
  have nm: "name_of l c = cat_name x" by (simp add: name_of_def x)
  have xs: "cats (shared s) c = Some x" using x sh by (simp add: same_tree_def)
  define e where "e = LoggingEvent_new (t_name T) (t_seconds T) (t_millis T) (cat_name x) msg (t_ndc T) p"
  define p' where "p' = (if p \<le> effective l (name_of l c) then AtCategory e c [] else Ready)"
  define s' where "s' = s\<lparr>shared := shared s, lpc := (lpc s)(t := p'), calls := (calls s)(t := js)\<rparr>"
  have d: "due_call l (T, c, p, msg) = due_pc l p'" by (simp add: p'_def e_def nm)
  have r: "r = Inr s'"
    using assms(3,4) j xs tree_priority [OF assms(1) sh c(1), of p]
    by (cases s) (auto simp: log_start_def Let_def s'_def p'_def e_def go_def fun_upd_idem)
  have lv: "live l (due_pc l p' @ concat (map (due_call l) js))"
    using live_due [OF assms(2), of t] by (simp add: assms(3) j d del: due_call.simps)
  have "log_inv l s'" unfolding s'_def
    using assms(2,3) c sh lv by (intro log_inv_go) (simp_all add: p'_def)
  moreover have "due l s' t = due l s t" by (simp add: due_def s'_def assms(3) j d del: due_call.simps)
  moreover have "work l s t = Suc (work l s' t)"
    using \<open>due l s' t = due l s t\<close> by (simp add: work_def s'_def assms(3) j p'_def)
  ultimately show ?thesis using r stepI [of l s' t s] by (simp add: s'_def)
qed

lemma enter_step:
  assumes "hier_ok l" and "log_inv l s" and "lpc s t = AtCategory e c hs" and "category_enter t e c hs s = Some r"
  shows "\<exists>s'. r = Inr s' \<and> log_inv l s' \<and> stepped l t s s'"
proof -
  have c: "in_tree l c" "chain l c hs" using assms(2,3) by (metis log_inv_def place_ok.simps(2))+
  have sh: "same_tree l (shared s)" using assms(2) by (simp add: log_inv_def)
  obtain x where x: "cats l c = Some x" using in_treeD [OF assms(1) c(1)] by metis
  have xs: "cats (shared s) c = Some x" using x sh by (simp add: same_tree_def)
  define s' where "s' = s\<lparr>mutex := (mutex s)(c \<mapsto> t), lpc := (lpc s)(t := Looping e c (appenders x) hs)\<rparr>"
  have r: "r = Inr s'" "mutex s c = None"
    using assms(4) xs by (auto simp: category_enter_def Mutex_lock_def s'_def go_def split: if_splits)
  have rt: "route l c = appenders x @ above l c" by (rule route_step [OF assms(1) c(1) x])
  have "due l s' t = due l s t" by (simp add: due_def s'_def assms(3) rt)
  moreover have "work l s t = Suc (work l s' t)"
    using \<open>due l s' t = due l s t\<close> hops_step [OF assms(1) c(1)] by (simp add: work_def s'_def assms(3))
  moreover have "log_inv l s'" unfolding s'_def
    using assms(2,3) c r(2) live_due [OF assms(2), of t]
    by (intro log_inv_lock) (simp_all add: rt appenders_of_def x)
  ultimately show ?thesis using r stepI [of l s' t s] by (simp add: s'_def)
qed

lemma up_step:
  assumes "hier_ok l" and "log_inv l s" and "lpc s t = Looping e c [] hs" and "category_up t e c hs s = r"
  shows "\<exists>s'. r = Inr s' \<and> log_inv l s' \<and> stepped l t s s'"
proof -
  have c: "in_tree l c" "chain l c hs" using assms(2,3) by (metis log_inv_def place_ok.simps(3))+
  have sh: "same_tree l (shared s)" using assms(2) by (simp add: log_inv_def)
  obtain x where x: "cats l c = Some x" and up: "\<And>p. parent x = Ptr p \<Longrightarrow> in_tree l p"
    using in_treeD [OF assms(1) c(1)] by metis
  have xs: "cats (shared s) c = Some x" using x sh by (simp add: same_tree_def)
  define p' where "p' = (if additive x \<and> parent x \<noteq> Null
    then (case parent x of Null \<Rightarrow> Ready | Ptr p \<Rightarrow> AtCategory e p (c # hs)) else Leaving (c # hs))"
  define s' where "s' = s\<lparr>shared := shared s, lpc := (lpc s)(t := p'), calls := (calls s)(t := calls s t)\<rparr>"
  have r: "r = Inr s'" using assms(4) xs by (cases s) (simp add: category_up_def go_def s'_def p'_def)
  have d: "due_pc l p' = map (Pair e) (above l c)" by (simp add: p'_def above_def x split: ptr.split)
  have "due l s' t = due l s t" by (simp add: due_def s'_def assms(3) d)
  moreover have "pc_work l p' = 3 * hops_above l c + length hs + 1" by (simp add: p'_def hops_above_def x split: ptr.split)
  then have "work l s t = Suc (work l s' t)"
    using \<open>due l s' t = due l s t\<close> by (simp add: work_def s'_def assms(3))
  moreover have "log_inv l s'" unfolding s'_def
  proof (rule log_inv_go [OF assms(2)])
    show "held_locks p' = held_locks (lpc s t)" by (simp add: p'_def assms(3) split: ptr.split)
    show "place_ok l p'" using c up x by (simp add: p'_def split: ptr.split)
    show "live l (due_pc l p' @ concat (map (due_call l) (calls s t)))"
      using live_due [OF assms(2), of t] by (simp add: d assms(3))
  qed (use assms(2) in \<open>simp_all add: log_inv_def\<close>)
  ultimately show ?thesis using r stepI [of l s' t s] by (simp add: s'_def)
qed

lemma return_step:
  assumes "hier_ok l" and "log_inv l s" and "lpc s t = Leaving hs" and "category_return t hs s = Some s'"
  shows "log_inv l s' \<and> stepped l t s s'"
proof -
  obtain c hs1 where hs: "hs = c # hs1" using assms(4) by (cases hs) (simp_all add: category_return_def)
  define p' where "p' = (if hs1 = [] then Ready else Leaving hs1)"
  have s': "s' = s\<lparr>mutex := (mutex s)(c := None), lpc := (lpc s)(t := p')\<rparr>"
    using assms(4) by (simp add: category_return_def hs Mutex_unlock_def go_def p'_def)
  have "place_ok l (lpc s t)" using assms(2) by (simp add: log_inv_def)
  then have ch: "chain l c hs1" by (simp add: assms(3) hs)
  have h: "held_locks p' = hs1" by (simp add: p'_def)
  have d: "due_pc l p' = []" by (simp add: p'_def)
  have "log_inv l s'" unfolding s'
  proof (rule log_inv_unlock [OF assms(2)])
    show "held_locks (lpc s t) = c # held_locks p'" by (simp add: assms(3) hs h)
    show "c \<notin> set (held_locks p')" using chain_longer [OF assms(1) ch, of c] h by auto
    show "place_ok l p'" using ch by (cases hs1) (simp_all add: p'_def)
    show "live l (due_pc l p' @ concat (map (due_call l) (calls s t)))"
      using live_due [OF assms(2), of t] by (simp add: d assms(3))
  qed
  moreover have "due l s' t = due l s t" by (simp add: due_def s' d assms(3))
  moreover have "work l s t = Suc (work l s' t)"
    using \<open>due l s' t = due l s t\<close> by (simp add: work_def s' assms(3) hs p'_def)
  ultimately show ?thesis using stepI [of l s' t s] by (simp add: s')
qed

lemma call_step:
  assumes "log_inv l s" and "lpc s t = Looping e c (a # as1) hs"
  shows "log_inv l (go t (Calling e c a as1 hs) s) \<and> stepped l t s (go t (Calling e c a as1 hs) s)"
proof -
  let ?s = "s\<lparr>shared := shared s, lpc := (lpc s)(t := Calling e c a as1 hs), calls := (calls s)(t := calls s t)\<rparr>"
  have s: "go t (Calling e c a as1 hs) s = ?s" by (cases s) (simp add: go_def)
  have "place_ok l (lpc s t)" using assms(1) by (simp add: log_inv_def)
  then have "log_inv l ?s"
    using assms live_due [OF assms(1), of t] by (intro log_inv_go) (auto simp: log_inv_def)
  moreover have d: "due l ?s t = due l s t" by (simp add: due_def assms(2))
  moreover have "work l s t = Suc (work l ?s t)" using d by (simp add: work_def assms(2))
  ultimately show ?thesis unfolding s using stepI [of l ?s t s] by simp
qed

lemma append_step:
  assumes "hier_ok l" and "log_inv l s" and "lpc s t = Calling e c a as1 hs"
  shows "\<exists>l' s'. doAppend e a (shared s) = Inr l' \<and> s' = go t (Looping e c as1 hs) (s\<lparr>shared := l'\<rparr>) \<and>
    log_inv l s' \<and> stepped l t s s'"
proof -
  have sh: "same_tree l (shared s)" using assms(2) by (simp add: log_inv_def)
  have "apps l a \<noteq> None" using live_due [OF assms(2), of t] by (simp add: assms(3) live_def)
  then have "apps (shared s) a \<noteq> None" using sh by (auto simp: same_tree_def)
  from doAppend_ok [OF this] obtain l' where l': "doAppend e a (shared s) = Inr l'" "same_tree (shared s) l'" by blast
  let ?s = "s\<lparr>shared := l', lpc := (lpc s)(t := Looping e c as1 hs), calls := (calls s)(t := calls s t)\<rparr>"
  have s: "go t (Looping e c as1 hs) (s\<lparr>shared := l'\<rparr>) = ?s" by (cases s) (simp add: go_def)
  have "place_ok l (lpc s t)" using assms(2) by (simp add: log_inv_def)
  then have "log_inv l ?s"
    using assms same_tree_trans [OF sh l'(2)] live_due [OF assms(2), of t]
    by (intro log_inv_go) (auto simp: log_inv_def live_def)
  moreover have d: "due l s t = (e, a) # due l ?s t" by (simp add: due_def assms(3))
  moreover have "work l s t = Suc (work l ?s t)" using d by (simp add: work_def assms(3))
  ultimately show ?thesis using l'(1) s by (intro exI [of _ l'] exI [of _ ?s]) (auto simp: stepped_def)
qed

lemma log_step_ok:
  assumes "hier_ok l" and "log_inv l s" and "log_step t s = Some r"
  shows "\<exists>s'. r = Inr s' \<and> log_inv l s' \<and> stepped l t s s'"
proof (cases "lpc s t")
  case Ready
  then show ?thesis using start_step [OF assms(1,2)] assms(3) by (simp add: log_step_def)
next
  case (AtCategory e c hs)
  then show ?thesis using enter_step [OF assms(1,2)] assms(3) by (simp add: log_step_def)
next
  case (Looping e c as1 hs)
  then show ?thesis
    using up_step [OF assms(1,2)] call_step [OF assms(2)] assms(3)
    by (cases as1) (auto simp: log_step_def)
next
  case (Calling e c a as1 hs)
  then show ?thesis using append_step [OF assms(1,2) Calling] assms(3) by (auto simp: log_step_def)
next
  case (Leaving hs)
  then show ?thesis using return_step [OF assms(1,2) Leaving] assms(3) by (auto simp: log_step_def)
qed

subsection \<open>Runs\<close>

definition log_calls_ok :: "logs \<Rightarrow> log_call list \<Rightarrow> bool" where
  "log_calls_ok l js \<longleftrightarrow> list_all (\<lambda>(_, c, _, _). in_tree l c \<and> list_all (\<lambda>a. apps l a \<noteq> None) (route l c)) js"

lemma log_calls_ok_due: "log_calls_ok l js \<Longrightarrow> calls_in_tree l js \<and> live l (concat (map (due_call l) js))"
  by (induction js) (auto simp: log_calls_ok_def calls_in_tree_def live_def list_all_iff)

lemma log_inv0: "(\<And>t. log_calls_ok l (J t)) \<Longrightarrow> log_inv l (log_threads0 l J)"
  using log_calls_ok_due by (simp add: log_inv_def log_threads0_def due_def)

lemma log_run_append:
  "log_run (ts @ us) s = (case log_run ts s of None \<Rightarrow> None | Some (Inl f) \<Rightarrow> Some (Inl f) | Some (Inr s1) \<Rightarrow> log_run us s1)"
  by (induction ts arbitrary: s) (auto split: option.split sum.split)

text \<open>
  A run with its calls of \<open>doAppend\<close> in their order, each with its thread: those of one thread are the
  first of the ones due to it.
\<close>

lemma log_run_trace:
  assumes "hier_ok l" and "log_inv l s" and "log_run ts s = Some r"
  shows "\<exists>s' tr. r = Inr s' \<and> log_inv l s' \<and> append_pairs (map snd tr) (shared s) = Inr (shared s') \<and>
    (\<forall>t. map snd (List.filter (\<lambda>q. fst q = t) tr) @ due l s' t = due l s t)"
  using assms(2,3)
proof (induction ts arbitrary: s)
  case Nil
  then show ?case by (intro exI [of _ s] exI [of _ "[]"]) simp
next
  case (Cons t ts)
  obtain r1 where r1: "log_step t s = Some r1" using Cons.prems(2) by (cases "log_step t s") auto
  obtain s1 where s1: "r1 = Inr s1" "log_inv l s1" "stepped l t s s1"
    using log_step_ok [OF assms(1) Cons.prems(1) r1] by blast
  have "log_run ts s1 = Some r" using Cons.prems(2) r1 s1(1) by simp
  from Cons.IH [OF s1(2) this] obtain s' tr where IH: "r = Inr s'" "log_inv l s'"
      "append_pairs (map snd tr) (shared s1) = Inr (shared s')"
      "\<And>u. map snd (List.filter (\<lambda>q. fst q = u) tr) @ due l s' u = due l s1 u" by blast
  have other: "due l s1 u = due l s u" if "u \<noteq> t" for u
    using s1(3) that due_other [of s1 u s l] by (simp add: stepped_def)
  from s1(3) consider "shared s1 = shared s" "due l s1 t = due l s t"
    | e a where "due l s t = (e, a) # due l s1 t" "doAppend e a (shared s) = Inr (shared s1)"
    by (auto simp: stepped_def)
  then show ?case
  proof cases
    case 1
    then have "due l s1 u = due l s u" for u using other by (cases "u = t") auto
    then show ?thesis using IH 1 by (intro exI [of _ s'] exI [of _ tr]) simp
  next
    case 2
    then have "map snd (List.filter (\<lambda>q. fst q = u) ((t, e, a) # tr)) @ due l s' u = due l s u" for u
      using other [of u] IH(4) [of u] by (cases "u = t") auto
    then show ?thesis using IH 2 by (intro exI [of _ s'] exI [of _ "(t, e, a) # tr"]) simp
  qed
qed

lemma append_pairs_live: "live l ps \<Longrightarrow> same_tree l l' \<Longrightarrow> \<exists>l1. append_pairs ps l' = Inr l1 \<and> same_tree l l1"
proof (induction ps arbitrary: l')
  case (Cons p ps)
  obtain e a where p: "p = (e, a)" by (rule prod.exhaust)
  have "apps l' a \<noteq> None" using Cons.prems p by (auto simp: live_def same_tree_def)
  from doAppend_ok [OF this] obtain l1 where l1: "doAppend e a l' = Inr l1" "same_tree l' l1" by blast
  have "live l ps" using Cons.prems(1) by (simp add: live_def)
  from Cons.IH [OF this same_tree_trans [OF Cons.prems(2) l1(2)]] show ?case using l1(1) p by simp
qed simp

text \<open>Run alone, the calls of a thread are the ones due to it.\<close>

lemma log_calls_due:
  assumes "hier_ok l" and "log_calls_ok l js" and "same_tree l l'"
  shows "log_calls js l' = Some (append_pairs (concat (map (due_call l) js)) l')"
  using assms(2,3)
proof (induction js arbitrary: l')
  case (Cons j js)
  obtain T c p msg where j: "j = (T, c, p, msg)" by (metis prod.exhaust)
  have c: "in_tree l c" "log_calls_ok l js" using Cons.prems(1) j by (simp_all add: log_calls_ok_def)
  obtain x where x: "cats l c = Some x" using in_treeD [OF assms(1) c(1)] by metis
  have nm: "name_of l c = cat_name x" by (simp add: name_of_def x)
  have xs: "cats l' c = Some x" using x Cons.prems(2) by (simp add: same_tree_def)
  let ?e = "LoggingEvent_new (t_name T) (t_seconds T) (t_millis T) (cat_name x) msg (t_ndc T) p"
  have m: "map_of (categoryMap l) (name_of l c) = Some c" using c(1) by (simp add: in_tree_def)
  have "callAppenders ?e (Ptr c) l' = Some (append_pairs (map (Pair ?e) (route l c)) l')"
    using callAppenders_targets [OF assms(1) m, of l' ?e] Cons.prems(2) by (simp add: same_tree_def append_pairs_all route_def)
  then have msg: "log_message T c p msg l' = Some (append_pairs (due_call l j) l')"
    using tree_priority [OF assms(1) Cons.prems(2) c(1), of p] xs
    by (simp add: log_message_def when_enabled_def logUnconditionally2_def j nm)
  have "live l (due_call l j)" using log_calls_ok_due [OF Cons.prems(1)] by (simp add: live_def)
  from append_pairs_live [OF this Cons.prems(2)]
  obtain l1 where l1: "append_pairs (due_call l j) l' = Inr l1" "same_tree l l1" by blast
  show ?case using msg l1 Cons.IH [OF c(2) l1(2)] by (simp add: j append_pairs_append del: due_call.simps)
qed simp


text \<open>Steps and progress.\<close>

lemma log_run_work:
  assumes "hier_ok l" and "log_inv l s" and "log_run ts s = Some r" and "set ts \<subseteq> {..<N}"
  shows "\<exists>s'. r = Inr s' \<and> log_inv l s' \<and> length ts + (\<Sum>t<N. work l s' t) = (\<Sum>t<N. work l s t) \<and>
    (\<forall>t. N \<le> t \<longrightarrow> lpc s' t = lpc s t)"
  using assms(2-4)
proof (induction ts arbitrary: s)
  case (Cons t ts)
  obtain r1 where r1: "log_step t s = Some r1" using Cons.prems(2) by (cases "log_step t s") auto
  obtain s1 where s1: "r1 = Inr s1" "log_inv l s1" "stepped l t s s1"
    using log_step_ok [OF assms(1) Cons.prems(1) r1] by blast
  have "log_run ts s1 = Some r" using Cons.prems(2) r1 s1(1) by simp
  from Cons.IH [OF s1(2) this] Cons.prems(3)
  obtain s' where IH: "r = Inr s'" "log_inv l s'" "length ts + (\<Sum>t<N. work l s' t) = (\<Sum>t<N. work l s1 t)"
      "\<forall>t. N \<le> t \<longrightarrow> lpc s' t = lpc s1 t" by auto
  have t: "t \<in> {..<N}" using Cons.prems(3) by simp
  have "work l s1 u = work l s u" if "u \<noteq> t" for u
    using s1(3) that due_other [of s1 u s l] by (simp add: stepped_def work_def)
  then have "(\<Sum>u\<in>{..<N} - {t}. work l s1 u) = (\<Sum>u\<in>{..<N} - {t}. work l s u)" by (intro sum.cong) auto
  moreover have "work l s t = Suc (work l s1 t)" using s1(3) by (simp add: stepped_def)
  ultimately have "(\<Sum>u<N. work l s u) = Suc (\<Sum>u<N. work l s1 u)"
    using sum.remove [OF _ t, of "work l s"] sum.remove [OF _ t, of "work l s1"] by simp
  moreover have "\<forall>u. N \<le> u \<longrightarrow> lpc s1 u = lpc s u" using s1(3) t by (auto simp: stepped_def)
  ultimately show ?case using IH by auto
next
  case Nil
  then show ?case by (intro exI [of _ s]) simp
qed

lemma ready_steps:
  assumes "hier_ok l" and "log_inv l s" and "lpc s t = Ready" and "calls s t \<noteq> []"
  shows "log_step t s \<noteq> None"
proof -
  obtain T c p msg js where j: "calls s t = (T, c, p, msg) # js"
    using assms(4) by (cases "calls s t") (auto simp: prod.exhaust)
  have "calls_in_tree l (calls s t)" using assms(2) by (simp add: log_inv_def)
  then have c: "in_tree l c" by (simp add: j calls_in_tree_def)
  have "same_tree l (shared s)" using assms(2) by (simp add: log_inv_def)
  from tree_priority [OF assms(1) this c] show ?thesis using assms(3) by (simp add: log_step_def log_start_def j Let_def)
qed

text \<open>
  A thread that waits for a category holds only categories below it, so that the one it waits for is
  held by a thread that can step or waits further up.
\<close>

lemma waiting_progress:
  assumes "hier_ok l" and "log_inv l s" and "\<And>t. N \<le> t \<Longrightarrow> lpc s t = Ready" and "lpc s t = AtCategory e c hs"
  shows "\<exists>t<N. log_step t s \<noteq> None"
  using assms(4)
proof (induction "length (name_of l c)" arbitrary: t e c hs rule: less_induct)
  case less
  show ?case
  proof (cases "mutex s c")
    case None
    then have "log_step t s \<noteq> None"
      by (auto simp: log_step_def less.prems category_enter_def Mutex_lock_def split: option.split)
    moreover have "t < N" using assms(3) [of t] less.prems by (cases "t < N") auto
    ultimately show ?thesis by blast
  next
    case (Some u)
    then have u: "c \<in> set (held_locks (lpc s u))" using log_inv_owner [OF assms(2)] by blast
    then have N: "u < N" using assms(3) [of u] by (cases "u < N") auto
    have ok: "place_ok l (lpc s u)" using assms(2) by (simp add: log_inv_def)
    show ?thesis
    proof (cases "lpc s u")
      case (AtCategory e1 d gs)
      then have "length (name_of l d) < length (name_of l c)" using chain_longer [OF assms(1), of d gs c] u ok by simp
      then show ?thesis using less.hyps AtCategory by blast
    next
      case (Leaving gs)
      then have "log_step u s \<noteq> None" using ok by (cases gs) (simp_all add: log_step_def category_return_def)
      then show ?thesis using N by blast
    next
      case (Looping e1 d bs gs)
      then have "log_step u s \<noteq> None" by (simp add: log_step_def)
      then show ?thesis using N by blast
    next
      case (Calling e1 d b bs gs)
      then have "log_step u s \<noteq> None" by (simp add: log_step_def)
      then show ?thesis using N by blast
    qed (use u in simp)
  qed
qed

lemma log_progress:
  assumes "hier_ok l" and "log_inv l s" and "\<And>t. N \<le> t \<Longrightarrow> lpc s t = Ready" and "\<not> finished N s"
  shows "\<exists>t<N. log_step t s \<noteq> None"
proof -
  obtain t where t: "t < N" "lpc s t \<noteq> Ready \<or> calls s t \<noteq> []" using assms(4) by (auto simp: finished_def)
  have ok: "place_ok l (lpc s t)" using assms(2) by (simp add: log_inv_def)
  show ?thesis
  proof (cases "lpc s t")
    case Ready
    then show ?thesis using ready_steps [OF assms(1,2) Ready] t by blast
  next
    case (AtCategory e c hs)
    then show ?thesis using waiting_progress [OF assms(1,2) _ AtCategory, of N] assms(3) by blast
  next
    case (Leaving hs)
    then have "log_step t s \<noteq> None" using ok by (cases hs) (simp_all add: log_step_def category_return_def)
    then show ?thesis using t(1) by blast
  next
    case (Looping e c as1 hs)
    then have "log_step t s \<noteq> None" by (simp add: log_step_def)
    then show ?thesis using t(1) by blast
  next
    case (Calling e c a as1 hs)
    then have "log_step t s \<noteq> None" by (simp add: log_step_def)
    then show ?thesis using t(1) by blast
  qed
qed

text \<open>
  C20. Threads that log neither fault nor block each other for ever: every schedule of \<open>N\<close> threads takes
  exactly the steps by which the work that is left gets less, and as long as a thread has something to
  log some thread can step. So every schedule that cannot be continued has delivered everything.
\<close>

theorem concurrent_ends:
  assumes "hier_ok l" and "\<And>t. log_calls_ok l (J t)" and "log_run ts (log_threads0 l J) = Some r" and "set ts \<subseteq> {..<N}"
  shows "\<exists>s. r = Inr s \<and> length ts + (\<Sum>t<N. work l s t) = (\<Sum>t<N. work l (log_threads0 l J) t) \<and>
    (finished N s \<or> (\<exists>t<N. \<exists>s'. log_step t s = Some (Inr s')))"
proof -
  obtain s where s: "r = Inr s" "log_inv l s"
      "length ts + (\<Sum>t<N. work l s t) = (\<Sum>t<N. work l (log_threads0 l J) t)"
      "\<And>t. N \<le> t \<Longrightarrow> lpc s t = Ready"
    using log_run_work [OF assms(1) log_inv0 [OF assms(2)] assms(3,4)] by (auto simp: log_threads0_def)
  have "\<exists>t<N. \<exists>s'. log_step t s = Some (Inr s')" if "\<not> finished N s"
    using log_progress [OF assms(1) s(2,4) that] log_step_ok [OF assms(1) s(2)] by blast
  then show ?thesis using s by blast
qed

fun calls_appender :: "log_pc \<Rightarrow> nat \<Rightarrow> bool" where
  "calls_appender (Calling e c a as1 hs) b \<longleftrightarrow> a = b"
| "calls_appender p b \<longleftrightarrow> False"

text \<open>
  C21. Exclusion: no two threads hold the mutex of the same category, and an appender that is attached to
  one category only is never called by two threads at once.
\<close>

theorem concurrent_exclusion:
  assumes "hier_ok l" and "\<And>t. log_calls_ok l (J t)" and "log_run ts (log_threads0 l J) = Some (Inr s)" and "t \<noteq> u"
  shows "set (held_locks (lpc s t)) \<inter> set (held_locks (lpc s u)) = {} \<and>
    (calls_appender (lpc s t) a \<longrightarrow> calls_appender (lpc s u) a \<longrightarrow>
      (\<exists>c d. c \<noteq> d \<and> a \<in> appenders_of l c \<and> a \<in> appenders_of l d))"
proof -
  have inv: "log_inv l s" using log_run_trace [OF assms(1) log_inv0 [OF assms(2)] assms(3)] by auto
  have ex: "c \<notin> set (held_locks (lpc s u))" if "c \<in> set (held_locks (lpc s t))" for c
  proof
    assume "c \<in> set (held_locks (lpc s u))"
    then have "mutex s c = Some u" using log_inv_owner [OF inv] by blast
    moreover have "mutex s c = Some t" using log_inv_owner [OF inv] that by blast
    ultimately show False using assms(4) by simp
  qed
  have att: "\<exists>c. c \<in> set (held_locks (lpc s v)) \<and> a \<in> appenders_of l c" if "calls_appender (lpc s v) a" for v
  proof (cases "lpc s v")
    case (Calling e c b as1 hs)
    have "place_ok l (lpc s v)" using inv by (simp add: log_inv_def)
    then have "a \<in> appenders_of l c" using that by (simp add: Calling)
    moreover have "c \<in> set (held_locks (lpc s v))" by (simp add: Calling)
    ultimately show ?thesis by blast
  qed (use that in simp_all)
  have "\<exists>c d. c \<noteq> d \<and> a \<in> appenders_of l c \<and> a \<in> appenders_of l d"
    if two: "calls_appender (lpc s t) a" "calls_appender (lpc s u) a"
  proof -
    obtain c where c: "c \<in> set (held_locks (lpc s t))" "a \<in> appenders_of l c" using att [OF two(1)] by blast
    obtain d where d: "d \<in> set (held_locks (lpc s u))" "a \<in> appenders_of l d" using att [OF two(2)] by blast
    have "c \<noteq> d" using ex [OF c(1)] d(1) by blast
    then show ?thesis using c(2) d(2) by blast
  qed
  moreover have "set (held_locks (lpc s t)) \<inter> set (held_locks (lpc s u)) = {}" using ex by (simp only: disjoint_iff) blast
  ultimately show ?thesis by blast
qed

subsection \<open>Two threads\<close>

text \<open>One thread logs on the category \<open>a\<close>, another one on the root; both have the appender at 0.\<close>

definition sample_calls :: "nat \<Rightarrow> log_call list" where
  "sample_calls t =
     (if t = 0 then [(\<lparr>t_name = ''0'', t_seconds = 1, t_millis = 0, t_ndc = []\<rparr>, 2, 300, ''m'')]
      else if t = 1 then [(\<lparr>t_name = ''1'', t_seconds = 1, t_millis = 0, t_ndc = []\<rparr>, 1, 300, ''n'')] else [])"

lemma sample_calls_ok: "log_calls_ok sample_logs (sample_calls t)"
proof -
  have "name_of sample_logs 1 = []" "name_of sample_logs 2 = ''a''"
    by (simp_all add: name_of_def sample_logs_eq Category_new_def)
  moreover have "targets sample_logs [] = [0]" by (simp add: targets_def sample_logs_eq Category_new_def)
  ultimately show ?thesis
    by (simp add: sample_calls_def log_calls_ok_def in_tree_def route_def sample_targets sample_logs_eq [THEN arg_cong, of categoryMap]
        sample_logs_eq [THEN arg_cong, of apps])
qed

lemma sample_priority:
  "isPriorityEnabled 2 300 sample_logs = Some (Inr True)" "isPriorityEnabled 1 300 sample_logs = Some (Inr True)"
  by (simp_all add: isPriorityEnabled_def getChainedPriority.simps sample_logs_eq Category_new_def level_def)

text \<open>Three steps take a thread from a call into the first appender of a category that is free.\<close>

lemma thread_enters:
  assumes "lpc s t = Ready" and "calls s t = (T, c, p, msg) # js" and "isPriorityEnabled c p (shared s) = Some (Inr True)"
    and "cats (shared s) c = Some x" and "appenders x = a # as1" and "mutex s c = None"
  shows "\<exists>s'. log_run [t, t, t] s = Some (Inr s') \<and> calls_appender (lpc s' t) a \<and> shared s' = shared s \<and>
    mutex s' = (mutex s)(c \<mapsto> t) \<and> (\<forall>u. u \<noteq> t \<longrightarrow> lpc s' u = lpc s u \<and> calls s' u = calls s u)"
proof -
  let ?e = "LoggingEvent_new (t_name T) (t_seconds T) (t_millis T) (cat_name x) msg (t_ndc T) p"
  let ?s1 = "s\<lparr>lpc := (lpc s)(t := AtCategory ?e c []), calls := (calls s)(t := js)\<rparr>"
  let ?s2 = "?s1\<lparr>mutex := (mutex s)(c \<mapsto> t), lpc := (lpc s)(t := Looping ?e c (a # as1) [])\<rparr>"
  have "log_step t s = Some (Inr ?s1)"
    using log_step_simps(1) [OF assms(1)] assms(2-4) by (simp add: log_start_def Let_def go_def)
  moreover have "log_step t ?s1 = Some (Inr ?s2)"
  proof -
    have "Mutex_lock t c ?s1 = Some (?s1\<lparr>mutex := (mutex s)(c \<mapsto> t)\<rparr>)" using assms(6) by (simp add: Mutex_lock_def)
    moreover have "cats (shared ?s1) c = Some x" using assms(4) by simp
    moreover have "log_step t ?s1 = category_enter t ?e c [] ?s1" by (rule log_step_simps(2)) simp
    ultimately show ?thesis unfolding category_enter_def by (simp only: option.case option.map assms(5)) (simp add: go_def)
  qed
  moreover have "log_step t ?s2 = Some (Inr (go t (Calling ?e c a as1 []) ?s2))"
    by (rule log_step_simps(3)) simp
  ultimately have "log_run [t, t, t] s = Some (Inr (go t (Calling ?e c a as1 []) ?s2))" by simp
  then show ?thesis by (simp add: go_def)
qed

text \<open>The schedule after which both threads are inside \<open>doAppend\<close> of that appender.\<close>

theorem shared_appender_race:
  "\<exists>s. log_run [0, 0, 0, 1, 1, 1] (log_threads0 sample_logs sample_calls) = Some (Inr s) \<and>
    calls_appender (lpc s 0) 0 \<and> calls_appender (lpc s 1) 0"
proof -
  let ?s = "log_threads0 sample_logs sample_calls"
  have c: "cats sample_logs 2 = Some ((Category_new ''a'' (Ptr 1) 800)\<lparr>appenders := [0]\<rparr>)"
    "cats sample_logs 1 = Some ((Category_new [] Null 600)\<lparr>appenders := [0]\<rparr>)"
    by (simp_all add: sample_logs_eq)
  have "lpc ?s 0 = Ready" "isPriorityEnabled 2 300 (shared ?s) = Some (Inr True)" "cats (shared ?s) 2 =
      Some ((Category_new ''a'' (Ptr 1) 800)\<lparr>appenders := [0]\<rparr>)" "mutex ?s 2 = None"
    using sample_priority(1) c(1) by (simp_all add: log_threads0_def)
  moreover have "calls ?s 0 = [(\<lparr>t_name = ''0'', t_seconds = 1, t_millis = 0, t_ndc = []\<rparr>, 2, 300, ''m'')]"
    by (simp add: log_threads0_def sample_calls_def)
  moreover have "appenders ((Category_new ''a'' (Ptr 1) 800)\<lparr>appenders := [0]\<rparr>) = [0]" by simp
  ultimately obtain s1 where s1: "log_run [0, 0, 0] ?s = Some (Inr s1)" "calls_appender (lpc s1 0) 0" "shared s1 = shared ?s"
      "mutex s1 = (mutex ?s)(2 \<mapsto> 0)" "\<forall>u. u \<noteq> 0 \<longrightarrow> lpc s1 u = lpc ?s u \<and> calls s1 u = calls ?s u"
    using thread_enters by blast
  have "lpc s1 1 = Ready" "isPriorityEnabled 1 300 (shared s1) = Some (Inr True)" "cats (shared s1) 1 =
      Some ((Category_new [] Null 600)\<lparr>appenders := [0]\<rparr>)" "mutex s1 1 = None"
    using sample_priority(2) c(2) s1(3-5) by (simp_all add: log_threads0_def)
  moreover have "calls s1 1 = [(\<lparr>t_name = ''1'', t_seconds = 1, t_millis = 0, t_ndc = []\<rparr>, 1, 300, ''n'')]"
    using s1(5) by (simp add: log_threads0_def sample_calls_def)
  moreover have "appenders ((Category_new [] Null 600)\<lparr>appenders := [0]\<rparr>) = [0]" by simp
  ultimately obtain s2 where s2: "log_run [1, 1, 1] s1 = Some (Inr s2)" "calls_appender (lpc s2 1) 0"
      "\<forall>u. u \<noteq> 1 \<longrightarrow> lpc s2 u = lpc s1 u \<and> calls s2 u = calls s1 u"
    using thread_enters by blast
  have "log_run ([0, 0, 0] @ [1, 1, 1]) ?s = Some (Inr s2)" unfolding log_run_append s1(1) using s2(1) by simp
  then show ?thesis using s1(2) s2(2,3) by auto
qed


theorem concurrent_ends_witness:
  "\<exists>s s' t. log_run [0, 0, 0, 1, 1, 1] (log_threads0 sample_logs sample_calls) = Some (Inr s) \<and>
    t < 2 \<and> log_step t s = Some (Inr s')"
proof -
  obtain s where s: "log_run [0, 0, 0, 1, 1, 1] (log_threads0 sample_logs sample_calls) = Some (Inr s)"
      "calls_appender (lpc s 0) 0"
    using shared_appender_race by blast
  have "lpc s 0 \<noteq> Ready" using s(2) by (cases "lpc s 0") auto
  then have "\<not> finished 2 s" by (auto simp: finished_def intro!: exI [of _ 0])
  then show ?thesis using concurrent_ends [OF sample_ok sample_calls_ok s(1), of 2] s(1) by auto
qed

theorem concurrent_exclusion_witness:
  "\<exists>s c d. log_run [0, 0, 0, 1, 1, 1] (log_threads0 sample_logs sample_calls) = Some (Inr s) \<and>
    c \<noteq> d \<and> 0 \<in> appenders_of sample_logs c \<and> 0 \<in> appenders_of sample_logs d"
proof -
  obtain s where s: "log_run [0, 0, 0, 1, 1, 1] (log_threads0 sample_logs sample_calls) = Some (Inr s)"
      "calls_appender (lpc s 0) 0" "calls_appender (lpc s 1) 0"
    using shared_appender_race by blast
  have "(0::nat) \<noteq> 1" by simp
  from concurrent_exclusion [OF sample_ok sample_calls_ok s(1) this, of 0] s show ?thesis by blast
qed

end
