(* ===== verification/LogExit.thy ===== *)
theory LogExit
  imports LogStream
begin

text \<open>
  The end of a process that logs: the destructor of the \<open>HierarchyMaintainer\<close> and then the registry of
  all appenders with its nifty counter (\<^verbatim>\<open>src/git/log4cpp/src/Appender.cpp\<close>). Also the inline functions
  of \<^verbatim>\<open>src/git/log4cpp/include/log4cpp/Category.hh\<close> and the macros of \<^verbatim>\<open>convenience.h\<close>.
\<close>

subsection \<open>The registry and its counter\<close>

text \<open>\<open>n\<close> is \<open>appenders_nifty_counter\<close>; every translation unit constructs and destroys one initializer.\<close>

definition initializer_new :: "int \<Rightarrow> logs \<Rightarrow> int \<times> logs" where
  "initializer_new n s = (n + 1, if n = 0 then s\<lparr>allAppenders := []\<rparr> else s)"

definition initializer_delete :: "int \<Rightarrow> logs \<Rightarrow> (int \<times> logs) res" where
  "initializer_delete n s =
     bindR (if n - 1 = 0 then deleteAllAppenders s else Inr s) (\<lambda>s1. Inr (n - 1, s1))"

fun initializers_new :: "nat \<Rightarrow> int \<times> logs \<Rightarrow> int \<times> logs" where
  "initializers_new 0 st = st"
| "initializers_new (Suc k) st = initializers_new k (initializer_new (fst st) (snd st))"

fun initializers_delete :: "nat \<Rightarrow> int \<times> logs \<Rightarrow> (int \<times> logs) res" where
  "initializers_delete 0 st = Inr st"
| "initializers_delete (Suc k) st = bindR (initializer_delete (fst st) (snd st)) (initializers_delete k)"

text \<open>
  The maintainer is a static variable of a function, made after the registry and so destroyed before it;
  the program has \<open>k\<close> translation units.
\<close>

definition process_exit :: "nat \<Rightarrow> int \<times> logs \<Rightarrow> (int \<times> logs) res" where
  "process_exit k st = bindR (maintainer_destroy [] (snd st)) (\<lambda>s. initializers_delete k (fst st, s))"

subsection \<open>Inline functions and macros\<close>

definition ownsAppender :: "nat \<Rightarrow> ptr \<Rightarrow> logs \<Rightarrow> bool res" where
  "ownsAppender c p s =
     bindR (deref (cats s) (Ptr c)) (\<lambda>x. Inr (case p of Null \<Rightarrow> False
       | Ptr a \<Rightarrow> (case map_of (ownsMap x) a of None \<Rightarrow> False | Some b \<Rightarrow> b)))"

definition getAllAppenders :: "nat \<Rightarrow> logs \<Rightarrow> nat list res" where
  "getAllAppenders c s = bindR (deref (cats s) (Ptr c)) (\<lambda>x. Inr (appenders x))"

definition setAppender :: "nat \<Rightarrow> ptr \<Rightarrow> logs \<Rightarrow> (string option \<times> logs) res" where
  "setAppender c p s =
     (if p \<noteq> Null then addAppender True c p s else bindR (removeAllAppenders c s) (\<lambda>s1. Inr (None, s1)))"

definition isLevelEnabled :: "PriorityLevel \<Rightarrow> nat \<Rightarrow> logs \<Rightarrow> bool res option" where
  "isLevelEnabled l c s = isPriorityEnabled c (level l) s"

definition levelStream :: "PriorityLevel \<Rightarrow> nat \<Rightarrow> logs \<Rightarrow> CategoryStream res option" where
  "levelStream l c s = getStream c (level l) s"

text \<open>\<open>LOG4CPP_INFO(logger, msg)\<close> and the others.\<close>

definition LOG4CPP :: "PriorityLevel \<Rightarrow> thread_ctx \<Rightarrow> nat \<Rightarrow> string \<Rightarrow> logs \<Rightarrow> logs res option" where
  "LOG4CPP l T c msg s =
     Option.bind (isLevelEnabled l c s) (\<lambda>r.
       case r of Inl f \<Rightarrow> Some (Inl f) | Inr b \<Rightarrow> if b then level_message l T c msg s else Some (Inr s))"

text \<open>The test of the macro is the one the function makes again.\<close>

lemma LOG4CPP_level: "LOG4CPP l T c msg s = level_message l T c msg s"
  by (cases "isPriorityEnabled c (level l) s")
    (auto simp: LOG4CPP_def isLevelEnabled_def level_message_def when_enabled_def split: sum.split)

lemma setAppender_owned:
  assumes "setAppender c (Ptr a) s = Inr (e, s')" and "cats s c = Some x" and "a \<notin> set (appenders x)"
  shows "ownsAppender c (Ptr a) s' = Inr True"
  using assms by (auto simp: setAppender_def addAppender_def ownsAppender_def map_of_assign)

subsection \<open>The registry and the appenders\<close>

text \<open>Every entry of the registry is an appender of that name, and every appender is entered.\<close>

definition registered_ok :: "logs \<Rightarrow> bool" where
  "registered_ok s \<longleftrightarrow> distinct (map fst (allAppenders s)) \<and>
     (\<forall>nm a. map_of (allAppenders s) nm = Some a \<longleftrightarrow> (\<exists>x. apps s a = Some x \<and> app_name x = nm))"

lemma registered_erase:
  assumes "registered_ok s" and "Appender_delete a s = Inr s'"
  shows "registered_ok s'"
proof -
  obtain x where x: "apps s a = Some x" and s': "s' = s\<lparr>apps := (apps s)(a := None), allAppenders := map_erase (app_name x) (allAppenders s)\<rparr>"
    using assms(2) by (auto simp: Appender_delete_def bindR_eq_Inr deref_eq_Inr)
  have er: "map_of (map_erase k ps) nm = (if nm = k then None else map_of ps nm)" for k nm and ps :: "(string \<times> nat) list"
    by (induction ps) (auto simp: map_erase_def)
  have reg: "map_of (allAppenders s) nm = Some b \<longleftrightarrow> (\<exists>y. apps s b = Some y \<and> app_name y = nm)" for nm b
    using assms(1) by (simp add: registered_ok_def)
  have "map_of (allAppenders s') nm = Some b \<longleftrightarrow> (\<exists>y. apps s' b = Some y \<and> app_name y = nm)" for nm b
  proof (cases "nm = app_name x")
    case True
    have "b = a" if "apps s b = Some y" "app_name y = app_name x" for y
      using reg [of "app_name x" b] reg [of "app_name x" a] that x by auto
    then show ?thesis using True by (auto simp: s' er)
  next
    case False
    then show ?thesis using reg [of nm b] x by (auto simp: s' er)
  qed
  moreover have "distinct (map fst (allAppenders s'))"
    using assms(1) by (auto simp: s' map_erase_def registered_ok_def distinct_map inj_on_def)
  ultimately show ?thesis unfolding registered_ok_def by blast
qed

lemma registered_erase_all:
  "registered_ok s \<Longrightarrow> deleteAllAppendersWOLock as1 s = Inr s' \<Longrightarrow> registered_ok s'"
proof (induction as1 arbitrary: s)
  case (Cons a as1)
  then show ?case using registered_erase by (auto simp: bindR_eq_Inr)
qed simp

lemma registered_addresses:
  assumes "registered_ok s"
  shows "distinct (map snd (allAppenders s))" and "set (map snd (allAppenders s)) = dom (apps s)"
proof -
  have d: "distinct (map fst (allAppenders s))" using assms by (simp add: registered_ok_def)
  have reg: "(nm, a) \<in> set (allAppenders s) \<longleftrightarrow> (\<exists>x. apps s a = Some x \<and> app_name x = nm)" for nm a
    using assms map_of_eq_Some_iff [OF d, of nm a] by (simp add: registered_ok_def)
  have "inj_on snd (set (allAppenders s))"
  proof (rule inj_onI)
    fix p q assume "p \<in> set (allAppenders s)" "q \<in> set (allAppenders s)" "snd p = snd q"
    moreover obtain nm a mn b where "p = (nm, a)" "q = (mn, b)" by (metis prod.exhaust)
    ultimately show "p = q" using reg [of nm a] reg [of mn b] by auto
  qed
  moreover have "distinct (allAppenders s)" using d by (simp add: distinct_map)
  ultimately show "distinct (map snd (allAppenders s))" by (simp add: distinct_map)
  show "set (map snd (allAppenders s)) = dom (apps s)" using reg by force
qed

text \<open>Deleting all that is registered leaves no appender.\<close>

lemma deleteAllAppenders_all:
  assumes "registered_ok s"
  shows "\<exists>s'. deleteAllAppenders s = Inr s' \<and> apps s' = Map.empty \<and> cats s' = cats s"
proof -
  let ?as = "map snd (allAppenders s)"
  have "distinct ?as" "set ?as \<subseteq> dom (apps (s\<lparr>allAppenders := []\<rparr>))" using registered_addresses [OF assms] by auto
  then obtain s' where s': "deleteAllAppendersWOLock ?as (s\<lparr>allAppenders := []\<rparr>) = Inr s'" "apps s' = apps s |` (- set ?as)"
    using deleteAll_defined [of ?as "s\<lparr>allAppenders := []\<rparr>"] by auto
  have "apps s' = Map.empty" unfolding s'(2) registered_addresses(2) [OF assms] by (auto simp: restrict_map_def fun_eq_iff)
  then show ?thesis using s'(1) deleteAll_frame(2) [OF s'(1)] by (simp add: deleteAllAppenders_def)
qed

text \<open>The categories that a shutdown has emptied.\<close>

lemma delete_all_empty:
  assumes "distinct cs" and "\<And>c. c \<in> set cs \<Longrightarrow> \<exists>x. cats s c = Some x \<and> appenders x = []"
  shows "\<exists>s'. delete_all cs s = Inr s' \<and> cats s' = cats s |` (- set cs) \<and> apps s' = apps s \<and> allAppenders s' = allAppenders s"
  using assms
proof (induction cs arbitrary: s)
  case (Cons c cs)
  obtain x where x: "cats s c = Some x" "appenders x = []" using Cons.prems(2) by auto
  define s1 where "s1 = s\<lparr>cats := (cats s)(c := None)\<rparr>"
  have d: "Category_delete c s = Inr s1" by (simp add: Category_delete_def removeAllAppenders_def x s1_def)
  have "\<exists>s'. delete_all cs s1 = Inr s' \<and> cats s' = cats s1 |` (- set cs) \<and> apps s' = apps s1 \<and> allAppenders s' = allAppenders s1"
    using Cons.prems by (intro Cons.IH) (auto simp: s1_def)
  moreover have "cats s1 |` (- set cs) = cats s |` (- set (c # cs))" by (auto simp: s1_def restrict_map_def fun_eq_iff)
  ultimately show ?case by (simp add: d) (simp add: s1_def)
qed (simp add: restrict_map_def)

lemma maintainer_destroy_all:
  assumes "hier_ok s" and "registered_ok s" and "distinct (owned s)" and "set (owned s) \<subseteq> dom (apps s)"
  shows "\<exists>s'. maintainer_destroy [] s = Inr s' \<and> registered_ok s' \<and> apps s' = apps s |` (- set (owned s)) \<and>
    cats s' = cats s |` (- set (map snd (categoryMap s))) \<and> categoryMap s' = []"
proof -
  let ?cs = "map snd (categoryMap s)"
  obtain s1 where s1: "deleteAllAppendersWOLock (owned s) s = Inr s1" "apps s1 = apps s |` (- set (owned s))"
    using deleteAll_defined [of "owned s" s] assms(3,4) by auto
  note f = deleteAll_frame(2) [OF s1(1)]
  let ?s2 = "s1\<lparr>cats := cleared s ?cs\<rparr>"
  have sh: "shutdown [] s = Inr ?s2" by (simp add: shutdown_eq [OF assms(1)] s1(1))
  have m: "categoryMap ?s2 = categoryMap s" using f by simp
  have "\<exists>x. cats ?s2 c = Some x \<and> appenders x = []" if "c \<in> set ?cs" for c
    using that hier_ok_distinct(2) [OF assms(1)] by (auto simp: cleared_def)
  from delete_all_empty [OF hier_ok_distinct(1) [OF assms(1)] this]
  obtain s3 where s3: "delete_all ?cs ?s2 = Inr s3" "cats s3 = cats ?s2 |` (- set ?cs)" "apps s3 = apps ?s2"
      "allAppenders s3 = allAppenders ?s2" by blast
  have "maintainer_destroy [] s = Inr (s3\<lparr>categoryMap := []\<rparr>)"
    unfolding maintainer_destroy_def sh deleteAllCategories_def bindR_Inr m s3(1) by simp
  moreover have "registered_ok s1" by (rule registered_erase_all [OF assms(2) s1(1)])
  then have "registered_ok (s3\<lparr>categoryMap := []\<rparr>)" using s3(3,4) by (simp add: registered_ok_def)
  moreover have "cats s3 = cats s |` (- set ?cs)" unfolding s3(2) by (auto simp: cleared_def restrict_map_def fun_eq_iff)
  ultimately show ?thesis using s1(2) s3(3) by simp
qed

lemma initializers_delete_wait:
  "int k < n \<Longrightarrow> initializers_delete k (n, s) = Inr (n - int k, s)"
proof (induction k arbitrary: n)
  case (Suc k)
  then have "initializer_delete n s = Inr (n - 1, s)" by (simp add: initializer_delete_def)
  then show ?case using Suc.IH [of "n - 1"] Suc.prems by simp
qed simp

lemma initializers_delete_append:
  "initializers_delete (j + k) st = bindR (initializers_delete j st) (initializers_delete k)"
proof (induction j arbitrary: st)
  case (Suc j)
  then have "initializers_delete (j + k) = (\<lambda>st. bindR (initializers_delete j st) (initializers_delete k))" by blast
  then show ?case by (simp add: bindR_assoc)
qed simp

lemma initializers_delete_last: "initializers_delete (Suc k) (int (Suc k), s) =
    bindR (deleteAllAppenders s) (\<lambda>s1. Inr (0, s1))"
proof -
  have "initializers_delete (k + 1) (int (Suc k), s) = bindR (Inr (1, s)) (initializers_delete 1)"
    unfolding initializers_delete_append using initializers_delete_wait [of k "int (Suc k)" s] by simp
  then show ?thesis by (simp add: initializer_delete_def bindR_assoc)
qed



end
