(* ===== verification/LogThreads.thy ===== *)
theory LogThreads
  imports LogPriority
begin

text \<open>
  What the logging library needs of a thread library: \<open>ThreadLocalDataHolder\<close>, which keeps an object of type
  \<open>T\<close> for every thread, as the files of \<^verbatim>\<open>src/git/log4cpp/include/log4cpp/threading/\<close> define it, the names of
  threads, and the time stamp of \<^verbatim>\<open>TimeStamp.cpp\<close>. \<^verbatim>\<open>NDC.cpp\<close> keeps the diagnostic context of a thread in a
  holder. The mutexes of \<^verbatim>\<open>PThreads.hh\<close> are in \<open>LogConcurrent\<close>.
\<close>

subsection \<open>The holder of PThreads.hh\<close>

text \<open>
  \<open>specific\<close> is the value a thread has set for the key, null at first; \<open>key\<close> tells whether the key
  exists, and \<open>objects\<close> are those made with \<open>new T\<close>.
\<close>

record 'a holder =
  objects :: "nat \<rightharpoonup> 'a"
  specific :: "nat \<Rightarrow> ptr"
  key :: bool
  next_object :: nat

definition holder_new :: "'a holder" where
  "holder_new = \<lparr>objects = (\<lambda>_. None), specific = (\<lambda>_. Null), key = True, next_object = 0\<rparr>"

definition new_object :: "'a \<Rightarrow> 'a holder \<Rightarrow> nat \<times> 'a holder" where
  "new_object x h =
     (next_object h, h\<lparr>objects := (objects h)(next_object h \<mapsto> x), next_object := next_object h + 1\<rparr>)"

text \<open>\<open>delete\<close> of a null pointer does nothing.\<close>

definition delete_object :: "ptr \<Rightarrow> 'a holder \<Rightarrow> 'a holder res" where
  "delete_object p h =
     (case p of Null \<Rightarrow> Inr h
      | Ptr a \<Rightarrow> if objects h a = None then Inl UseAfterFree else Inr (h\<lparr>objects := (objects h)(a := None)\<rparr>))"

definition freeHolder :: "ptr \<Rightarrow> 'a holder \<Rightarrow> 'a holder res" where
  "freeHolder p h = (if p = Null then Inl AssertFailed else delete_object p h)"

definition holder_get :: "nat \<Rightarrow> 'a holder \<Rightarrow> ptr" where
  "holder_get t h = specific h t"

definition holder_deref :: "nat \<Rightarrow> 'a holder \<Rightarrow> 'a res" where
  "holder_deref t h = deref (objects h) (holder_get t h)"

definition setspecific :: "nat \<Rightarrow> ptr \<Rightarrow> 'a holder \<Rightarrow> 'a holder" where
  "setspecific t p h = h\<lparr>specific := (specific h)(t := p)\<rparr>"

definition holder_release :: "nat \<Rightarrow> 'a holder \<Rightarrow> ptr \<times> 'a holder" where
  "holder_release t h = (holder_get t h, setspecific t Null h)"

definition holder_reset :: "nat \<Rightarrow> ptr \<Rightarrow> 'a holder \<Rightarrow> 'a holder res" where
  "holder_reset t p h =
     bindR (if holder_get t h \<noteq> Null then delete_object (holder_get t h) h else Inr h) (\<lambda>h1.
       Inr (setspecific t p h1))"

definition holder_destroy :: "nat \<Rightarrow> 'a holder \<Rightarrow> 'a holder res" where
  "holder_destroy t h =
     bindR (if holder_get t h \<noteq> Null then delete_object (holder_get t h) h else Inr h) (\<lambda>h1. Inr (h1\<lparr>key := False\<rparr>))"

text \<open>
  When a thread ends, the library sets its value to null and calls the destructor of the key on what
  was there, unless that is null or the key was deleted.
\<close>

definition thread_exit :: "nat \<Rightarrow> 'a holder \<Rightarrow> 'a holder res" where
  "thread_exit t h =
     (if key h \<and> specific h t \<noteq> Null then freeHolder (specific h t) (setspecific t Null h) else Inr h)"

subsection \<open>Ownership\<close>

text \<open>Every object belongs to exactly one thread.\<close>

definition holder_ok :: "'a holder \<Rightarrow> bool" where
  "holder_ok h \<longleftrightarrow> (\<forall>a. objects h a \<noteq> None \<longleftrightarrow> (\<exists>t. specific h t = Ptr a)) \<and>
     (\<forall>t u a. specific h t = Ptr a \<longrightarrow> specific h u = Ptr a \<longrightarrow> t = u) \<and> (\<forall>a \<ge> next_object h. objects h a = None)"

lemma holder_okI:
  assumes "\<And>a. objects h a \<noteq> None \<longleftrightarrow> (\<exists>t. specific h t = Ptr a)"
    and "\<And>t u a. specific h t = Ptr a \<Longrightarrow> specific h u = Ptr a \<Longrightarrow> t = u"
    and "\<And>a. a \<ge> next_object h \<Longrightarrow> objects h a = None"
  shows "holder_ok h"
  using assms unfolding holder_ok_def by blast

lemma holder_fields:
  "objects (h\<lparr>objects := f, specific := g\<rparr>) = f" "specific (h\<lparr>objects := f, specific := g\<rparr>) = g"
  "next_object (h\<lparr>objects := f, specific := g\<rparr>) = next_object h"
  "objects (h\<lparr>objects := f, specific := g, next_object := n\<rparr>) = f"
  "specific (h\<lparr>objects := f, specific := g, next_object := n\<rparr>) = g"
  "next_object (h\<lparr>objects := f, specific := g, next_object := n\<rparr>) = n"
  by simp_all

lemma holder_sole: "holder_ok h \<Longrightarrow> specific h t = Ptr a \<Longrightarrow> specific h u = Ptr a \<Longrightarrow> t = u"
  unfolding holder_ok_def by blast

lemma holder_ok_new: "holder_ok holder_new"
  by (simp add: holder_ok_def holder_new_def)

text \<open>What the code of a thread does with the holder: a new object, none, or the end of the thread.\<close>

datatype 'a holder_use = ResetNew nat 'a | ResetNull nat | ThreadExit nat

fun use_holder :: "'a holder_use \<Rightarrow> 'a holder \<Rightarrow> 'a holder res" where
  "use_holder (ResetNew t x) h = (let (a, h1) = new_object x h in holder_reset t (Ptr a) h1)"
| "use_holder (ResetNull t) h = holder_reset t Null h"
| "use_holder (ThreadExit t) h = thread_exit t h"

fun holder_uses :: "'a holder_use list \<Rightarrow> 'a holder \<Rightarrow> 'a holder res" where
  "holder_uses [] h = Inr h"
| "holder_uses (u # us) h = bindR (use_holder u h) (holder_uses us)"

lemma holder_next:
  assumes "holder_ok h"
  shows "specific h t \<noteq> Ptr (next_object h)"
proof
  assume "specific h t = Ptr (next_object h)"
  then have "objects h (next_object h) \<noteq> None" using assms unfolding holder_ok_def by blast
  moreover have "objects h (next_object h) = None" using assms by (simp add: holder_ok_def)
  ultimately show False by simp
qed

text \<open>Taking the object from a thread, and giving it a new one.\<close>

lemma holder_drop:
  assumes "holder_ok h" and "specific h t = Ptr a"
  shows "objects h a \<noteq> None" and "holder_ok (h\<lparr>objects := (objects h)(a := None), specific := (specific h)(t := Null)\<rparr>)"
proof -
  show "objects h a \<noteq> None" using assms by (auto simp: holder_ok_def)
  have one: "specific h u = Ptr a \<longleftrightarrow> u = t" for u using assms by (auto simp: holder_ok_def)
  have live: "objects h b \<noteq> None \<longleftrightarrow> (\<exists>u. specific h u = Ptr b)" for b using assms(1) unfolding holder_ok_def by blast
  have "((objects h)(a := None)) b \<noteq> None \<longleftrightarrow> (\<exists>u. ((specific h)(t := Null)) u = Ptr b)" for b
  proof (cases "b = a")
    case True
    then show ?thesis using one by auto
  next
    case False
    then have "specific h u = Ptr b \<longrightarrow> u \<noteq> t" for u using assms(2) by auto
    then show ?thesis using live [of b] False by auto
  qed
  moreover have "((specific h)(t := Null)) u = Ptr b \<Longrightarrow> ((specific h)(t := Null)) v = Ptr b \<Longrightarrow> u = v" for u v b
    by (metis fun_upd_apply holder_sole [OF assms(1)] ptr.distinct(1))
  moreover have "((objects h)(a := None)) b = None" if "b \<ge> next_object h" for b using assms(1) that by (simp add: holder_ok_def)
  ultimately show "holder_ok (h\<lparr>objects := (objects h)(a := None), specific := (specific h)(t := Null)\<rparr>)"
    unfolding holder_ok_def holder_fields by blast
qed

lemma holder_give:
  assumes "holder_ok h" and "specific h t = Null"
  shows "holder_ok (h\<lparr>objects := (objects h)(next_object h \<mapsto> x), specific := (specific h)(t := Ptr (next_object h)),
    next_object := next_object h + 1\<rparr>)"
proof -
  have no: "specific h u \<noteq> Ptr (next_object h)" for u by (rule holder_next [OF assms(1)])
  have ok: "objects h a \<noteq> None \<longleftrightarrow> (\<exists>u. u \<noteq> t \<and> specific h u = Ptr a)" for a
  proof -
    have "(\<exists>u. specific h u = Ptr a) \<longleftrightarrow> (\<exists>u. u \<noteq> t \<and> specific h u = Ptr a)" using assms(2) by (metis ptr.distinct(1))
    then show ?thesis using assms(1) unfolding holder_ok_def by blast
  qed
  have "((objects h)(next_object h \<mapsto> x)) a \<noteq> None \<longleftrightarrow>
      (\<exists>u. ((specific h)(t := Ptr (next_object h))) u = Ptr a)" for a
    using ok [of a] by auto
  moreover have "((specific h)(t := Ptr (next_object h))) u = Ptr a \<Longrightarrow>
      ((specific h)(t := Ptr (next_object h))) v = Ptr a \<Longrightarrow> u = v" for u v a
    by (metis fun_upd_apply holder_sole [OF assms(1)] no ptr.inject)
  moreover have "((objects h)(next_object h \<mapsto> x)) a = None" if "a \<ge> next_object h + 1" for a
    using assms(1) that by (simp add: holder_ok_def)
  ultimately show ?thesis unfolding holder_ok_def holder_fields by blast
qed

lemma holder_reset_null:
  assumes "holder_ok h"
  shows "\<exists>h'. holder_reset t Null h = Inr h' \<and> holder_ok h' \<and> specific h' t = Null"
proof (cases "specific h t")
  case Null
  then have "h\<lparr>specific := (specific h)(t := Null)\<rparr> = h" by (metis fun_upd_triv holder.surjective holder.update_convs(2))
  with Null assms show ?thesis by (simp add: holder_reset_def holder_get_def setspecific_def)
next
  case (Ptr a)
  then show ?thesis using holder_drop [OF assms Ptr]
    by (auto simp: holder_reset_def holder_get_def setspecific_def delete_object_def)
qed

lemma holder_reset_new:
  assumes "holder_ok h"
  shows "\<exists>h'. use_holder (ResetNew t x) h = Inr h' \<and> holder_ok h' \<and> holder_deref t h' = Inr x"
proof -
  obtain h1 where h1: "holder_reset t Null h = Inr h1" "holder_ok h1" "specific h1 t = Null"
    using holder_reset_null [OF assms] by blast
  define h2 where "h2 = h1\<lparr>objects := (objects h1)(next_object h1 \<mapsto> x), specific := (specific h1)(t := Ptr (next_object h1)),
    next_object := next_object h1 + 1\<rparr>"
  have "use_holder (ResetNew t x) h = Inr h2"
  proof (cases "specific h t")
    case Null
    then have "h1 = h\<lparr>specific := (specific h)(t := Null)\<rparr>" using h1(1) by (simp add: holder_reset_def holder_get_def setspecific_def)
    with Null show ?thesis by (simp add: h2_def new_object_def holder_reset_def holder_get_def setspecific_def)
  next
    case (Ptr a)
    have live: "objects h a \<noteq> None" using holder_drop(1) [OF assms Ptr] .
    have lt: "a \<noteq> next_object h" using holder_next [OF assms, of t] Ptr by auto
    have "h1 = h\<lparr>objects := (objects h)(a := None), specific := (specific h)(t := Null)\<rparr>"
      using h1(1) live Ptr by (simp add: holder_reset_def holder_get_def setspecific_def delete_object_def)
    with Ptr live lt show ?thesis
      by (simp add: h2_def new_object_def holder_reset_def holder_get_def setspecific_def delete_object_def fun_upd_twist)
  qed
  moreover have "holder_ok h2" unfolding h2_def by (rule holder_give [OF h1(2,3)])
  ultimately show ?thesis by (simp add: h2_def holder_deref_def holder_get_def deref_def)
qed

lemma thread_exit_ok:
  assumes "holder_ok h" and "key h"
  shows "thread_exit t h = holder_reset t Null h"
proof (cases "specific h t")
  case Null
  then have "h\<lparr>specific := (specific h)(t := Null)\<rparr> = h" by (metis fun_upd_triv holder.surjective holder.update_convs(2))
  with Null show ?thesis by (simp add: thread_exit_def holder_reset_def holder_get_def setspecific_def)
next
  case (Ptr a)
  then show ?thesis using holder_drop(1) [OF assms(1) Ptr] assms(2)
    by (auto simp: thread_exit_def holder_reset_def holder_get_def setspecific_def freeHolder_def delete_object_def)
qed

lemma holder_key [simp]: "use_holder u h = Inr h' \<Longrightarrow> key h' = key h"
  by (cases u) (auto simp: new_object_def holder_reset_def setspecific_def delete_object_def thread_exit_def freeHolder_def
    bindR_eq_Inr Let_def split: if_splits ptr.splits)

lemma use_holder_ok:
  assumes "holder_ok h" and "key h"
  shows "\<exists>h'. use_holder u h = Inr h' \<and> holder_ok h' \<and> key h'"
proof -
  have "\<exists>h'. use_holder u h = Inr h' \<and> holder_ok h'"
  proof (cases u)
    case (ResetNew t x)
    then show ?thesis using holder_reset_new [OF assms(1)] by blast
  next
    case (ResetNull t)
    then show ?thesis using holder_reset_null [OF assms(1)] by auto
  next
    case (ThreadExit t)
    then show ?thesis using holder_reset_null [OF assms(1)] by (auto simp: thread_exit_ok [OF assms])
  qed
  then show ?thesis using assms(2) holder_key by blast
qed

text \<open>
  Whatever the threads do with the holder, in any order, no object is deleted twice or lost: each belongs
  to exactly one thread that has not ended or reset its value.
\<close>

theorem thread_local_ownership:
  fixes us :: "'a holder_use list"
  shows "\<exists>h. holder_uses us holder_new = Inr h \<and> holder_ok h"
proof -
  have "\<exists>h'. holder_uses us h = Inr h' \<and> holder_ok h'" if "holder_ok h" "key h" for h :: "'a holder"
    using that
  proof (induction us arbitrary: h)
    case (Cons u us)
    obtain h1 where "use_holder u h = Inr h1" "holder_ok h1" "key h1" using use_holder_ok [OF Cons.prems] by blast
    then show ?case using Cons.IH by simp
  qed simp
  from this [OF holder_ok_new] show ?thesis by (simp add: holder_new_def)
qed

text \<open>A thread that ended leaves nothing behind, and the others keep their objects.\<close>

lemma thread_exit_frees:
  assumes "holder_ok h" and "key h" and "specific h t = Ptr a"
  shows "\<exists>h'. thread_exit t h = Inr h' \<and> objects h' a = None \<and> (\<forall>u. u \<noteq> t \<longrightarrow> holder_deref u h' = holder_deref u h)"
proof -
  have "specific h u \<noteq> Ptr a" if "u \<noteq> t" for u using that assms(1,3) by (auto simp: holder_ok_def)
  then show ?thesis using holder_drop(1) [OF assms(1,3)] assms(2,3)
    by (auto simp: thread_exit_def setspecific_def freeHolder_def delete_object_def holder_deref_def holder_get_def deref_def
      split: ptr.splits)
qed

subsection \<open>The end of the holder\<close>

text \<open>
  The destructor deletes the object of the thread it runs on. The objects of the others stay, and as
  the key is gone they stay when their threads end.
\<close>

lemma holder_destroy_leaks:
  assumes "holder_ok h" and "t \<noteq> u" and "specific h u = Ptr a"
  shows "\<exists>h'. holder_destroy t h = Inr h' \<and> thread_exit u h' = Inr h' \<and> objects h' a = objects h a \<and> objects h' a \<noteq> None"
proof -
  have live: "objects h a \<noteq> None" using holder_drop(1) [OF assms(1,3)] .
  show ?thesis
  proof (cases "specific h t")
    case Null
    then show ?thesis using live by (simp add: holder_destroy_def holder_get_def thread_exit_def)
  next
    case (Ptr b)
    then have "a \<noteq> b" using assms by (auto simp: holder_ok_def)
    then show ?thesis using live Ptr holder_drop(1) [OF assms(1) Ptr]
      by (auto simp: holder_destroy_def holder_get_def thread_exit_def delete_object_def)
  qed
qed

text \<open>After \<open>reset(get())\<close> the holder points to a deleted object, and deletes it again when the thread ends.\<close>

lemma reset_to_itself:
  assumes "holder_ok h" and "key h" and "specific h t = Ptr a"
  shows "\<exists>h'. holder_reset t (holder_get t h) h = Inr h' \<and> holder_deref t h' = Inl UseAfterFree \<and> thread_exit t h' = Inl UseAfterFree"
  using holder_drop(1) [OF assms(1,3)] assms(2,3)
  by (simp add: holder_reset_def holder_get_def setspecific_def delete_object_def holder_deref_def deref_def thread_exit_def freeHolder_def)

subsection \<open>The holder of OmniThreads.hh\<close>

text \<open>
  The thread keeps a \<open>Holder\<close>, made at the first \<open>reset\<close>, which owns the object; the thread deletes its
  holder when it ends. \<open>value_of\<close> is the pointer in the holder of a thread, none before it is made.
\<close>

record 'a omni_holder =
  omni_objects :: "nat \<rightharpoonup> 'a"
  value_of :: "nat \<rightharpoonup> ptr"
  omni_next :: nat

definition omni_delete :: "ptr \<Rightarrow> 'a omni_holder \<Rightarrow> 'a omni_holder res" where
  "omni_delete p h =
     (case p of Null \<Rightarrow> Inr h
      | Ptr a \<Rightarrow> if omni_objects h a = None then Inl UseAfterFree else Inr (h\<lparr>omni_objects := (omni_objects h)(a := None)\<rparr>))"

definition omni_get :: "nat \<Rightarrow> 'a omni_holder \<Rightarrow> ptr" where
  "omni_get t h = (case value_of h t of None \<Rightarrow> Null | Some p \<Rightarrow> p)"

definition omni_release :: "nat \<Rightarrow> 'a omni_holder \<Rightarrow> ptr \<times> 'a omni_holder" where
  "omni_release t h =
     (case value_of h t of None \<Rightarrow> (Null, h) | Some p \<Rightarrow> (p, h\<lparr>value_of := (value_of h)(t \<mapsto> Null)\<rparr>))"

definition omni_reset :: "nat \<Rightarrow> ptr \<Rightarrow> 'a omni_holder \<Rightarrow> 'a omni_holder res" where
  "omni_reset t p h =
     (case value_of h t of
        Some q \<Rightarrow> bindR (if q \<noteq> Null then omni_delete q h else Inr h) (\<lambda>h1. Inr (h1\<lparr>value_of := (value_of h1)(t \<mapsto> p)\<rparr>))
      | None \<Rightarrow> Inr (h\<lparr>value_of := (value_of h)(t \<mapsto> p)\<rparr>))"

definition omni_thread_exit :: "nat \<Rightarrow> 'a omni_holder \<Rightarrow> 'a omni_holder res" where
  "omni_thread_exit t h =
     (case value_of h t of
        None \<Rightarrow> Inr h
      | Some q \<Rightarrow> bindR (if q \<noteq> Null then omni_delete q h else Inr h) (\<lambda>h1. Inr (h1\<lparr>value_of := (value_of h1)(t := None)\<rparr>)))"

text \<open>It is the holder of the \<open>pthread\<close> library with a thread's pointer kept in an object of its own.\<close>

definition plain_holder :: "'a omni_holder \<Rightarrow> 'a holder" where
  "plain_holder h = \<lparr>objects = omni_objects h, specific = (\<lambda>t. omni_get t h), key = True, next_object = omni_next h\<rparr>"

lemma plain_holder_set: "plain_holder (h\<lparr>value_of := (value_of h)(t \<mapsto> p)\<rparr>) = setspecific t p (plain_holder h)"
  by (auto simp: plain_holder_def setspecific_def omni_get_def)

lemma plain_holder_unset: "plain_holder (h\<lparr>value_of := (value_of h)(t := None)\<rparr>) = setspecific t Null (plain_holder h)"
  by (auto simp: plain_holder_def setspecific_def omni_get_def)

lemma plain_holder_delete: "map_sum id plain_holder (omni_delete p h) = delete_object p (plain_holder h)"
  by (cases p) (simp_all add: omni_delete_def delete_object_def plain_holder_def omni_get_def)

lemma plain_holder_get: "holder_get t (plain_holder h) = omni_get t h"
  by (simp add: holder_get_def plain_holder_def)

lemma map_sum_bindR: "map_sum id f (bindR r g) = bindR r (\<lambda>x. map_sum id f (g x))"
  by (cases r) simp_all

lemma bindR_map_sum: "bindR (map_sum id f r) g = bindR r (\<lambda>x. g (f x))"
  by (cases r) simp_all

lemma plain_drop: "map_sum id plain_holder (bindR (if q \<noteq> Null then omni_delete q h else Inr h) k) =
    bindR (if q \<noteq> Null then omni_delete q h else Inr h) (\<lambda>x. map_sum id plain_holder (k x))"
  by (rule map_sum_bindR)

lemma omni_reset_refines: "map_sum id plain_holder (omni_reset t p h) = holder_reset t p (plain_holder h)"
proof (cases "value_of h t")
  case None
  then show ?thesis by (simp add: omni_reset_def holder_reset_def plain_holder_get omni_get_def plain_holder_set)
next
  case (Some q)
  then have get: "holder_get t (plain_holder h) = q" by (simp add: plain_holder_get omni_get_def)
  show ?thesis
    by (cases "q = Null")
      (simp_all add: omni_reset_def Some holder_reset_def get map_sum_bindR plain_holder_set
        flip: plain_holder_delete add: bindR_map_sum)
qed

text \<open>
  The two holders of the library with thread-local data that works agree on every operation, so the ownership
  of \<open>thread_local_ownership\<close> holds for both.
\<close>

theorem omni_refines:
  "map_sum id plain_holder (omni_reset t p h) = holder_reset t p (plain_holder h) \<and>
   map_prod id plain_holder (omni_release t h) = holder_release t (plain_holder h) \<and>
   map_sum id plain_holder (omni_thread_exit t h) = holder_reset t Null (plain_holder h) \<and>
   omni_get t h = holder_get t (plain_holder h)"
proof (intro conjI)
  show "map_prod id plain_holder (omni_release t h) = holder_release t (plain_holder h)"
  proof (cases "value_of h t")
    case None
    then have "setspecific t Null (plain_holder h) = plain_holder h"
      by (auto simp: setspecific_def plain_holder_def omni_get_def)
    with None show ?thesis by (simp add: omni_release_def holder_release_def plain_holder_get omni_get_def)
  next
    case (Some q)
    then show ?thesis by (simp add: omni_release_def holder_release_def plain_holder_get omni_get_def plain_holder_set)
  qed
  show "map_sum id plain_holder (omni_thread_exit t h) = holder_reset t Null (plain_holder h)"
  proof (cases "value_of h t")
    case None
    then have "setspecific t Null (plain_holder h) = plain_holder h"
      by (auto simp: setspecific_def plain_holder_def omni_get_def)
    with None show ?thesis by (simp add: omni_thread_exit_def holder_reset_def plain_holder_get omni_get_def)
  next
    case (Some q)
    then have "omni_thread_exit t h = bindR (omni_reset t Null h) (\<lambda>h1. Inr (h1\<lparr>value_of := (value_of h1)(t := None)\<rparr>))"
      by (auto simp: omni_thread_exit_def omni_reset_def omni_delete_def split: ptr.splits)
    moreover have "plain_holder (h1\<lparr>value_of := (value_of h1)(t := None)\<rparr>) = plain_holder h1" if "omni_reset t Null h = Inr h1" for h1
      using that Some by (auto simp: omni_reset_def bindR_eq_Inr plain_holder_def omni_get_def)
    ultimately show ?thesis by (cases "omni_reset t Null h") (simp_all flip: omni_reset_refines)
  qed
qed (simp_all add: omni_reset_refines plain_holder_get)

subsection \<open>The holder of MSThreads.hh\<close>

text \<open>The same calls on a slot of \<open>TlsAlloc\<close>, which has no destructor: what a thread leaves in it stays.\<close>

definition ms_get :: "nat \<Rightarrow> 'a holder \<Rightarrow> ptr" where
  "ms_get t h = specific h t"

definition ms_release :: "nat \<Rightarrow> 'a holder \<Rightarrow> ptr \<times> 'a holder" where
  "ms_release t h = (ms_get t h, setspecific t Null h)"

definition ms_reset :: "nat \<Rightarrow> ptr \<Rightarrow> 'a holder \<Rightarrow> 'a holder res" where
  "ms_reset t p h = bindR (delete_object (ms_get t h) h) (\<lambda>h1. Inr (setspecific t p h1))"

definition ms_destroy :: "'a holder \<Rightarrow> 'a holder" where
  "ms_destroy h = h\<lparr>key := False\<rparr>"

definition ms_thread_exit :: "nat \<Rightarrow> 'a holder \<Rightarrow> 'a holder" where
  "ms_thread_exit t h = setspecific t Null h"

lemma ms_reset_eq: "ms_reset t p h = holder_reset t p h"
  by (simp add: ms_reset_def holder_reset_def ms_get_def holder_get_def delete_object_def)

lemma ms_thread_exit_leaks:
  assumes "holder_ok h" and "specific h t = Ptr a"
  shows "objects (ms_thread_exit t h) a \<noteq> None \<and> (\<forall>u. specific (ms_thread_exit t h) u \<noteq> Ptr a)"
proof -
  have "specific h u \<noteq> Ptr a" if "u \<noteq> t" for u using holder_sole [OF assms(1,2)] that by blast
  then show ?thesis using holder_drop(1) [OF assms] by (simp add: ms_thread_exit_def setspecific_def)
qed

subsection \<open>The holder of DummyThreads.hh\<close>

text \<open>One pointer for the only thread. The constructor leaves it as it was: none is an indeterminate pointer.\<close>

record 'a dummy_holder =
  dummy_objects :: "nat \<rightharpoonup> 'a"
  dummy_data :: "ptr option"

definition dummy_get :: "'a dummy_holder \<Rightarrow> ptr res" where
  "dummy_get h = (case dummy_data h of None \<Rightarrow> Inl Uninitialised | Some p \<Rightarrow> Inr p)"

definition dummy_new :: "ptr option \<Rightarrow> (nat \<rightharpoonup> 'a) \<Rightarrow> 'a dummy_holder" where
  "dummy_new was obs = \<lparr>dummy_objects = obs, dummy_data = was\<rparr>"

definition dummy_delete :: "ptr \<Rightarrow> 'a dummy_holder \<Rightarrow> 'a dummy_holder res" where
  "dummy_delete p h =
     (case p of Null \<Rightarrow> Inr h
      | Ptr a \<Rightarrow> if dummy_objects h a = None then Inl UseAfterFree else Inr (h\<lparr>dummy_objects := (dummy_objects h)(a := None)\<rparr>))"

definition dummy_destroy :: "'a dummy_holder \<Rightarrow> 'a dummy_holder res" where
  "dummy_destroy h = bindR (dummy_get h) (\<lambda>p. if p \<noteq> Null then dummy_delete p h else Inr h)"

definition dummy_release :: "'a dummy_holder \<Rightarrow> (ptr \<times> 'a dummy_holder) res" where
  "dummy_release h = bindR (dummy_get h) (\<lambda>p. Inr (p, h\<lparr>dummy_data := Some Null\<rparr>))"

definition dummy_reset :: "ptr \<Rightarrow> 'a dummy_holder \<Rightarrow> 'a dummy_holder res" where
  "dummy_reset p h =
     bindR (dummy_get h) (\<lambda>q. bindR (if q \<noteq> Null then dummy_delete q h else Inr h) (\<lambda>h1. Inr (h1\<lparr>dummy_data := Some p\<rparr>)))"

text \<open>
  A holder with static storage starts at null, as the one of \<^verbatim>\<open>NDC.cpp\<close>; any other has no use that is
  defined, not even its destructor.
\<close>

lemma dummy_uninitialised:
  "dummy_get (dummy_new None obs) = Inl Uninitialised \<and> dummy_destroy (dummy_new None obs) = Inl Uninitialised \<and>
   dummy_release (dummy_new None obs) = Inl Uninitialised \<and> dummy_reset p (dummy_new None obs) = Inl Uninitialised"
  by (simp add: dummy_get_def dummy_new_def dummy_destroy_def dummy_release_def dummy_reset_def)

lemma dummy_static:
  assumes "obs a = Some x"
  shows "\<exists>h. dummy_reset (Ptr a) (dummy_new (Some Null) obs) = Inr h \<and> dummy_get h = Inr (Ptr a) \<and>
    dummy_destroy h = Inr (h\<lparr>dummy_objects := obs(a := None)\<rparr>)"
  using assms by (simp add: dummy_get_def dummy_new_def dummy_destroy_def dummy_delete_def dummy_reset_def)

subsection \<open>The names of threads\<close>

definition sprintf_into :: "nat \<Rightarrow> string \<Rightarrow> string res" where
  "sprintf_into n s = (if length s < n then Inr s else Inl OutOfBounds)"

definition ms_getThreadId :: "u32 \<Rightarrow> string res" where
  "ms_getThreadId self = sprintf_into 16 (show_u32 self)"

definition omni_getThreadId :: "i32 \<Rightarrow> string res" where
  "omni_getThreadId self = sprintf_into 16 (show_i32 self)"

definition boost_getThreadId :: "string res" where
  "boost_getThreadId = sprintf_into 14 ''not available''"

definition dummy_getThreadId :: string where
  "dummy_getThreadId = ''thread1''"

lemma thread_ids_defined:
  "ms_getThreadId w = Inr (show_u32 w)" "omni_getThreadId v = Inr (show_i32 v)" "boost_getThreadId = Inr ''not available''"
proof -
  have "unat w < 2 ^ 32" using unsigned_less [of w] by simp
  then have "unat w < 10 ^ 10" by simp
  then have "length (digits_of (unat w)) \<le> 10" using digits_of_length [of "unat w" 9] by simp
  then show "ms_getThreadId w = Inr (show_u32 w)" by (simp add: ms_getThreadId_def sprintf_into_def show_u32_def)
  have "nat (sint v) < 10 ^ 10" "nat (- sint v) < 10 ^ 10" using sint_lt [of v] sint_ge [of v] by simp_all
  then have "length (digits_of (nat (sint v))) \<le> 10" "length (digits_of (nat (- sint v))) \<le> 10"
    using digits_of_length [of "nat (sint v)" 9] digits_of_length [of "nat (- sint v)" 9] by simp_all
  then show "omni_getThreadId v = Inr (show_i32 v)" by (simp add: omni_getThreadId_def sprintf_into_def show_i32_def)
  show "boost_getThreadId = Inr ''not available''" by (simp add: boost_getThreadId_def sprintf_into_def)
qed

subsection \<open>Time stamps\<close>

text \<open>\<open>gettimeofday\<close> gives the seconds and microseconds, which are kept in an \<open>int\<close> each.\<close>

record TimeStamp =
  ts_seconds :: i32
  ts_microSeconds :: i32

definition TimeStamp_now :: "int \<times> int \<Rightarrow> TimeStamp" where
  "TimeStamp_now tv = \<lparr>ts_seconds = word_of_int (fst tv), ts_microSeconds = word_of_int (snd tv)\<rparr>"

definition TimeStamp_new :: "u32 \<Rightarrow> u32 \<Rightarrow> TimeStamp" where
  "TimeStamp_new s us = \<lparr>ts_seconds = s, ts_microSeconds = us\<rparr>"

definition getSeconds :: "TimeStamp \<Rightarrow> int" where
  "getSeconds ts = sint (ts_seconds ts)"

definition getMilliSeconds :: "TimeStamp \<Rightarrow> int" where
  "getMilliSeconds ts = c_div (sint (ts_microSeconds ts)) 1000"

definition getMicroSeconds :: "TimeStamp \<Rightarrow> int" where
  "getMicroSeconds ts = sint (ts_microSeconds ts)"

lemma sint_i32: "- (2 ^ 31) \<le> v \<Longrightarrow> v < 2 ^ 31 \<Longrightarrow> sint (word_of_int v :: i32) = v"
  by (simp add: sint_sbintrunc' signed_take_bit_int_eq_self)

text \<open>The time is right for the first \<open>2\<^sup>3\<^sup>1\<close> seconds and wraps to a negative one after them.\<close>

lemma time_stamp_now:
  assumes "0 \<le> sec" and "sec < 2 ^ 31" and "0 \<le> usec" and "usec < 1000000"
  shows "getSeconds (TimeStamp_now (sec, usec)) = sec \<and> getMicroSeconds (TimeStamp_now (sec, usec)) = usec \<and>
    getMilliSeconds (TimeStamp_now (sec, usec)) = usec div 1000 \<and> getMilliSeconds (TimeStamp_now (sec, usec)) < 1000"
  using assms by (simp add: getSeconds_def getMicroSeconds_def getMilliSeconds_def TimeStamp_now_def sint_i32 c_div_def)

lemma time_stamp_wraps: "getSeconds (TimeStamp_now (2 ^ 31, usec)) = - (2 ^ 31)"
  by (simp add: getSeconds_def TimeStamp_now_def)

end
