(* ===== verification/LogPlatform.thy ===== *)
theory LogPlatform
  imports LogFactory
begin

text \<open>
  The appenders that are compiled on other platforms: \<^verbatim>\<open>src/git/log4cpp/src/NTEventLogAppender.cpp\<close>,
  \<^verbatim>\<open>IdsaAppender.cpp\<close> and \<^verbatim>\<open>Win32DebugAppender.cpp\<close>. The functions of Windows and of the idsa
  library are parameters: what they answer is a function of the calls made so far, and the state is
  the list of these calls, the latest first.
\<close>

subsection \<open>The event log of Windows\<close>

datatype nt_call =
    CreateKey string
  | SetString nat string string
  | SetDword nat string u32
  | CloseKey nat
  | RegisterSource string ptr
  | DeregisterSource nat
  | Report ptr "16 word" "16 word" u32 string

text \<open>
  \<open>reg_created\<close> is the answer of \<open>RegCreateKeyEx\<close>, the handle and whether the key is new, or none when
  it fails and writes neither; \<open>event_source\<close> is that of \<open>RegisterEventSource\<close>, null when it fails.
\<close>

record nt_api =
  reg_created :: "nt_call list \<Rightarrow> string \<Rightarrow> (nat \<times> bool) option"
  event_source :: "nt_call list \<Rightarrow> string \<Rightarrow> ptr"

record NTEventLogAppender =
  strSourceName :: string
  hEventSource :: ptr

definition getCategory :: "int \<Rightarrow> 16 word" where
  "getCategory p = word_of_int (c_div p 100 + 1)"

definition EVENTLOG_ERROR_TYPE :: "16 word" where "EVENTLOG_ERROR_TYPE = 1"
definition EVENTLOG_WARNING_TYPE :: "16 word" where "EVENTLOG_WARNING_TYPE = 2"
definition EVENTLOG_INFORMATION_TYPE :: "16 word" where "EVENTLOG_INFORMATION_TYPE = 4"

definition getType :: "int \<Rightarrow> 16 word" where
  "getType p =
     (if p = level EMERG \<or> p = level ALERT \<or> p = level CRIT \<or> p = level ERROR then EVENTLOG_ERROR_TYPE
      else if p = level WARN then EVENTLOG_WARNING_TYPE
      else EVENTLOG_INFORMATION_TYPE)"

text \<open>The size of a string value is its \<open>lstrlen\<close>: the zero at its end is not stored.\<close>

definition regSetString :: "nat \<Rightarrow> string \<Rightarrow> string \<Rightarrow> nt_call list \<Rightarrow> nt_call list" where
  "regSetString k nm v tr = SetString k nm (c_str v) # tr"

definition regSetDword :: "nat \<Rightarrow> string \<Rightarrow> u32 \<Rightarrow> nt_call list \<Rightarrow> nt_call list" where
  "regSetDword k nm v tr = SetDword k nm v # tr"

definition reg_prefix :: string where
  "reg_prefix = ''SYSTEM'' @ CHR 0x5C # ''CurrentControlSet'' @ CHR 0x5C # ''Services'' @ CHR 0x5C # ''EventLog'' @ CHR 0x5C #
     ''Application'' @ [CHR 0x5C]"

definition message_dll :: string where
  "message_dll = ''NTEventLogAppender.dll''"

text \<open>
  \<open>subkey\<close> has 256 characters for the path and its zero. When \<open>RegCreateKeyEx\<close> fails, \<open>disposition\<close> is
  read although nothing has written it.
\<close>

definition addRegistryInfo :: "nt_api \<Rightarrow> string \<Rightarrow> nt_call list \<Rightarrow> nt_call list res" where
  "addRegistryInfo api source tr =
     (let subkey = reg_prefix @ c_str source in
      if length subkey + 1 > 256 then Inl OutOfBounds
      else
        (case reg_created api tr subkey of
           None \<Rightarrow> Inl Uninitialised
         | Some (hkey, new) \<Rightarrow>
             (let tr1 = CreateKey subkey # tr;
                  tr2 = (if new then
                    regSetDword hkey ''CategoryCount'' 8 (regSetDword hkey ''TypesSupported'' 7
                      (regSetString hkey ''CategoryMessageFile'' message_dll
                        (regSetString hkey ''EventMessageFile'' message_dll tr1))) else tr1)
              in Inr (CloseKey hkey # tr2))))"

definition nt_open :: "nt_api \<Rightarrow> NTEventLogAppender \<Rightarrow> nt_call list \<Rightarrow> (NTEventLogAppender \<times> nt_call list) res" where
  "nt_open api a tr =
     bindR (addRegistryInfo api (strSourceName a) tr) (\<lambda>tr1.
       (let h = event_source api tr1 (c_str (strSourceName a))
        in Inr (a\<lparr>hEventSource := h\<rparr>, RegisterSource (c_str (strSourceName a)) h # tr1)))"

text \<open>The member keeps the handle that was given back.\<close>

definition nt_close :: "NTEventLogAppender \<Rightarrow> nt_call list \<Rightarrow> nt_call list" where
  "nt_close a tr = (case hEventSource a of Null \<Rightarrow> tr | Ptr h \<Rightarrow> DeregisterSource h # tr)"

definition NTEventLogAppender_new :: "nt_api \<Rightarrow> string \<Rightarrow> nt_call list \<Rightarrow> (NTEventLogAppender \<times> nt_call list) res" where
  "NTEventLogAppender_new api sourceName tr = nt_open api \<lparr>strSourceName = sourceName, hEventSource = Null\<rparr> tr"

definition NTEventLogAppender_destroy :: "NTEventLogAppender \<Rightarrow> nt_call list \<Rightarrow> nt_call list" where
  "NTEventLogAppender_destroy a tr = nt_close a tr"

definition nt_reopen :: "nt_api \<Rightarrow> NTEventLogAppender \<Rightarrow> nt_call list \<Rightarrow> (NTEventLogAppender \<times> nt_call list) res" where
  "nt_reopen api a tr = nt_open api a (nt_close a tr)"

definition nt_append :: "LoggingEvent \<Rightarrow> NTEventLogAppender \<Rightarrow> nt_call list \<Rightarrow> nt_call list" where
  "nt_append e a tr =
     Report (hEventSource a) (getType (priority e)) (getCategory (priority e)) 0x1000 (c_str (message e)) # tr"

definition create_nt_event_log_appender :: "params \<Rightarrow> exn + (string \<times> string)" where
  "create_nt_event_log_appender ps =
     (let tag = ''nt event log appender'' in
      bindE (required assign_string tag ps ''name'' []) (\<lambda>nm.
      bindE (required assign_string tag ps ''source_name'' []) (\<lambda>s. Inr (nm, s))))"

subsection \<open>The idsa library\<close>

record idsa_event =
  idsa_name :: string
  idsa_scheme :: string
  idsa_priority :: int
  idsa_ndc :: string
  idsa_message :: string

datatype idsa_call = IdsaOpen string ptr | IdsaClose ptr | IdsaLog ptr idsa_event

record idsa_api =
  idsa_opened :: "idsa_call list \<Rightarrow> string \<Rightarrow> ptr"
  idsa_has_event :: "idsa_call list \<Rightarrow> ptr \<Rightarrow> bool"

record IdsaAppender =
  idsaName :: string
  idsaConnection :: ptr

definition idsa_open :: "idsa_api \<Rightarrow> IdsaAppender \<Rightarrow> idsa_call list \<Rightarrow> IdsaAppender \<times> idsa_call list" where
  "idsa_open api a tr =
     (let c = idsa_opened api tr (c_str (idsaName a))
      in (a\<lparr>idsaConnection := c\<rparr>, IdsaOpen (c_str (idsaName a)) c # tr))"

definition IdsaAppender_new :: "idsa_api \<Rightarrow> string \<Rightarrow> idsa_call list \<Rightarrow> IdsaAppender \<times> idsa_call list" where
  "IdsaAppender_new api nm tr = idsa_open api \<lparr>idsaName = nm, idsaConnection = Null\<rparr> tr"

definition idsa_close :: "IdsaAppender \<Rightarrow> idsa_call list \<Rightarrow> IdsaAppender \<times> idsa_call list" where
  "idsa_close a tr = (a\<lparr>idsaConnection := Null\<rparr>, IdsaClose (idsaConnection a) # tr)"

definition IdsaAppender_destroy :: "IdsaAppender \<Rightarrow> idsa_call list \<Rightarrow> idsa_call list" where
  "IdsaAppender_destroy a tr = snd (idsa_close a tr)"

definition idsa_reopen :: "idsa_api \<Rightarrow> IdsaAppender \<Rightarrow> idsa_call list \<Rightarrow> IdsaAppender \<times> idsa_call list" where
  "idsa_reopen api a tr = (let (a1, tr1) = idsa_close a tr in idsa_open api a1 tr1)"

definition idsa_append :: "idsa_api \<Rightarrow> LoggingEvent \<Rightarrow> IdsaAppender \<Rightarrow> idsa_call list \<Rightarrow> idsa_call list" where
  "idsa_append api e a tr =
     (if idsa_has_event api tr (idsaConnection a) then
        IdsaLog (idsaConnection a) \<lparr>idsa_name = c_str (categoryName e), idsa_scheme = ''log4cpp'', idsa_priority = priority e,
          idsa_ndc = c_str (ndc e), idsa_message = c_str (message e)\<rparr> # tr
      else tr)"

definition create_idsa_appender :: "params \<Rightarrow> exn + (string \<times> string)" where
  "create_idsa_appender ps =
     (let tag = ''idsa appender'' in
      bindE (required assign_string tag ps ''name'' []) (\<lambda>nm.
      bindE (required assign_string tag ps ''idsa_name'' []) (\<lambda>s. Inr (nm, s))))"

subsection \<open>The debugger of Windows\<close>

definition debug_append :: "(LoggingEvent \<Rightarrow> string res) \<Rightarrow> LoggingEvent \<Rightarrow> string list \<Rightarrow> string list res" where
  "debug_append fmt e out = bindR (fmt e) (\<lambda>m. Inr (out @ [c_str m]))"

definition create_win32_debug_appender :: "params \<Rightarrow> exn + string" where
  "create_win32_debug_appender ps = required assign_string ''win32 debug appender'' ps ''name'' []"

subsection \<open>Handles\<close>

text \<open>What an appender does with the handles it was given, the latest first; null handles are no events.\<close>

datatype handle_event = Got nat | Gave nat | Used nat

fun open_handles :: "handle_event list \<Rightarrow> nat set" where
  "open_handles [] = {}"
| "open_handles (Got h # es) = insert h (open_handles es)"
| "open_handles (Gave h # es) = open_handles es - {h}"
| "open_handles (Used h # es) = open_handles es"

text \<open>No handle is used or given back unless it is open.\<close>

fun well_used :: "handle_event list \<Rightarrow> bool" where
  "well_used [] \<longleftrightarrow> True"
| "well_used (Got h # es) \<longleftrightarrow> well_used es"
| "well_used (Gave h # es) \<longleftrightarrow> h \<in> open_handles es \<and> well_used es"
| "well_used (Used h # es) \<longleftrightarrow> h \<in> open_handles es \<and> well_used es"

definition on_handle :: "(nat \<Rightarrow> handle_event) \<Rightarrow> ptr \<Rightarrow> handle_event list" where
  "on_handle ev p = (case p of Null \<Rightarrow> [] | Ptr h \<Rightarrow> [ev h])"

lemma on_handle_simps [simp]: "on_handle ev Null = []" "on_handle ev (Ptr h) = [ev h]"
  by (simp_all add: on_handle_def)

definition held_handles :: "ptr \<Rightarrow> nat set" where
  "held_handles p = (case p of Null \<Rightarrow> {} | Ptr h \<Rightarrow> {h})"

lemma held_handles_simps [simp]: "held_handles Null = {}" "held_handles (Ptr h) = {h}"
  by (simp_all add: held_handles_def)

datatype appender_use = Reopened | Appended LoggingEvent

fun use_appender :: "('a \<Rightarrow> 'c list \<Rightarrow> ('a \<times> 'c list) res) \<Rightarrow> (LoggingEvent \<Rightarrow> 'a \<Rightarrow> 'c list \<Rightarrow> 'c list) \<Rightarrow> appender_use list \<Rightarrow>
    'a \<times> 'c list \<Rightarrow> ('a \<times> 'c list) res" where
  "use_appender reopen log [] s = Inr s"
| "use_appender reopen log (Reopened # us) s = bindR (reopen (fst s) (snd s)) (use_appender reopen log us)"
| "use_appender reopen log (Appended e # us) s = use_appender reopen log us (fst s, log e (fst s) (snd s))"

text \<open>An appender that holds one handle: what a use of it does to its handles.\<close>

locale handle_owner =
  fixes handle :: "'a \<Rightarrow> ptr"
    and events :: "'c list \<Rightarrow> handle_event list"
    and reopen :: "'a \<Rightarrow> 'c list \<Rightarrow> ('a \<times> 'c list) res"
    and log :: "LoggingEvent \<Rightarrow> 'a \<Rightarrow> 'c list \<Rightarrow> 'c list"
    and release :: "'a \<Rightarrow> 'c list \<Rightarrow> 'c list"
  assumes reopen_events: "reopen a tr = Inr (a', tr') \<Longrightarrow>
      events tr' = on_handle Got (handle a') @ on_handle Gave (handle a) @ events tr"
    and log_events: "events (log e a tr) = events tr \<or> events (log e a tr) = on_handle Used (handle a) @ events tr"
    and release_events: "events (release a tr) = on_handle Gave (handle a) @ events tr"
begin

definition holds_own :: "'a \<Rightarrow> 'c list \<Rightarrow> bool" where
  "holds_own a tr \<longleftrightarrow> well_used (events tr) \<and> open_handles (events tr) = held_handles (handle a)"

lemma log_owns:
  assumes "holds_own a tr"
  shows "holds_own a (log e a tr)"
  using log_events [of e a tr]
proof
  assume ev: "events (log e a tr) = events tr"
  then show ?thesis using assms unfolding holds_own_def ev by blast
next
  assume ev: "events (log e a tr) = on_handle Used (handle a) @ events tr"
  then show ?thesis using assms unfolding holds_own_def ev by (cases "handle a") simp_all
qed

lemma reopen_owns:
  assumes "holds_own a tr" and "reopen a tr = Inr (a', tr')"
  shows "holds_own a' tr'"
  using assms(1) unfolding holds_own_def reopen_events [OF assms(2)] by (cases "handle a"; cases "handle a'") simp_all

lemma uses_own: "holds_own (fst s) (snd s) \<Longrightarrow> use_appender reopen log us s = Inr s' \<Longrightarrow> holds_own (fst s') (snd s')"
proof (induction us arbitrary: s)
  case (Cons u us)
  show ?case
  proof (cases u)
    case Reopened
    obtain s1 where s1: "reopen (fst s) (snd s) = Inr s1" "use_appender reopen log us s1 = Inr s'"
      using Cons.prems(2) unfolding Reopened use_appender.simps bindR_eq_Inr by blast
    have "holds_own (fst s1) (snd s1)" by (rule reopen_owns [OF Cons.prems(1)]) (simp add: s1(1))
    then show ?thesis by (rule Cons.IH [OF _ s1(2)])
  next
    case (Appended e)
    have "use_appender reopen log us (fst s, log e (fst s) (snd s)) = Inr s'" using Cons.prems(2) unfolding Appended use_appender.simps .
    then show ?thesis by (rule Cons.IH [rotated]) (simp add: log_owns [OF Cons.prems(1)])
  qed
qed simp

lemma lifecycle:
  assumes "holds_own (fst s) (snd s)" and "use_appender reopen log us s = Inr (a, tr)"
  shows "well_used (events (release a tr)) \<and> open_handles (events (release a tr)) = {}"
proof -
  have "holds_own a tr" using uses_own [OF assms] unfolding fst_conv snd_conv .
  then show ?thesis unfolding release_events holds_own_def by (cases "handle a") simp_all
qed

text \<open>A handle that is given back while the appender keeps it is given back again at the end.\<close>

lemma released_twice:
  assumes "holds_own a tr" and "handle a = Ptr h"
  shows "\<not> well_used (events (release a (release a tr)))"
  using assms unfolding holds_own_def release_events by simp

end

subsection \<open>The handles of the two appenders\<close>

fun nt_event :: "nt_call \<Rightarrow> handle_event list" where
  "nt_event (RegisterSource _ p) = on_handle Got p"
| "nt_event (DeregisterSource h) = [Gave h]"
| "nt_event (Report p _ _ _ _) = on_handle Used p"
| "nt_event _ = []"

definition nt_events :: "nt_call list \<Rightarrow> handle_event list" where
  "nt_events tr = concat (map nt_event tr)"

lemma nt_events_simps [simp]: "nt_events [] = []" "nt_events (c # tr) = nt_event c @ nt_events tr"
  by (simp_all add: nt_events_def)

lemma addRegistryInfo_events: "addRegistryInfo api source tr = Inr tr' \<Longrightarrow> nt_events tr' = nt_events tr"
  by (auto simp: addRegistryInfo_def regSetString_def regSetDword_def Let_def split: if_splits option.splits)

lemma nt_close_events: "nt_events (nt_close a tr) = on_handle Gave (hEventSource a) @ nt_events tr"
  by (cases "hEventSource a") (simp_all add: nt_close_def)

lemma nt_open_events:
  assumes "nt_open api a tr = Inr (a', tr')"
  shows "nt_events tr' = on_handle Got (hEventSource a') @ nt_events tr" and "strSourceName a' = strSourceName a"
  using assms by (auto simp: nt_open_def bindR_eq_Inr Let_def addRegistryInfo_events)

interpretation nt: handle_owner hEventSource nt_events "nt_reopen api" nt_append nt_close for api
proof
  show "nt_events tr' = on_handle Got (hEventSource a') @ on_handle Gave (hEventSource a) @ nt_events tr"
    if "nt_reopen api a tr = Inr (a', tr')" for a tr a' tr'
    using nt_open_events(1) [OF that [unfolded nt_reopen_def]] by (simp add: nt_close_events)
  show "nt_events (nt_append e a tr) = nt_events tr \<or>
      nt_events (nt_append e a tr) = on_handle Used (hEventSource a) @ nt_events tr" for e a tr
    by (simp add: nt_append_def)
qed (rule nt_close_events)

fun idsa_event_of :: "idsa_call \<Rightarrow> handle_event list" where
  "idsa_event_of (IdsaOpen _ p) = on_handle Got p"
| "idsa_event_of (IdsaClose p) = on_handle Gave p"
| "idsa_event_of (IdsaLog p _) = on_handle Used p"

definition idsa_events :: "idsa_call list \<Rightarrow> handle_event list" where
  "idsa_events tr = concat (map idsa_event_of tr)"

lemma idsa_events_simps [simp]: "idsa_events [] = []" "idsa_events (c # tr) = idsa_event_of c @ idsa_events tr"
  by (simp_all add: idsa_events_def)

interpretation idsa: handle_owner idsaConnection idsa_events "\<lambda>a tr. Inr (idsa_reopen api a tr)" "idsa_append api"
    IdsaAppender_destroy for api
  by unfold_locales
    (auto simp: idsa_reopen_def idsa_open_def idsa_close_def IdsaAppender_destroy_def idsa_append_def Let_def)

lemma idsa_lifecycle:
  assumes "use_appender (\<lambda>a tr. Inr (idsa_reopen api a tr)) (idsa_append api) us (IdsaAppender_new api nm []) = Inr (a, tr)"
  shows "well_used (idsa_events (IdsaAppender_destroy a tr)) \<and> open_handles (idsa_events (IdsaAppender_destroy a tr)) = {}"
  by (rule idsa.lifecycle [OF _ assms])
    (cases "idsa_opened api [] (c_str nm)"; simp add: idsa.holds_own_def IdsaAppender_new_def idsa_open_def Let_def)

text \<open>The connection is forgotten when it is closed, so that closing it before the destructor does no harm.\<close>

lemma idsa_close_forgets: "idsa_events (snd (idsa_close (fst (idsa_close a tr)) (snd (idsa_close a tr)))) = idsa_events (snd (idsa_close a tr))"
  by (simp add: idsa_close_def)

subsection \<open>The event log: what is defined, and what it shows\<close>

lemma reg_prefix_length: "length reg_prefix = 55"
  by (simp add: reg_prefix_def)

lemma addRegistryInfo_defined:
  "(\<exists>tr'. addRegistryInfo api source tr = Inr tr') \<longleftrightarrow>
     length (c_str source) \<le> 200 \<and> reg_created api tr (reg_prefix @ c_str source) \<noteq> None"
  by (auto simp: addRegistryInfo_def reg_prefix_length Let_def split: option.splits)

lemma nt_open_defined:
  "(\<exists>a' tr'. nt_open api a tr = Inr (a', tr')) \<longleftrightarrow>
     length (c_str (strSourceName a)) \<le> 200 \<and> reg_created api tr (reg_prefix @ c_str (strSourceName a)) \<noteq> None"
  unfolding addRegistryInfo_defined [symmetric] by (auto simp: nt_open_def bindR_eq_Inr Let_def)

lemma nt_uses_defined:
  assumes "length (c_str (strSourceName (fst st))) \<le> 200" and "\<And>tr k. reg_created api tr k \<noteq> None"
  shows "\<exists>a tr. use_appender (nt_reopen api) nt_append us st = Inr (a, tr)"
  using assms(1)
proof (induction us arbitrary: st)
  case Nil
  then show ?case by (cases st) simp
next
  case (Cons u us)
  show ?case
  proof (cases u)
    case Reopened
    obtain a1 tr1 where o: "nt_open api (fst st) (nt_close (fst st) (snd st)) = Inr (a1, tr1)"
      using nt_open_defined assms(2) Cons.prems by blast
    have "strSourceName (fst (a1, tr1)) = strSourceName (fst st)" using nt_open_events(2) [OF o] by simp
    then have "\<exists>a tr. use_appender (nt_reopen api) nt_append us (a1, tr1) = Inr (a, tr)"
      using Cons.IH [of "(a1, tr1)"] Cons.prems by simp
    moreover have "nt_reopen api (fst st) (snd st) = Inr (a1, tr1)" using o by (simp add: nt_reopen_def)
    ultimately show ?thesis by (simp add: Reopened)
  next
    case (Appended e)
    then show ?thesis using Cons.IH [of "(fst st, nt_append e (fst st) (snd st))"] Cons.prems by simp
  qed
qed

text \<open>
  With a name that fits and a registry that answers, the appender can be made, reopened and used in any
  order: each event source is reported to and given back only while it is open, and the destructor leaves
  none. But \<open>close\<close> keeps the handle, and after it the destructor gives the same source back again.
\<close>

theorem event_source_lifecycle:
  assumes "length (c_str src) \<le> 200" and "\<And>tr k. reg_created api tr k \<noteq> None"
  shows "\<exists>st a tr. NTEventLogAppender_new api src [] = Inr st \<and> use_appender (nt_reopen api) nt_append us st = Inr (a, tr) \<and>
    well_used (nt_events (NTEventLogAppender_destroy a tr)) \<and> open_handles (nt_events (NTEventLogAppender_destroy a tr)) = {} \<and>
    (well_used (nt_events (NTEventLogAppender_destroy a (nt_close a tr))) \<longleftrightarrow> hEventSource a = Null)"
proof -
  obtain a0 tr0 where new: "NTEventLogAppender_new api src [] = Inr (a0, tr0)"
    using nt_open_defined [of api "\<lparr>strSourceName = src, hEventSource = Null\<rparr>" "[]"] assms by (auto simp: NTEventLogAppender_new_def)
  note ev = nt_open_events [OF new [unfolded NTEventLogAppender_new_def]]
  have own: "nt.holds_own a0 tr0" using ev(1) by (cases "hEventSource a0") (simp_all add: nt.holds_own_def)
  obtain a tr where run: "use_appender (nt_reopen api) nt_append us (a0, tr0) = Inr (a, tr)"
    using nt_uses_defined [of "(a0, tr0)" api us] assms ev(2) by auto
  have "nt.holds_own a tr" using nt.uses_own [OF _ run] own by simp
  then have twice: "well_used (nt_events (nt_close a (nt_close a tr))) \<longleftrightarrow> hEventSource a = Null"
    by (cases "hEventSource a") (simp_all add: nt_close_events nt.holds_own_def)
  have "well_used (nt_events (nt_close a tr)) \<and> open_handles (nt_events (nt_close a tr)) = {}" using nt.lifecycle [OF _ run] own by simp
  then show ?thesis using new run twice by (intro exI [of _ "(a0, tr0)"] exI [of _ a] exI [of _ tr]) (simp add: NTEventLogAppender_destroy_def)
qed

text \<open>An event source with the name of the program, one message at \<open>ERROR\<close>, then a reopening.\<close>

theorem event_source_lifecycle_witness:
  "\<exists>st a tr. NTEventLogAppender_new \<lparr>reg_created = \<lambda>_ _. Some (1, True), event_source = \<lambda>_ _. Ptr 2\<rparr> ''SharedBike'' [] = Inr st \<and>
    use_appender (nt_reopen \<lparr>reg_created = \<lambda>_ _. Some (1, True), event_source = \<lambda>_ _. Ptr 2\<rparr>) nt_append
      [Appended (LoggingEvent_new ''1'' 0 0 ''root'' ''failed'' [] 300), Reopened] st = Inr (a, tr) \<and>
    well_used (nt_events (NTEventLogAppender_destroy a tr)) \<and> open_handles (nt_events (NTEventLogAppender_destroy a tr)) = {} \<and>
    (well_used (nt_events (NTEventLogAppender_destroy a (nt_close a tr))) \<longleftrightarrow> hEventSource a = Null)"
  by (rule event_source_lifecycle) (simp_all add: c_str_def)

text \<open>
  The constructor is defined exactly for names of at most 200 characters for which the registry key can
  be made: a longer one runs over the array, and after a failure the disposition is indeterminate.
\<close>

theorem event_source_length:
  "(\<exists>st. NTEventLogAppender_new api src tr = Inr st) \<longleftrightarrow>
     length (c_str src) \<le> 200 \<and> reg_created api tr (reg_prefix @ c_str src) \<noteq> None"
  using nt_open_defined [of api "\<lparr>strSourceName = src, hEventSource = Null\<rparr>" tr] by (simp add: NTEventLogAppender_new_def)

text \<open>
  The predefined levels have the types their names say, and the categories from 1; the registry is
  told that there are eight, and \<open>NOTSET\<close> has the ninth.
\<close>

lemma getType_levels:
  "map (\<lambda>l. getType (level l)) [EMERG, FATAL, ALERT, CRIT, ERROR] = replicate 5 EVENTLOG_ERROR_TYPE"
  "getType (level WARN) = EVENTLOG_WARNING_TYPE"
  "map (\<lambda>l. getType (level l)) [NOTICE, INFO, DEBUG, NOTSET] = replicate 4 EVENTLOG_INFORMATION_TYPE"
  by (simp_all add: getType_def level_def numeral_eq_Suc)

lemma getCategory_levels:
  "map (\<lambda>l. unat (getCategory (level l))) [EMERG, FATAL, ALERT, CRIT, ERROR, WARN, NOTICE, INFO, DEBUG, NOTSET] =
     [1, 1, 2, 3, 4, 5, 6, 7, 8, 9]"
  by (simp add: getCategory_def level_def c_div_def)

text \<open>Between two levels the type is that of the least important ones.\<close>

lemma getType_between: "0 < p \<Longrightarrow> p < 100 \<Longrightarrow> getType p = EVENTLOG_INFORMATION_TYPE"
  by (simp add: getType_def level_def)

lemma getCategory_wraps: "getCategory 6553500 = 0" "getCategory 6553600 = 1"
  by (simp_all add: getCategory_def c_div_def)

end
