(* ===== verification/EchoDemo.thy ===== *)
theory EchoDemo
  imports Client
begin

text \<open>
  The programs beside the server: \<^verbatim>\<open>src/demo/libevent_protobuf/server.cc\<close> and \<^verbatim>\<open>client.cc\<close>, the client
  \<^verbatim>\<open>src/tests/libevent_protobuf/client.cc\<close> that was made for the same server,
  \<^verbatim>\<open>src/demo/protobuf/demo.cc\<close> and the expectations of \<^verbatim>\<open>src/tests/test_mobile_ev.cc\<close>. The terminal
  and the connection of the clients are those of \<open>Client\<close>; the generated protobuf code is a parameter.
\<close>

subsection \<open>Messages\<close>

record list_account_records_request =
  la_mobile :: string

record account_record =
  ar_type :: i32
  ar_limit :: i32
  ar_timestamp :: u64

record list_account_records_response =
  la_code :: i32
  la_desc :: "string option"
  la_records :: "account_record list"

record demo_protobuf =
  parse_records_request :: "bytes \<Rightarrow> bool \<times> list_account_records_request"
  serialize_records_request :: "list_account_records_request \<Rightarrow> bytes"
  parse_records_response :: "bytes \<Rightarrow> bool \<times> list_account_records_response"
  serialize_records_response :: "list_account_records_response \<Rightarrow> bytes"

subsection \<open>The server\<close>

text \<open>
  \<open>conn_stats\<close> are the objects of \<open>malloc\<close>; \<open>written\<close> is what the server writes to its connections,
  \<open>printed\<close> its output and \<open>closed_bevs\<close> the connections it freed.
\<close>

definition BUFLEN :: nat where
  "BUFLEN = 1024"

record ConnectStat =
  stat_bev :: nat
  stat_buf :: bytes

record echo_server =
  conn_stats :: "nat \<rightharpoonup> ConnectStat"
  next_stat :: nat
  written :: "(nat \<times> bytes) list"
  printed :: string
  closed_bevs :: "nat list"

definition echo_server0 :: echo_server where
  "echo_server0 = \<lparr>conn_stats = (\<lambda>_. None), next_stat = 0, written = [], printed = [], closed_bevs = []\<rparr>"

definition print :: "string \<Rightarrow> echo_server \<Rightarrow> echo_server" where
  "print out s = s\<lparr>printed := printed s @ out\<rparr>"

text \<open>\<open>got\<close> tells whether \<open>malloc\<close> gave memory. After the last assignment there is no \<open>return\<close>.\<close>

definition stat_init :: "bool \<Rightarrow> nat \<Rightarrow> echo_server \<Rightarrow> (ptr \<times> echo_server) res" where
  "stat_init got b s = (if \<not> got then Inr (Null, s) else Inl MissingReturn)"

text \<open>What the callbacks of the connection \<open>bev\<close> get as their argument.\<close>

definition echo_listener_cb :: "bool \<Rightarrow> i32 \<Rightarrow> nat \<Rightarrow> echo_server \<Rightarrow> (ptr \<times> echo_server) res" where
  "echo_listener_cb got fd b s = stat_init got b (print (''accept a client '' @ show_i32 fd @ endl) s)"

definition do_echo_request :: "demo_protobuf \<Rightarrow> bytes \<Rightarrow> nat \<Rightarrow> ptr \<Rightarrow> echo_server \<Rightarrow> echo_server res" where
  "do_echo_request P data b arg s =
     bindR (deref (conn_stats s) arg) (\<lambda>stat.
       (let s1 = print (''do echo request ...'' @ endl) s;
            msg = data @ drop (length data) (stat_buf stat) in
        bindR (put_bytes msg (length data) [0]) (\<lambda>msg1.
          (let proto_msg = takeWhile (\<lambda>x. x \<noteq> 0) msg1;
               larr = snd (parse_records_request P proto_msg);
               s2 = s1\<lparr>conn_stats := (case arg of Null \<Rightarrow> conn_stats s1 | Ptr a \<Rightarrow> (conn_stats s1)(a \<mapsto> stat\<lparr>stat_buf := msg1\<rparr>))\<rparr>;
               s3 = print (''recv from client<<<< '' @ c_str (la_mobile larr) @ endl) s2
           in Inr (s3\<lparr>written := written s3 @ [(b, bytes_of (la_mobile larr))]\<rparr>)))))"

text \<open>\<open>free\<close> of a null pointer does nothing.\<close>

definition echo_event_cb :: "nat \<Rightarrow> u16 \<Rightarrow> ptr \<Rightarrow> echo_server \<Rightarrow> echo_server res" where
  "echo_event_cb b event arg s =
     (let s1 = (if event AND BEV_EVENT_EOF \<noteq> 0 then print (''connection closed'' @ endl) s
                else if event AND BEV_EVENT_ERROR \<noteq> 0 then print (''some other error'' @ endl) s
                else s);
          s2 = s1\<lparr>closed_bevs := closed_bevs s1 @ [b]\<rparr>
      in case arg of
           Null \<Rightarrow> Inr s2
         | Ptr a \<Rightarrow> if conn_stats s2 a = None then Inl UseAfterFree else Inr (s2\<lparr>conn_stats := (conn_stats s2)(a := None)\<rparr>))"

subsection \<open>The clients\<close>

text \<open>\<open>SerializeToString\<close> is commented out in the client of the demo, so its message is empty.\<close>

definition demo_cmd_msg_cb :: "bytes option \<Rightarrow> client \<Rightarrow> client" where
  "demo_cmd_msg_cb rd c =
     (case rd of None \<Rightarrow> stop 1 c
      | Some _ \<Rightarrow> (let proto_msg = [] in c\<lparr>sent := sent c @ proto_msg\<rparr>))"

definition test_cmd_msg_cb :: "demo_protobuf \<Rightarrow> bytes option \<Rightarrow> client \<Rightarrow> client" where
  "test_cmd_msg_cb P rd c =
     (case rd of None \<Rightarrow> stop 1 c
      | Some _ \<Rightarrow>
          (let proto_msg = serialize_records_request P \<lparr>la_mobile = ''18266666666''\<rparr> in c\<lparr>sent := sent c @ proto_msg\<rparr>))"

definition echo_msg_cb :: "bytes \<Rightarrow> bytes \<Rightarrow> client \<Rightarrow> client res" where
  "echo_msg_cb junk data c =
     (if data = [] then Inr (stop 1 (say (''connection close. exit~'' @ endl) c))
      else
        bindR (put_bytes (data @ drop (length data) junk) (length data) [0]) (\<lambda>msg.
          Inr (say (''recv from server<<<<< ['' @ c_str (string_of_bytes msg) @ ''] '' @ endl) c)))"

text \<open>\<open>main\<close> with the results of the calls that connect: its exit code, the descriptors closed and what is printed.\<close>

definition echo_client_main :: "nat \<Rightarrow> int \<Rightarrow> int \<Rightarrow> int \<Rightarrow> int \<times> int list \<times> string" where
  "echo_client_main argc aton sock conn_rc =
     (if argc < 3 then (-1, [], ''please intput 2 parameter'' @ endl)
      else
        (let (sockfd, closed) = tcp_connect_server aton sock conn_rc in
         if sockfd = -1 then (-1, closed, [])
         else (0, closed, ''connect to server successful'' @ endl @ ''finished '' @ endl)))"

subsection \<open>The protobuf demo\<close>

text \<open>\<open>clock i\<close> is the time at the \<open>i\<close>th round of the loop.\<close>

fun add_records :: "(nat \<Rightarrow> u64) \<Rightarrow> nat \<Rightarrow> nat \<Rightarrow> list_account_records_response \<Rightarrow> list_account_records_response" where
  "add_records clock i 0 larr = larr"
| "add_records clock i (Suc n) larr =
     add_records clock (i + 1) n
       (larr\<lparr>la_records := la_records larr @ [\<lparr>ar_type = 0, ar_limit = word_of_nat (i * 100), ar_timestamp = clock i\<rparr>]\<rparr>)"

definition show_limits :: "account_record list \<Rightarrow> string" where
  "show_limits rs = concat (map (\<lambda>ar. ''limit: '' @ show_i32 (ar_limit ar) @ endl) rs)"

definition demo_main :: "demo_protobuf \<Rightarrow> (nat \<Rightarrow> u64) \<Rightarrow> string" where
  "demo_main P clock =
     (let larr = add_records clock 0 5 \<lparr>la_code = 200, la_desc = Some ''ok'', la_records = []\<rparr>;
          before = ''records size before: '' @ show_i32 (word_of_nat (length (la_records larr))) @ endl;
          data = serialize_records_response P larr;
          larr2 = snd (parse_records_response P data)
      in before @ ''records size after: '' @ show_i32 (word_of_nat (length (la_records larr2))) @ endl @
           ''code: '' @ show_i32 (la_code larr2) @ endl @ show_limits (la_records larr2))"

subsection \<open>What the server does\<close>

text \<open>
  No client is ever answered: either accepting it runs off the end of \<open>stat_init\<close>, or the
  memory was not there and the first request uses the null pointer.
\<close>

theorem echo_never_serves:
  "\<exists>f. bindR (echo_listener_cb got fd b s) (\<lambda>(arg, s1). do_echo_request P data b arg s1) = Inl f"
  by (cases got) (simp_all add: echo_listener_cb_def stat_init_def do_echo_request_def)

text \<open>With the object \<open>stat_init\<close> was to return, it answers the mobile of the message up to its first zero byte.\<close>

lemma takeWhile_true: "\<forall>x \<in> set xs. P x \<Longrightarrow> takeWhile P xs = xs"
  by (induction xs) auto

lemma do_echo_request_Ptr:
  assumes "conn_stats s a = Some st" and "length (stat_buf st) = BUFLEN" and "length data < BUFLEN"
  shows "\<exists>s'. do_echo_request P data b (Ptr a) s = Inr s' \<and>
    written s' = written s @ [(b, bytes_of (la_mobile (snd (parse_records_request P (takeWhile (\<lambda>x. x \<noteq> 0) data)))))]"
proof -
  have "put_bytes (data @ drop (length data) (stat_buf st)) (length data) [0] =
      Inr (data @ 0 # drop (length data + 1) (stat_buf st))"
    using assms(2,3) by (simp add: put_bytes_def BUFLEN_def)
  then show ?thesis using assms(1) by (auto simp: do_echo_request_def Let_def print_def takeWhile_append takeWhile_true)
qed

lemma do_echo_request_full:
  assumes "conn_stats s a = Some st" and "length (stat_buf st) = BUFLEN" and "length data = BUFLEN"
  shows "do_echo_request P data b (Ptr a) s = Inl OutOfBounds"
  using assms by (simp add: do_echo_request_def Let_def put_bytes_def)

subsection \<open>The test client against the server\<close>

definition request_roundtrip :: "demo_protobuf \<Rightarrow> bool" where
  "request_roundtrip P \<longleftrightarrow> (\<forall>m. parse_records_request P (serialize_records_request P m) = (True, m))"

definition response_roundtrip :: "demo_protobuf \<Rightarrow> bool" where
  "response_roundtrip P \<longleftrightarrow> (\<forall>m. parse_records_response P (serialize_records_response P m) = (True, m))"

definition mobile_request_bytes :: "demo_protobuf \<Rightarrow> bytes" where
  "mobile_request_bytes P = serialize_records_request P \<lparr>la_mobile = ''18266666666''\<rparr>"

lemma takeWhile_no_zero: "0 \<notin> set bs \<Longrightarrow> takeWhile (\<lambda>x. x \<noteq> 0) bs = bs"
  by (induction bs) auto

lemma put_zero:
  assumes "length data < length junk"
  shows "put_bytes (data @ drop (length data) junk) (length data) [0] = Inr (data @ 0 # drop (length data + 1) junk)"
  using assms by (simp add: put_bytes_def)

lemma c_str_bytes:
  assumes "CHR 0x00 \<notin> set m"
  shows "c_str (string_of_bytes (bytes_of m @ 0 # r)) = m"
proof -
  have "string_of_bytes (bytes_of m @ 0 # r) = m @ CHR 0x00 # string_of_bytes r"
    using string_of_bytes_inverse [of m] by (simp add: string_of_bytes_def char_of_byte_def char_of_def)
  then show ?thesis using c_str_id [OF assms] assms unfolding c_str_def
    by (auto simp: takeWhile_append)
qed

text \<open>
  Had \<open>stat_init\<close> returned its object, the client of the tests would be answered: the server recovers the
  mobile from the request and sends it back, and the client prints it. The request must be shorter than
  the buffer and have no zero byte, at which the server cuts it.
\<close>

theorem echo_conversation:
  assumes "request_roundtrip P" and "0 \<notin> set (mobile_request_bytes P)" and "length (mobile_request_bytes P) < BUFLEN"
    and "conn_stats s a = Some st" and "length (stat_buf st) = BUFLEN" and "length junk = 1024"
  shows "\<exists>q r s'. test_cmd_msg_cb P (Some line) c = c\<lparr>sent := sent c @ q\<rparr> \<and>
    do_echo_request P q b (Ptr a) s = Inr s' \<and> written s' = written s @ [(b, r)] \<and>
    echo_msg_cb junk r c = Inr (say (''recv from server<<<<< [18266666666] '' @ endl) c)"
proof -
  let ?q = "mobile_request_bytes P" and ?r = "bytes_of ''18266666666''"
  have parse: "la_mobile (snd (parse_records_request P (takeWhile (\<lambda>x. x \<noteq> 0) ?q))) = ''18266666666''"
    using assms(1) unfolding takeWhile_no_zero [OF assms(2)] by (simp add: request_roundtrip_def mobile_request_bytes_def)
  obtain s' where s': "do_echo_request P ?q b (Ptr a) s = Inr s'" "written s' = written s @ [(b, ?r)]"
    using do_echo_request_Ptr [OF assms(4,5,3), of P b] unfolding parse by blast
  have "c_str (string_of_bytes (?r @ 0 # drop (length ?r + 1) junk)) = ''18266666666''"
    by (rule c_str_bytes) simp
  moreover have "length ?r < length junk" and "?r \<noteq> []" using assms(6) by (simp, simp add: bytes_of_def)
  ultimately have "echo_msg_cb junk ?r c = Inr (say (''recv from server<<<<< ['' @ ''18266666666'' @ ''] '' @ endl) c)"
    unfolding echo_msg_cb_def put_zero [OF \<open>length ?r < length junk\<close>] by (simp only: if_False bindR_Inr)
  then have "echo_msg_cb junk ?r c = Inr (say (''recv from server<<<<< [18266666666] '' @ endl) c)" by simp
  then show ?thesis using s' by (auto simp: test_cmd_msg_cb_def mobile_request_bytes_def)
qed

definition flat_codec :: demo_protobuf where
  "flat_codec = \<lparr>parse_records_request = (\<lambda>bs. (True, \<lparr>la_mobile = string_of_bytes bs\<rparr>)),
     serialize_records_request = (\<lambda>m. bytes_of (la_mobile m)),
     parse_records_response = (\<lambda>bs. (False, \<lparr>la_code = 0, la_desc = None, la_records = []\<rparr>)),
     serialize_records_response = (\<lambda>m. [])\<rparr>"

theorem echo_conversation_witness:
  "\<exists>q r s'. test_cmd_msg_cb flat_codec (Some [10]) client0 = client0\<lparr>sent := sent client0 @ q\<rparr> \<and>
    do_echo_request flat_codec q 1 (Ptr 0) (echo_server0\<lparr>conn_stats := [0 \<mapsto> \<lparr>stat_bev = 1, stat_buf = replicate 1024 0\<rparr>]\<rparr>) = Inr s' \<and>
    written s' = written (echo_server0\<lparr>conn_stats := [0 \<mapsto> \<lparr>stat_bev = 1, stat_buf = replicate 1024 0\<rparr>]\<rparr>) @ [(1, r)] \<and>
    echo_msg_cb (replicate 1024 7) r client0 = Inr (say (''recv from server<<<<< [18266666666] '' @ endl) client0)"
proof (rule echo_conversation [where st = "\<lparr>stat_bev = 1, stat_buf = replicate 1024 0\<rparr>"])
  show "request_roundtrip flat_codec" by (simp add: request_roundtrip_def flat_codec_def)
  have q: "mobile_request_bytes flat_codec = bytes_of ''18266666666''" by (simp add: mobile_request_bytes_def flat_codec_def)
  show "0 \<notin> set (mobile_request_bytes flat_codec)" unfolding q by (simp add: bytes_of_def byte_of_def)
  show "length (mobile_request_bytes flat_codec) < BUFLEN" unfolding q by (simp add: BUFLEN_def)
qed (simp_all add: BUFLEN_def)

text \<open>The client of the demo sends nothing, whatever is typed.\<close>

lemma demo_client_silent: "sent (demo_cmd_msg_cb rd c) = sent c"
  by (cases rd) (simp_all add: demo_cmd_msg_cb_def stop_def)

lemma echo_msg_cb_full: "length data = 1024 \<Longrightarrow> length junk = 1024 \<Longrightarrow> echo_msg_cb junk data c = Inl OutOfBounds"
  by (auto simp: echo_msg_cb_def put_bytes_def)

text \<open>A failed connection leaves no descriptor open.\<close>

lemma echo_client_closes:
  "fst (echo_client_main argc aton sock conn_rc) = -1 \<Longrightarrow> 3 \<le> argc \<Longrightarrow> aton \<noteq> 0 \<Longrightarrow> sock \<noteq> -1 \<Longrightarrow>
     fst (snd (echo_client_main argc aton sock conn_rc)) = [sock]"
  by (auto simp: echo_client_main_def tcp_connect_server_def split: if_splits)

subsection \<open>The demo of protobuf\<close>

lemma shown_numbers:
  "show_i32 5 = ''5''" "show_i32 0 = ''0''" "show_i32 100 = ''100''" "show_i32 200 = ''200''" "show_i32 300 = ''300''" "show_i32 400 = ''400''"
  by (simp_all add: show_i32_def digits_of.simps char_of_def bit_0)

lemma demo_main_shows:
  assumes "response_roundtrip P"
  shows "demo_main P clock = ''records size before: 5'' @ endl @ ''records size after: 5'' @ endl @ ''code: 200'' @ endl @
    ''limit: 0'' @ endl @ ''limit: 100'' @ endl @ ''limit: 200'' @ endl @ ''limit: 300'' @ endl @ ''limit: 400'' @ endl"
  using assms by (simp add: demo_main_def response_roundtrip_def numeral_eq_Suc show_limits_def shown_numbers [unfolded numeral_eq_Suc])

subsection \<open>The expectations of the tests\<close>

lemma mobile_code_request_test: "getReasonByErrorCode 200 = Inr ''T_OK.''"
  by (simp add: reason_of_def EER_def)

lemma mobile_code_response_test:
  "getReasonByErrorCode (errcode ERRC_BIKE_IS_TAKEN) = Inr ''Bike is taken.''" "getReasonByErrorCode 500 = Inr ''Undefined.''"
  by (simp_all add: reason_of_def EER_def)

end
