(* ===== verification/Spec2Isabelle.thy ===== *)
theory Spec2Isabelle
  imports EventTypes Events Config Database UserHandler Fifo TaskQueue ThreadPool Session Dispatch Network System Client MainLoop
    StringUtil CNumbers LogPriority Snprintf Asprintf LogProperties LogEvents PatternLayout LogCategory LogStream LogFiles
    LogSinks LogReopen PropertyConfig SimpleConfig BasicConfig MailSender LogFactory ServerLog
    LogConcurrent LogExit LogThreads LogPlatform EchoDemo
begin

text \<open>
  A verification development for the SharedBike server (\<^verbatim>\<open>src/src/\<close>) and for the logging library
  that the repository carries and the server logs through (\<^verbatim>\<open>src/git/log4cpp/\<close>).

  \<^bold>\<open>The program.\<close> \<open>main\<close> configures the logger, loads the ini file, connects to the database, starts the
  dispatch service with its thread pool and then runs the event loop of libevent. The network thread
  accepts connections, reassembles request frames from whatever pieces arrive and posts each request as
  an event to the pool. A worker takes the event, calls the handlers subscribed for its identifier, and
  queues the response; the network thread writes the queued responses back to the sessions that wait
  for them. The one handler issues login codes and logs users in against the database. The test client
  is the other end of the connection.

  \<^bold>\<open>How it is modelled.\<close> A class is a record of its members with the members' names, a function of the code
  is a definition of its name, with every branch and early return. Code that can run into undefined
  behaviour returns \<open>'a res\<close>, a \<open>fault\<close> or a value (\<open>Prelude\<close>): null and dangling pointers, accesses out of
  bounds, missing returns, failed casts, indeterminate values and signed overflow are values that the
  theorems talk about. Heap objects are maps from addresses; a freed object is not in the map. Unsigned
  integers are words, \<open>int\<close> is a word read with \<open>sint\<close> or an \<open>int\<close> with its overflow written out.
  Exceptions are values of a sum. Threads are a relation on the shared state whose steps are the critical
  sections of the code.

  \<^bold>\<open>The server.\<close>
  \<^item> \<open>EventTypes\<close> and \<open>Events\<close>: \<^verbatim>\<open>eventtype.h\<close>, \<^verbatim>\<open>globals.h\<close>, \<^verbatim>\<open>ievent.cc\<close>, \<^verbatim>\<open>events_def.cc\<close>: identifiers, error
    texts, event objects and their dumps.
  \<^item> \<open>Config\<close>: \<^verbatim>\<open>util/iniconfig.cc\<close>. \<open>Database\<close>: \<^verbatim>\<open>database/\<close>, the connection, the statements and the user
    service.
  \<^item> \<open>UserHandler\<close>: \<^verbatim>\<open>user_event_handler.cc\<close>; a login with the code just issued succeeds and stores the user,
    a wrong code changes nothing, two racing first logins store the user twice.
  \<^item> \<open>Fifo\<close>: the contract of a first-in-first-out queue as a locale, interpreted in \<open>TaskQueue\<close> and
    \<open>Dispatch\<close>. \<open>TaskQueue\<close>: the linked task queue of \<^verbatim>\<open>threadpool/thread_pool.cc\<close> with its pointer to the last
    link, which refines that contract.
  \<^item> \<open>ThreadPool\<close>: \<^verbatim>\<open>threadpool/thread_pool.cc\<close>, workers, posting clients and the destroying thread as the
    relation \<open>pstep\<close>; order and accounting of the tasks, no lost wake-up, and what destroying guarantees.
  \<^item> \<open>Session\<close>, \<open>Dispatch\<close>, \<open>Network\<close>: \<^verbatim>\<open>NetworkInterface.cc\<close>, \<^verbatim>\<open>DispatchMsgService.cc\<close>, \<^verbatim>\<open>iEventHandler.cc\<close>; the
    registry of handlers and the handlers are locales (\<open>registry\<close>, \<open>event_handler\<close>) interpreted on the
    code's map and handler. A request in any pieces is posted as the event it encodes, no bytes of a client
    make the reader leave its buffers, a bad header closes the connection, and a response is one frame.
  \<^item> \<open>System\<close>: the network thread, the workers and the queues together. While connections end only when
    idle, every event in flight belongs to a live session of its own, and handling a response never faults;
    otherwise a freed session is used.
  \<^item> \<open>Client\<close>: \<^verbatim>\<open>client/client.cc\<close>, and a whole session of client and server. \<open>MainLoop\<close>: \<^verbatim>\<open>main.cc\<close> and
    \<^verbatim>\<open>util/logger.cc\<close>, the exit codes and what a successful start establishes.

  \<^bold>\<open>The logging library.\<close>
  \<^item> \<open>StringUtil\<close>, \<open>CNumbers\<close>, \<open>Snprintf\<close>: \<^verbatim>\<open>StringUtil.cpp\<close>, the number readers of the C and C++ libraries, and
    the portable \<open>snprintf\<close> of \<^verbatim>\<open>snprintf.c\<close>, which never writes outside its buffer, and whose padding wraps.
    \<open>Asprintf\<close>: the functions of that file that print into a new block, whose two passes agree because the
    position of the formatter does not depend on the buffer; and the thread name of \<^verbatim>\<open>PThreads.cpp\<close>.
  \<^item> \<open>LogPriority\<close>, \<open>LogProperties\<close>: \<^verbatim>\<open>Priority.cpp\<close>, \<^verbatim>\<open>Properties.cpp\<close>; a map is the list of its pairs in
    the order of the keys. Saving and loading is a round trip.
  \<^item> \<open>LogEvents\<close>, \<open>PatternLayout\<close>: events, diagnostic contexts, filter chains and all layouts.
  \<^item> \<open>LogCategory\<close>: \<^verbatim>\<open>Category.cpp\<close>, \<^verbatim>\<open>HierarchyMaintainer.cpp\<close>, \<^verbatim>\<open>Appender.cpp\<close>, \<^verbatim>\<open>AppenderSkeleton.cpp\<close>: the tree of
    categories, delivery along it, ownership of appenders and the shutdown. \<open>LogStream\<close>: \<^verbatim>\<open>CategoryStream.cpp\<close>,
    \<^verbatim>\<open>FixedContextCategory.cpp\<close> and \<^verbatim>\<open>Manipulator.cpp\<close>.
  \<^item> \<open>LogFiles\<close>, \<open>LogSinks\<close>, \<open>MailSender\<close>: the appenders to files (with rolling over), to queues, buffers,
    streams and syslog, and to mail with its sending thread. \<open>LogReopen\<close>: reopening and closing all of them,
    with one contract (the locale \<open>file_sink\<close>) for the three classes that write to a file.
  \<^item> \<open>PropertyConfig\<close>, \<open>SimpleConfig\<close>, \<open>BasicConfig\<close>: the three configurators on one state; a category gets
    what its line says, and whatever is configured, a shutdown afterwards deletes every owned appender once.
    \<open>LogFactory\<close>: the factories, with one contract (the locale \<open>creator_registry\<close>) for the three of them.
  \<^item> \<open>ServerLog\<close>: the two halves together: the shipped \<^verbatim>\<open>src/conf/log.conf\<close> is read by the configurator, the
    logger starts, and every log call of the server prints one line on the console and one in the file.

  \<^item> \<open>LogConcurrent\<close>: \<open>Category::log\<close> from several threads in steps, with the mutexes of \<^verbatim>\<open>PThreads.hh\<close>, which a
    thread keeps on its way up the tree: every interleaving is a sequence of the calls of \<open>doAppend\<close> that
    the threads make alone, nothing blocks for ever, and each category is used by one thread at a time,
    but an appender of two categories is not. \<open>LogExit\<close>: the end of the process, which deletes every
    category and every registered appender once; the inline functions of \<^verbatim>\<open>Category.hh\<close> and the macros.
    \<open>LogThreads\<close>: the holders of thread-local data of the four
    thread libraries, of which two keep the ownership of their objects; thread names; time stamps.
  \<^item> \<open>LogPlatform\<close>: \<^verbatim>\<open>NTEventLogAppender.cpp\<close>, \<^verbatim>\<open>IdsaAppender.cpp\<close>, \<^verbatim>\<open>Win32DebugAppender.cpp\<close>, with one contract (the
    locale \<open>handle_owner\<close>) for the two that own a handle.

  \<^bold>\<open>The demos.\<close> \<open>EchoDemo\<close>: the echo server and its clients under \<^verbatim>\<open>src/demo/\<close> and \<^verbatim>\<open>src/tests/\<close>. The server never
  serves a client because a \<open>return\<close> is missing; with it, it answers as meant.

  \<^bold>\<open>Bounds and fuel.\<close> Loops are recursive functions with a termination proof; the few that need not end in
  the code (\<open>vform\<close>, the chained priority, calling appenders up a cyclic tree, sending packets behind a
  preamble that is too long) are partial functions into \<open>option\<close>, and the theorems say when they have a
  value. Closing a buffering appender closes the one it owns, which ends when that one is older. No fuel is
  used. \<open>sender_run\<close>, \<open>main_loop\<close> and the sessions of the client run lists of steps of any length.

  \<^bold>\<open>Parameters.\<close> What is not in the repository is an argument: iniparser, the MySQL client, the generated
  protobuf code with its round trip as hypothesis, libevent's buffers and readiness, the results of the
  pthread calls, \<open>getenv\<close>, \<open>strftime\<close>, \<open>clock\<close>, the file system's decisions, name resolution and the
  connection to a mail server. Hypotheses about them state documented behaviour and have witnesses.

  \<^bold>\<open>Not modelled.\<close> The functions of \<^verbatim>\<open>PortabilityImpl.cpp\<close>, \<^verbatim>\<open>Localtime.cpp\<close> and \<^verbatim>\<open>DllMain.cpp\<close>, each one call
  of the platform. Apart from \<open>LogConcurrent\<close> and \<open>MailSender\<close> the operations of the logging library are
  single steps; creating and configuring categories while other threads log is not modelled. The tests,
  and the installed copies of headers under \<^verbatim>\<open>src/third/\<close>.
\<close>

end
